(* ===== verification/Prelude.thy ===== *)
theory Prelude
  imports Main "HOL-Library.Word"
begin

text \<open>
  Shared vocabulary of the development: the machine integers of the Rust source, byte
  strings, the slicing operations of Rust slices, the little- and big-endian codecs of the
  standard library (\<open>to_le_bytes\<close>, \<open>from_le_bytes\<close> and their \<open>be\<close> twins),
  and \<open>result\<close>-valued sequencing.

  A \<open>usize\<close> that counts bytes of an object in memory is a \<open>nat\<close>: the length of a
  Rust slice never exceeds \<open>isize::MAX\<close>, so sums of such lengths do not wrap. Counters,
  identifiers and every integer that travels on the wire keep their width as a \<open>word\<close>.
\<close>

section \<open>Types\<close>

type_synonym byte = "8 word"
type_synonym u16 = "16 word"
type_synonym u32 = "32 word"
type_synonym u64 = "64 word"
type_synonym bytes = "byte list"

type_synonym ('e, 'a) result = "'e + 'a"

named_theorems wire_simps \<open>evaluation of the wire codecs on encoded bytes\<close>
named_theorems len_simps \<open>lengths of encoded values\<close>

section \<open>Sequencing of results\<close>

definition rbind :: "('e, 'a) result \<Rightarrow> ('a \<Rightarrow> ('e, 'b) result) \<Rightarrow> ('e, 'b) result" where
  "rbind r f = (case r of Inl e \<Rightarrow> Inl e | Inr a \<Rightarrow> f a)"

definition ok_or :: "'e \<Rightarrow> 'a option \<Rightarrow> ('e, 'a) result" where
  "ok_or e x = (case x of None \<Rightarrow> Inl e | Some a \<Rightarrow> Inr a)"

definition map_err :: "('e \<Rightarrow> 'f) \<Rightarrow> ('e, 'a) result \<Rightarrow> ('f, 'a) result" where
  "map_err g r = (case r of Inl e \<Rightarrow> Inl (g e) | Inr a \<Rightarrow> Inr a)"

lemma rbind_simps [simp]:
  "rbind (Inl e) f = Inl e"
  "rbind (Inr a) f = f a"
  by (simp_all add: rbind_def)

lemma ok_or_simps [simp]:
  "ok_or e None = Inl e"
  "ok_or e (Some a) = Inr a"
  by (simp_all add: ok_or_def)

lemma map_err_simps [simp]:
  "map_err g (Inl e) = Inl (g e)"
  "map_err g (Inr a) = Inr a"
  by (simp_all add: map_err_def)

lemma rbind_Inr_iff: "rbind r f = Inr b \<longleftrightarrow> (\<exists>a. r = Inr a \<and> f a = Inr b)"
  by (cases r) simp_all

lemma ok_or_Inr_iff [simp]: "ok_or e x = Inr a \<longleftrightarrow> x = Some a"
  by (cases x) simp_all

lemma map_err_Inr_iff [simp]: "map_err g r = Inr a \<longleftrightarrow> r = Inr a"
  by (cases r) simp_all

section \<open>Slices\<close>

text \<open>
  \<open>subslice a b xs\<close> is the Rust \<open>xs[a..b]\<close> where that is in range, \<open>get_range\<close> is
  \<open>xs.get(a..b)\<close>, which answers \<open>None\<close> out of range.
\<close>

definition subslice :: "nat \<Rightarrow> nat \<Rightarrow> 'a list \<Rightarrow> 'a list" where
  "subslice a b xs = take (b - a) (drop a xs)"

definition get_range :: "nat \<Rightarrow> nat \<Rightarrow> 'a list \<Rightarrow> 'a list option" where
  "get_range a b xs = (if a \<le> b \<and> b \<le> length xs then Some (subslice a b xs) else None)"

lemma length_subslice [simp]: "length (subslice a b xs) = min (b - a) (length xs - a)"
  by (simp add: subslice_def min.commute)

lemma subslice_0 [simp]: "subslice 0 b xs = take b xs"
  by (simp add: subslice_def)

lemma subslice_append_left: "b \<le> length xs \<Longrightarrow> subslice a b (xs @ ys) = subslice a b xs"
  by (simp add: subslice_def)

lemma subslice_skip: "n = length xs \<Longrightarrow> n \<le> a \<Longrightarrow> subslice a b (xs @ ys) = subslice (a - n) (b - n) ys"
  by (simp add: subslice_def)

lemma subslice_exact: "n = length xs \<Longrightarrow> m = n + length ys \<Longrightarrow> subslice n m (xs @ ys @ zs) = ys"
  by (simp add: subslice_def)

lemma subslice_Cons [simp]:
  "subslice (Suc a) (Suc b) (x # xs) = subslice a b xs"
  by (simp add: subslice_def)

lemma get_range_Some: "get_range a b xs = Some ys \<longleftrightarrow> a \<le> b \<and> b \<le> length xs \<and> ys = subslice a b xs"
  by (auto simp: get_range_def)

lemma get_range_None: "get_range a b xs = None \<longleftrightarrow> \<not> (a \<le> b \<and> b \<le> length xs)"
  by (simp add: get_range_def)

lemma subslice_join:
  "a \<le> b \<Longrightarrow> b \<le> c \<Longrightarrow> subslice a b xs @ subslice b c xs = subslice a c xs"
  "a \<le> b \<Longrightarrow> b \<le> c \<Longrightarrow> subslice a b xs @ subslice b c xs @ ys = subslice a c xs @ ys"
proof -
  show *: "subslice a b xs @ subslice b c xs = subslice a c xs" if "a \<le> b" "b \<le> c"
  proof -
    have "take (c - b) (drop b xs) = drop (b - a) (take (c - a) (drop a xs))"
      using that by (simp add: drop_take)
    moreover have "take (b - a) (drop a xs) = take (b - a) (take (c - a) (drop a xs))"
      using that by (simp add: min_def)
    ultimately show ?thesis by (simp add: subslice_def del: take_take drop_drop)
  qed
  show "subslice a b xs @ subslice b c xs @ ys = subslice a c xs @ ys" if "a \<le> b" "b \<le> c"
    using * [OF that] by (metis append.assoc)
qed

lemma subslice_to_end:
  "a \<le> b \<Longrightarrow> subslice a b xs @ drop b xs = drop a xs"
  "length xs \<le> b \<Longrightarrow> subslice a b xs = drop a xs"
  by (simp_all add: subslice_def) (metis append_take_drop_id drop_drop le_add_diff_inverse2 add.commute)

lemma subslice_single: "a < length xs \<Longrightarrow> xs ! a # ys = subslice a (Suc a) xs @ ys"
  by (simp add: subslice_def take_Suc_conv_app_nth drop_take hd_drop_conv_nth take_Suc)

lemma take_subslice_drop: "a \<le> b \<Longrightarrow> take a xs @ subslice a b xs @ drop b xs = xs"
  by (metis append_assoc append_take_drop_id subslice_def le_add_diff_inverse take_add)

lemma take_subslice: "a \<le> b \<Longrightarrow> take a xs @ subslice a b xs = take b xs"
  by (metis subslice_def le_add_diff_inverse take_add)

section \<open>Endian codecs\<close>

fun le_of_nat :: "nat \<Rightarrow> nat \<Rightarrow> bytes" where
  "le_of_nat 0 k = []"
| "le_of_nat (Suc n) k = of_nat (k mod 256) # le_of_nat n (k div 256)"

fun nat_of_le :: "bytes \<Rightarrow> nat" where
  "nat_of_le [] = 0"
| "nat_of_le (b # bs) = unat b + 256 * nat_of_le bs"

definition to_le :: "nat \<Rightarrow> 'a::len word \<Rightarrow> bytes" where
  "to_le n w = le_of_nat n (unat w)"

definition from_le :: "bytes \<Rightarrow> 'a::len word" where
  "from_le bs = of_nat (nat_of_le bs)"

definition to_be :: "nat \<Rightarrow> 'a::len word \<Rightarrow> bytes" where
  "to_be n w = rev (to_le n w)"

definition from_be :: "bytes \<Rightarrow> 'a::len word" where
  "from_be bs = from_le (rev bs)"

lemma le_of_nat_numeral:
  "le_of_nat (numeral n) k = of_nat (k mod 256) # le_of_nat (pred_numeral n) (k div 256)"
  by (simp only: numeral_eq_Suc [of n] le_of_nat.simps)

lemma length_le_of_nat [simp]: "length (le_of_nat n k) = n"
  by (induction n arbitrary: k) simp_all

lemma unat_byte_of_nat [simp]: "unat (of_nat (k mod 256) :: byte) = k mod 256"
  by (simp add: unat_of_nat)

lemma unat_byte_bound [simp]: "unat (b :: byte) < 256"
  using unsigned_less [of b, where ?'a = nat] by simp

lemma nat_of_le_of_nat: "nat_of_le (le_of_nat n k) = k mod 256 ^ n"
proof (induction n arbitrary: k)
  case 0
  then show ?case by simp
next
  case (Suc n)
  have "nat_of_le (le_of_nat (Suc n) k) = k mod 256 + 256 * ((k div 256) mod 256 ^ n)"
    using Suc.IH by simp
  also have "\<dots> = k mod (256 * 256 ^ n)"
    by (simp add: mod_mult2_eq)
  finally show ?case by simp
qed

lemma nat_of_le_bound: "nat_of_le bs < 256 ^ length bs"
proof (induction bs)
  case Nil
  then show ?case by simp
next
  case (Cons b bs)
  have "unat b < 256" by simp
  moreover have "Suc (nat_of_le bs) \<le> 256 ^ length bs"
    using Cons.IH by simp
  then have "256 * nat_of_le bs + 256 \<le> 256 * 256 ^ length bs"
    by (metis mult_Suc_right add.commute mult_le_mono2)
  ultimately show ?case by (simp del: unat_byte_bound)
qed

lemma le_of_nat_of_le: "n = length bs \<Longrightarrow> le_of_nat n (nat_of_le bs) = bs"
proof (induction bs arbitrary: n)
  case Nil
  then show ?case by simp
next
  case (Cons b bs)
  have "unat b < 256" by simp
  then have "(unat b + 256 * nat_of_le bs) div 256 = nat_of_le bs"
    and "(unat b + 256 * nat_of_le bs) mod 256 = unat b"
    by simp_all
  with Cons show ?case by simp
qed

lemma length_to_le [simp, len_simps]: "length (to_le n w) = n"
  by (simp add: to_le_def)

lemma length_to_be [simp, len_simps]: "length (to_be n w) = n"
  by (simp add: to_be_def)

lemma from_le_to_le:
  fixes w :: "'a::len word"
  assumes "LENGTH('a) = 8 * n"
  shows "from_le (to_le n w) = w"
proof -
  have "unat w < 256 ^ n"
    using unsigned_less [of w, where ?'a = nat] assms by (simp add: power_mult)
  then show ?thesis
    by (simp add: from_le_def to_le_def nat_of_le_of_nat)
qed

lemma to_le_from_le:
  assumes "LENGTH('a) = 8 * n" and "length bs = n"
  shows "to_le n (from_le bs :: 'a::len word) = bs"
proof -
  have "nat_of_le bs < 2 ^ LENGTH('a)"
    using nat_of_le_bound [of bs] assms by (simp add: power_mult)
  then have "unat (from_le bs :: 'a word) = nat_of_le bs"
    by (simp add: from_le_def unat_of_nat)
  then show ?thesis
    using assms by (simp add: to_le_def le_of_nat_of_le)
qed

lemma from_be_to_be: "LENGTH('a) = 8 * n \<Longrightarrow> from_be (to_be n (w :: 'a::len word)) = w"
  by (simp add: from_be_def to_be_def from_le_to_le)

lemma to_be_from_be:
  "LENGTH('a) = 8 * n \<Longrightarrow> length bs = n \<Longrightarrow> to_be n (from_be bs :: 'a::len word) = bs"
  by (simp add: from_be_def to_be_def to_le_from_le)

lemma unat_from_le_u32: "length bs = 4 \<Longrightarrow> unat (from_le bs :: u32) = nat_of_le bs"
  using nat_of_le_bound [of bs] by (simp add: from_le_def unat_of_nat)

text \<open>The widths that occur on the wire, as rewrite rules.\<close>

lemma from_le_to_le_widths [simp, wire_simps]:
  "from_le (to_le 2 (w2 :: u16)) = w2"
  "from_le (to_le 4 (w4 :: u32)) = w4"
  "from_le (to_le 8 (w8 :: u64)) = w8"
  by (simp_all add: from_le_to_le)

lemma from_be_to_be_widths [simp, wire_simps]:
  "from_be (to_be 2 (v2 :: u16)) = v2"
  "from_be (to_be 4 (v4 :: u32)) = v4"
  "from_be (to_be 8 (v8 :: u64)) = v8"
  by (simp_all add: from_be_to_be)

lemma to_le_from_le_widths:
  "length bs = 2 \<Longrightarrow> to_le 2 (from_le bs :: u16) = bs"
  "length bs = 4 \<Longrightarrow> to_le 4 (from_le bs :: u32) = bs"
  "length bs = 8 \<Longrightarrow> to_le 8 (from_le bs :: u64) = bs"
  by (simp_all add: to_le_from_le)

lemma to_be_from_be_widths:
  "length bs = 2 \<Longrightarrow> to_be 2 (from_be bs :: u16) = bs"
  "length bs = 4 \<Longrightarrow> to_be 4 (from_be bs :: u32) = bs"
  "length bs = 8 \<Longrightarrow> to_be 8 (from_be bs :: u64) = bs"
  by (simp_all add: to_be_from_be)

lemma to_le_inj_widths:
  "to_le 2 (a2 :: u16) = to_le 2 b2 \<longleftrightarrow> a2 = b2"
  "to_le 4 (a4 :: u32) = to_le 4 b4 \<longleftrightarrow> a4 = b4"
  "to_le 8 (a8 :: u64) = to_le 8 b8 \<longleftrightarrow> a8 = b8"
  by (metis from_le_to_le_widths)+

lemma from_le_nat_u16: "n < 65536 \<Longrightarrow> unat (from_le (to_le 2 (of_nat n :: u16)) :: u16) = n"
  by (simp add: unat_of_nat)

lemma unat_of_nat_u32: "n < 4294967296 \<Longrightarrow> unat (of_nat n :: u32) = n"
  by (simp add: unat_of_nat)

lemma unat_of_nat_u16: "n < 65536 \<Longrightarrow> unat (of_nat n :: u16) = n"
  by (simp add: unat_of_nat)

section \<open>ASCII literals as bytes\<close>

definition ascii_bytes :: "string \<Rightarrow> bytes" where
  "ascii_bytes s = map of_char s"

lemma length_ascii_bytes [simp]: "length (ascii_bytes s) = length s"
  by (simp add: ascii_bytes_def)

section \<open>Checked arithmetic\<close>

definition checked_add :: "'a::len word \<Rightarrow> 'a word \<Rightarrow> 'a word option" where
  "checked_add a b = (if unat a + unat b < 2 ^ LENGTH('a) then Some (a + b) else None)"

lemma checked_add_Some: "checked_add a b = Some c \<Longrightarrow> unat c = unat a + unat b"
  by (auto simp: checked_add_def unat_word_ariths split: if_splits)

end
