(* ===== verification/Strings.thy ===== *)
theory Strings
  imports Prelude
begin

text \<open>
  Text as the code has it. A Rust \<open>str\<close> is its UTF-8 bytes; this theory has the library
  operations the code uses on it: \<open>trim\<close>, \<open>strip_prefix\<close> and UTF-8 validation.
\<close>

unbundle bit_operations_syntax

section \<open>UTF-8\<close>

definition utf8_cont :: "byte \<Rightarrow> bool" where
  "utf8_cont b \<longleftrightarrow> 128 \<le> b \<and> b < 192"

text \<open>
  Well-formed UTF-8 (Unicode 3.9, table 3-7): no overlong forms, no surrogates, nothing above
  \<open>10FFFF\<close>. This is what \<open>std::str::from_utf8\<close> accepts.
\<close>

fun utf8_valid :: "bytes \<Rightarrow> bool" where
  "utf8_valid [] = True"
| "utf8_valid (a # r) =
     (if a < 128 then utf8_valid r
      else if 194 \<le> a \<and> a \<le> 223 then
        (case r of b # r' \<Rightarrow> utf8_cont b \<and> utf8_valid r' | _ \<Rightarrow> False)
      else if 224 \<le> a \<and> a \<le> 239 then
        (case r of b # c # r' \<Rightarrow>
           utf8_cont b \<and> utf8_cont c \<and> (a = 224 \<longrightarrow> 160 \<le> b) \<and> (a = 237 \<longrightarrow> b < 160) \<and> utf8_valid r'
         | _ \<Rightarrow> False)
      else if 240 \<le> a \<and> a \<le> 244 then
        (case r of b # c # d # r' \<Rightarrow>
           utf8_cont b \<and> utf8_cont c \<and> utf8_cont d \<and> (a = 240 \<longrightarrow> 144 \<le> b) \<and>
           (a = 244 \<longrightarrow> b < 144) \<and> utf8_valid r'
         | _ \<Rightarrow> False)
      else False)"

section \<open>Trimming\<close>

text \<open>The UTF-8 encodings of the characters with the Unicode property \<open>White_Space\<close>.\<close>

definition ws_encodings :: "bytes list" where
  "ws_encodings =
     [[9], [10], [11], [12], [13], [32], [0xC2, 0x85], [0xC2, 0xA0], [0xE1, 0x9A, 0x80],
      [0xE2, 0x80, 0x80], [0xE2, 0x80, 0x81], [0xE2, 0x80, 0x82], [0xE2, 0x80, 0x83], [0xE2, 0x80, 0x84],
      [0xE2, 0x80, 0x85], [0xE2, 0x80, 0x86], [0xE2, 0x80, 0x87], [0xE2, 0x80, 0x88], [0xE2, 0x80, 0x89],
      [0xE2, 0x80, 0x8A], [0xE2, 0x80, 0xA8], [0xE2, 0x80, 0xA9], [0xE2, 0x80, 0xAF], [0xE2, 0x81, 0x9F],
      [0xE3, 0x80, 0x80]]"

fun starts_with :: "'a list \<Rightarrow> 'a list \<Rightarrow> bool" where
  "starts_with [] ys = True"
| "starts_with (x # xs) [] = False"
| "starts_with (x # xs) (y # ys) = (x = y \<and> starts_with xs ys)"

definition strip_prefix :: "'a list \<Rightarrow> 'a list \<Rightarrow> 'a list option" where
  "strip_prefix p s = (if starts_with p s then Some (drop (length p) s) else None)"

lemma starts_with_iff: "starts_with p s \<longleftrightarrow> (\<exists>r. s = p @ r)"
  by (induction p s rule: starts_with.induct) auto

lemma strip_prefix_append [simp]: "strip_prefix p (p @ r) = Some r"
  by (auto simp: strip_prefix_def starts_with_iff)

definition strip_ws :: "bytes list \<Rightarrow> bytes \<Rightarrow> bytes option" where
  "strip_ws ws s = (case filter (\<lambda>w. starts_with w s) ws of [] \<Rightarrow> None | w # _ \<Rightarrow> Some (drop (length w) s))"

lemma strip_ws_shorter:
  assumes "\<forall>w\<in>set ws. w \<noteq> []" and "strip_ws ws s = Some r"
  shows "length r < length s"
proof -
  obtain w where "w \<in> set ws" "starts_with w s" "r = drop (length w) s"
    using assms(2) by (auto simp: strip_ws_def split: list.splits) (metis Cons_eq_filterD in_set_conv_decomp)
  with assms(1) show ?thesis by (cases w; cases s) auto
qed

text \<open>
  \<open>trim_start\<close> drops whitespace characters at the front, and \<open>trim_end\<close> does the same on the
  reversed bytes: in UTF-8 text an encoding at the end is a character at the end. Each round
  removes a byte, so \<open>length s\<close> rounds are enough.
\<close>

fun trim_front :: "nat \<Rightarrow> bytes list \<Rightarrow> bytes \<Rightarrow> bytes" where
  "trim_front 0 ws s = s"
| "trim_front (Suc n) ws s = (case strip_ws ws s of None \<Rightarrow> s | Some r \<Rightarrow> trim_front n ws r)"

definition trim_start :: "bytes \<Rightarrow> bytes" where
  "trim_start s = trim_front (length s) ws_encodings s"

definition trim_end :: "bytes \<Rightarrow> bytes" where
  "trim_end s = rev (trim_front (length s) (map rev ws_encodings) (rev s))"

definition trim :: "bytes \<Rightarrow> bytes" where
  "trim s = trim_end (trim_start s)"

text \<open>Printable ASCII at both ends is what the code's identifiers have: such text is trimmed already.\<close>

definition graphic :: "byte \<Rightarrow> bool" where
  "graphic b \<longleftrightarrow> 33 \<le> b \<and> b < 127"

lemma ws_not_graphic:
  "list_all (\<lambda>w. w \<noteq> [] \<and> \<not> graphic (hd w) \<and> \<not> graphic (last w)) ws_encodings"
  by (simp add: ws_encodings_def graphic_def)

lemma strip_ws_heads:
  assumes "list_all (\<lambda>w. w \<noteq> [] \<and> \<not> graphic (hd w)) ws" and "graphic b"
  shows "strip_ws ws (b # s) = None"
proof -
  have "\<not> starts_with w (b # s)" if "w \<in> set ws" for w
    using assms that by (cases w) (auto simp: list_all_iff)
  then show ?thesis by (simp add: strip_ws_def filter_False)
qed

lemma strip_ws_graphic:
  assumes "graphic b"
  shows "strip_ws ws_encodings (b # s) = None" "strip_ws (map rev ws_encodings) (b # s) = None"
  using ws_not_graphic by (auto intro!: strip_ws_heads [OF _ assms] simp: list_all_iff hd_rev)

lemma trim_front_stop: "strip_ws ws s = None \<Longrightarrow> trim_front n ws s = s"
  by (cases n) simp_all

lemma trim_graphic:
  assumes "s \<noteq> [] \<Longrightarrow> graphic (hd s) \<and> graphic (last s)"
  shows "trim s = s"
proof (cases s)
  case Nil
  then show ?thesis by (simp add: trim_def trim_start_def trim_end_def)
next
  case (Cons b r)
  have "trim_start s = s"
    using assms Cons by (simp add: trim_start_def trim_front_stop strip_ws_graphic del: trim_front.simps)
  moreover have "rev s = last s # tl (rev s)" using Cons by (metis hd_Cons_tl hd_rev list.distinct(1) rev_is_Nil_conv)
  then have "strip_ws (map rev ws_encodings) (rev s) = None"
    using strip_ws_graphic(2) [of "last s" "tl (rev s)"] assms Cons by simp
  then have "trim_end s = s" by (simp add: trim_end_def trim_front_stop)
  ultimately show ?thesis by (simp add: trim_def)
qed

end
