(* ===== verification/Crypto.thy ===== *)
theory Crypto
  imports Strings
begin

text \<open>
  The protected record lanes of \<open>crates/rpc/src/crypto.rs\<close>: hexadecimal key texts, the sealing and
  opening of transport frames, \<open>TransportCipher\<close> with its two counters, and
  \<open>RecordProtection\<close>, the codec of the control and video lanes.

  ChaCha20-Poly1305 comes from the \<open>aws-lc-rs\<close> package and is the parameter \<open>A\<close> of the
  definitions. Two facts of its documentation are used as hypotheses: what is sealed opens
  under the same key, nonce and associated data (\<open>aead_correct\<close>), and a body opens only if it
  is the ciphertext and tag that sealing the plaintext yields (\<open>aead_exact\<close>; the cipher is
  deterministic and the tag is compared in full).
\<close>

unbundle bit_operations_syntax

section \<open>Definitions\<close>

subsection \<open>Constants, errors and keys\<close>

definition KEY_LEN :: nat where "KEY_LEN = 32"
definition NONCE_LEN :: nat where "NONCE_LEN = 32"
definition X25519_PUBLIC_KEY_LEN :: nat where "X25519_PUBLIC_KEY_LEN = 32"
definition ED25519_PUBLIC_KEY_LEN :: nat where "ED25519_PUBLIC_KEY_LEN = 32"
definition TAG_LEN :: nat where "TAG_LEN = 16"
definition TRANSPORT_HEADER_LEN :: nat where "TRANSPORT_HEADER_LEN = 12"
definition CHANNEL_CONTROL :: byte where "CHANNEL_CONTROL = 1"
definition CHANNEL_MEDIA :: byte where "CHANNEL_MEDIA = 2"
definition CHANNEL_VIDEO :: byte where "CHANNEL_VIDEO = 3"
definition TOKEN_CHANNEL :: byte where "TOKEN_CHANNEL = 0"

definition REJECT_AFTER_MESSAGES :: u64 where
  "REJECT_AFTER_MESSAGES = - 1 - push_bit 4 1"

datatype crypto_error =
    Random | InvalidHandshake | InvalidSignature | InvalidKey | InvalidEncoding
  | UnsupportedVersion u16 | WrongKeyId | CounterMismatch | Replay | CounterExhausted
  | Cipher | BindProofMismatch

record key_material =
  key_id :: u32
  key_bytes :: bytes

record aead_fns =
  aead_key_ok :: "bytes \<Rightarrow> bool"
  aead_seal :: "bytes \<Rightarrow> bytes \<Rightarrow> bytes \<Rightarrow> bytes \<Rightarrow> (bytes \<times> bytes) option"
  aead_open :: "bytes \<Rightarrow> bytes \<Rightarrow> bytes \<Rightarrow> bytes \<Rightarrow> bytes option"

subsection \<open>Hexadecimal\<close>

definition HEX :: bytes where
  "HEX = ascii_bytes ''0123456789abcdef''"

definition encode_hex :: "bytes \<Rightarrow> bytes" where
  "encode_hex bs = concat (map (\<lambda>byte. [HEX ! unat (drop_bit 4 byte), HEX ! unat (byte AND 0x0f)]) bs)"

definition decode_hex_nibble :: "byte \<Rightarrow> (crypto_error, byte) result" where
  "decode_hex_nibble byte =
     (if 48 \<le> byte \<and> byte \<le> 57 then Inr (byte - 48)
      else if 97 \<le> byte \<and> byte \<le> 102 then Inr (byte - 97 + 10)
      else if 65 \<le> byte \<and> byte \<le> 70 then Inr (byte - 65 + 10)
      else Inl InvalidEncoding)"

text \<open>The loop over \<open>chunks_exact(2)\<close>.\<close>

fun decode_hex_pairs :: "bytes \<Rightarrow> (crypto_error, bytes) result" where
  "decode_hex_pairs (a # b # r) =
     rbind (decode_hex_nibble a) (\<lambda>high.
     rbind (decode_hex_nibble b) (\<lambda>low.
     rbind (decode_hex_pairs r) (\<lambda>out. Inr ((push_bit 4 high OR low) # out))))"
| "decode_hex_pairs _ = Inr []"

definition decode_hex :: "bytes \<Rightarrow> (crypto_error, bytes) result" where
  "decode_hex value =
     (let value = trim value in
      if length value mod 2 \<noteq> 0 then Inl InvalidEncoding else decode_hex_pairs value)"

definition decode_fixed_hex :: "nat \<Rightarrow> bytes \<Rightarrow> (crypto_error, bytes) result" where
  "decode_fixed_hex n value =
     rbind (decode_hex value) (\<lambda>decoded. if length decoded = n then Inr decoded else Inl InvalidEncoding)"

subsection \<open>Sealing and opening one frame\<close>

definition transport_aad :: "byte \<Rightarrow> bytes \<Rightarrow> bytes" where
  "transport_aad channel header = channel # header"

definition nonce_from_counter :: "u64 \<Rightarrow> bytes" where
  "nonce_from_counter counter = [0, 0, 0, 0] @ to_le 8 counter"

definition transport_header :: "key_material \<Rightarrow> u64 \<Rightarrow> bytes" where
  "transport_header key counter = to_le 4 (key_id key) @ to_le 8 counter"

text \<open>
  \<open>seal_with_key_into\<close> appends to \<open>out\<close>; the second component is \<open>out\<close> afterwards, on the
  error paths too.
\<close>

definition seal_with_key_into ::
  "aead_fns \<Rightarrow> key_material \<Rightarrow> byte \<Rightarrow> u64 \<Rightarrow> bytes \<Rightarrow> bytes \<Rightarrow> (crypto_error, unit) result \<times> bytes" where
  "seal_with_key_into A key channel counter plaintext out =
     (if counter \<ge> REJECT_AFTER_MESSAGES then (Inl CounterExhausted, out)
      else if \<not> aead_key_ok A (key_bytes key) then (Inl InvalidKey, out)
      else
        let base = length out;
            out = out @ transport_header key counter @ plaintext;
            nonce = nonce_from_counter counter;
            aad = transport_aad channel (subslice base (base + TRANSPORT_HEADER_LEN) out)
        in case aead_seal A (key_bytes key) nonce aad (drop (base + TRANSPORT_HEADER_LEN) out) of
             None \<Rightarrow> (Inl Cipher, take base out)
           | Some (ciphertext, tag) \<Rightarrow>
               (Inr (), take (base + TRANSPORT_HEADER_LEN) out @ ciphertext @ tag))"

definition seal_with_key ::
  "aead_fns \<Rightarrow> key_material \<Rightarrow> byte \<Rightarrow> u64 \<Rightarrow> bytes \<Rightarrow> (crypto_error, bytes) result" where
  "seal_with_key A key channel counter plaintext =
     (case seal_with_key_into A key channel counter plaintext [] of
        (r, out) \<Rightarrow> rbind r (\<lambda>_. Inr out))"

text \<open>\<open>seal_in_place_append_tag\<close> and \<open>open_in_place_with_aad\<close>: the caller owns the framing.\<close>

definition seal_in_place_append_tag ::
  "aead_fns \<Rightarrow> key_material \<Rightarrow> u64 \<Rightarrow> bytes \<Rightarrow> nat \<Rightarrow> bytes \<Rightarrow> (crypto_error, bytes) result" where
  "seal_in_place_append_tag A key counter aad cipher_start out =
     (if counter \<ge> REJECT_AFTER_MESSAGES then Inl CounterExhausted
      else if \<not> aead_key_ok A (key_bytes key) then Inl InvalidKey
      else case aead_seal A (key_bytes key) (nonce_from_counter counter) aad (drop cipher_start out) of
             None \<Rightarrow> Inl Cipher
           | Some (ciphertext, tag) \<Rightarrow> Inr (take cipher_start out @ ciphertext @ tag))"

definition open_in_place_with_aad ::
  "aead_fns \<Rightarrow> key_material \<Rightarrow> u64 \<Rightarrow> bytes \<Rightarrow> bytes \<Rightarrow> (crypto_error, bytes) result" where
  "open_in_place_with_aad A key counter aad body =
     (if counter \<ge> REJECT_AFTER_MESSAGES then Inl CounterExhausted
      else if \<not> aead_key_ok A (key_bytes key) then Inl InvalidKey
      else ok_or Cipher (aead_open A (key_bytes key) (nonce_from_counter counter) aad body))"

text \<open>
  \<open>open_body_in_place\<close> returns the counter and the plaintext, which in memory is the front of
  \<open>body\<close>.
\<close>

definition open_body_in_place ::
  "aead_fns \<Rightarrow> key_material \<Rightarrow> byte \<Rightarrow> bytes \<Rightarrow> bytes \<Rightarrow> (crypto_error, u64 \<times> bytes) result" where
  "open_body_in_place A key channel header body =
     (let id = (from_le (subslice 0 4 header) :: u32) in
      if id \<noteq> key_id key then Inl WrongKeyId
      else
        let counter = (from_le (subslice 4 12 header) :: u64) in
        if counter \<ge> REJECT_AFTER_MESSAGES then Inl CounterExhausted
        else
          let nonce = nonce_from_counter counter;
              aad = transport_aad channel header
          in if \<not> aead_key_ok A (key_bytes key) then Inl InvalidKey
             else rbind (ok_or Cipher (aead_open A (key_bytes key) nonce aad body))
                    (\<lambda>plaintext. Inr (counter, plaintext)))"

definition open_with_key ::
  "aead_fns \<Rightarrow> key_material \<Rightarrow> byte \<Rightarrow> bytes \<Rightarrow> (crypto_error, u64 \<times> bytes) result" where
  "open_with_key A key channel frame =
     (if length frame < TRANSPORT_HEADER_LEN + TAG_LEN then Inl Cipher
      else open_body_in_place A key channel (take TRANSPORT_HEADER_LEN frame) (drop TRANSPORT_HEADER_LEN frame))"

subsection \<open>The transport cipher\<close>

record transport_cipher =
  tc_send :: key_material
  tc_recv :: key_material
  next_send_counter :: u64
  next_recv_counter :: u64

definition tc_new :: "key_material \<Rightarrow> key_material \<Rightarrow> transport_cipher" where
  "tc_new send recv = \<lparr>tc_send = send, tc_recv = recv, next_send_counter = 0, next_recv_counter = 0\<rparr>"

definition tc_seal_next_into :: "aead_fns \<Rightarrow> transport_cipher \<Rightarrow> byte \<Rightarrow> bytes \<Rightarrow> bytes
    \<Rightarrow> (crypto_error, unit) result \<times> transport_cipher \<times> bytes" where
  "tc_seal_next_into A tc channel plaintext out =
     (let counter = next_send_counter tc in
      if counter \<ge> REJECT_AFTER_MESSAGES then (Inl CounterExhausted, tc, out)
      else case checked_add (next_send_counter tc) 1 of
             None \<Rightarrow> (Inl CounterExhausted, tc, out)
           | Some next \<Rightarrow>
               (case seal_with_key_into A (tc_send tc) channel counter plaintext out of
                  (r, out') \<Rightarrow> (r, tc\<lparr>next_send_counter := next\<rparr>, out')))"

definition tc_check_recv_counter :: "transport_cipher \<Rightarrow> u64 \<Rightarrow> (crypto_error, unit) result \<times> transport_cipher" where
  "tc_check_recv_counter tc counter =
     (if counter \<noteq> next_recv_counter tc then (Inl CounterMismatch, tc)
      else case checked_add (next_recv_counter tc) 1 of
             None \<Rightarrow> (Inl CounterExhausted, tc)
           | Some next \<Rightarrow> (Inr (), tc\<lparr>next_recv_counter := next\<rparr>))"

definition tc_open_next :: "aead_fns \<Rightarrow> transport_cipher \<Rightarrow> byte \<Rightarrow> bytes
    \<Rightarrow> (crypto_error, bytes) result \<times> transport_cipher" where
  "tc_open_next A tc channel frame =
     (case open_with_key A (tc_recv tc) channel frame of
        Inl e \<Rightarrow> (Inl e, tc)
      | Inr (counter, plaintext) \<Rightarrow>
          (case tc_check_recv_counter tc counter of
             (Inl e, tc') \<Rightarrow> (Inl e, tc')
           | (Inr _, tc') \<Rightarrow> (Inr plaintext, tc')))"

subsection \<open>Record protection\<close>

datatype record_protection = Aead transport_cipher | Clear

definition rp_aead :: "key_material \<Rightarrow> key_material \<Rightarrow> record_protection" where
  "rp_aead send recv = Aead (tc_new send recv)"

definition is_encrypted :: "record_protection \<Rightarrow> bool" where
  "is_encrypted rp = (case rp of Aead _ \<Rightarrow> True | Clear \<Rightarrow> False)"

definition sealed_len :: "record_protection \<Rightarrow> nat \<Rightarrow> nat" where
  "sealed_len rp plaintext_len =
     (case rp of Aead _ \<Rightarrow> TRANSPORT_HEADER_LEN + plaintext_len + TAG_LEN | Clear \<Rightarrow> plaintext_len)"

definition seal_next_into :: "aead_fns \<Rightarrow> record_protection \<Rightarrow> byte \<Rightarrow> bytes \<Rightarrow> bytes
    \<Rightarrow> (crypto_error, unit) result \<times> record_protection \<times> bytes" where
  "seal_next_into A rp channel plaintext out =
     (case rp of
        Aead cipher \<Rightarrow>
          (case tc_seal_next_into A cipher channel plaintext out of (r, c, out') \<Rightarrow> (r, Aead c, out'))
      | Clear \<Rightarrow> (Inr (), Clear, out @ plaintext))"

definition open_next :: "aead_fns \<Rightarrow> record_protection \<Rightarrow> byte \<Rightarrow> bytes
    \<Rightarrow> (crypto_error, bytes) result \<times> record_protection" where
  "open_next A rp channel frame =
     (case rp of
        Aead cipher \<Rightarrow> (case tc_open_next A cipher channel frame of (r, c) \<Rightarrow> (r, Aead c))
      | Clear \<Rightarrow> (Inr frame, Clear))"

section \<open>Hexadecimal round trip\<close>

lemma length_HEX [simp]: "length HEX = 16"
  by (simp add: HEX_def)

lemma HEX_graphic: "list_all graphic HEX"
  by (simp add: HEX_def ascii_bytes_def graphic_def)

lemma HEX_nibble: "n < 16 \<Longrightarrow> decode_hex_nibble (HEX ! n) = Inr (of_nat n)"
proof -
  have "map decode_hex_nibble HEX = map (Inr \<circ> of_nat) [0..<16]"
    by (simp add: HEX_def ascii_bytes_def decode_hex_nibble_def upt_rec)
  then show "n < 16 \<Longrightarrow> decode_hex_nibble (HEX ! n) = Inr (of_nat n)"
    by (metis (no_types, lifting) comp_apply length_HEX length_upt minus_nat.diff_0 nth_map nth_upt plus_nat.add_0)
qed

lemma nibble_bounds: "unat (drop_bit 4 (b :: byte)) < 16" "unat (b AND 0x0f) < 16"
proof -
  have "b AND 0x0f = take_bit 4 b" by (simp add: take_bit_eq_mask mask_numeral)
  then show "unat (b AND 0x0f) < 16" by (simp add: take_bit_eq_mod unat_mod)
  show "unat (drop_bit 4 b) < 16"
    using less_mult_imp_div_less [of "unat b" 16 16] by (simp add: drop_bit_eq_div unat_div)
qed

lemma nibbles_join: "push_bit 4 (drop_bit 4 b) OR (b AND 0x0f) = (b :: byte)"
proof -
  have "b AND 0x0f = take_bit 4 b" by (simp add: take_bit_eq_mask mask_numeral)
  then show ?thesis by (intro bit_word_eqI) (auto simp: bit_simps)
qed

lemma encode_hex_simps [simp]:
  "encode_hex [] = []"
  "encode_hex (b # bs) = HEX ! unat (drop_bit 4 b) # HEX ! unat (b AND 0x0f) # encode_hex bs"
  by (simp_all add: encode_hex_def)

lemma length_encode_hex [simp]: "length (encode_hex bs) = 2 * length bs"
  by (induction bs) simp_all

lemma encode_hex_graphic: "list_all graphic (encode_hex bs)"
proof -
  have "graphic (HEX ! n)" if "n < 16" for n using HEX_graphic that by (simp add: list_all_length)
  then show ?thesis by (induction bs) (simp_all add: nibble_bounds)
qed

lemma decode_hex_pairs_encode: "decode_hex_pairs (encode_hex bs) = Inr bs"
  by (induction bs) (simp_all add: HEX_nibble nibble_bounds nibbles_join)

text \<open>Every byte string is recovered from its hexadecimal text.\<close>

lemma decode_encode_hex [simp]: "decode_hex (encode_hex bs) = Inr bs"
proof -
  have "trim (encode_hex bs) = encode_hex bs"
    using encode_hex_graphic [of bs] by (intro trim_graphic) (auto simp: list_all_iff)
  then show ?thesis by (simp add: decode_hex_def decode_hex_pairs_encode)
qed


section \<open>Lanes\<close>

text \<open>A lane seals, or opens, one record after the other and stops at the first error.\<close>

fun seal_all :: "aead_fns \<Rightarrow> byte \<Rightarrow> record_protection \<Rightarrow> bytes list \<Rightarrow> (crypto_error, bytes list) result" where
  "seal_all A channel rp [] = Inr []"
| "seal_all A channel rp (p # ps) =
     (case seal_next_into A rp channel p [] of
        (r, rp', frame) \<Rightarrow> rbind r (\<lambda>_. rbind (seal_all A channel rp' ps) (\<lambda>fs. Inr (frame # fs))))"

fun open_all :: "aead_fns \<Rightarrow> byte \<Rightarrow> record_protection \<Rightarrow> bytes list \<Rightarrow> (crypto_error, bytes list) result" where
  "open_all A channel rp [] = Inr []"
| "open_all A channel rp (f # fs) =
     (case open_next A rp channel f of
        (r, rp') \<Rightarrow> rbind r (\<lambda>p. rbind (open_all A channel rp' fs) (\<lambda>ps. Inr (p # ps))))"

text \<open>The two ends of one direction: the receiver's key and next counter are the sender's.\<close>

fun mirrored :: "record_protection \<Rightarrow> record_protection \<Rightarrow> bool" where
  "mirrored (Aead s) (Aead r) \<longleftrightarrow> tc_recv r = tc_send s \<and> next_recv_counter r = next_send_counter s"
| "mirrored Clear Clear \<longleftrightarrow> True"
| "mirrored _ _ \<longleftrightarrow> False"

definition aead_correct :: "aead_fns \<Rightarrow> bool" where
  "aead_correct A \<longleftrightarrow> (\<forall>k n a p c t. aead_seal A k n a p = Some (c, t) \<longrightarrow>
     length c = length p \<and> length t = TAG_LEN \<and> aead_open A k n a (c @ t) = Some p)"

definition aead_exact :: "aead_fns \<Rightarrow> bool" where
  "aead_exact A \<longleftrightarrow> (\<forall>k n a b p. aead_open A k n a b = Some p \<longrightarrow>
     (\<exists>c t. aead_seal A k n a p = Some (c, t) \<and> b = c @ t))"

lemmas crypto_lens = KEY_LEN_def NONCE_LEN_def TAG_LEN_def TRANSPORT_HEADER_LEN_def
  X25519_PUBLIC_KEY_LEN_def ED25519_PUBLIC_KEY_LEN_def

lemma length_transport_header [simp]: "length (transport_header key counter) = 12"
  by (simp add: transport_header_def)

lemma transport_header_fields:
  "from_le (take 4 (transport_header key counter)) = key_id key"
  "from_le (subslice 4 12 (transport_header key counter)) = counter"
  by (simp_all add: transport_header_def subslice_def)

lemma transport_header_of_fields:
  assumes "length h = 12"
  shows "h = to_le 4 (from_le (take 4 h) :: u32) @ to_le 8 (from_le (subslice 4 12 h) :: u64)"
  using assms by (simp add: to_le_from_le_widths take_subslice)

lemma REJECT_AFTER_MESSAGES_value: "REJECT_AFTER_MESSAGES = 18446744073709551599"
  by (simp add: REJECT_AFTER_MESSAGES_def)

lemma reject_not_max: "counter < REJECT_AFTER_MESSAGES \<Longrightarrow> checked_add counter 1 = Some (counter + 1)"
  by (auto simp: checked_add_def REJECT_AFTER_MESSAGES_def word_less_nat_alt)

lemma seal_with_key_into_eq:
  "seal_with_key_into A key channel counter plaintext out =
     (if counter \<ge> REJECT_AFTER_MESSAGES then (Inl CounterExhausted, out)
      else if \<not> aead_key_ok A (key_bytes key) then (Inl InvalidKey, out)
      else case aead_seal A (key_bytes key) (nonce_from_counter counter)
                  (transport_aad channel (transport_header key counter)) plaintext of
             None \<Rightarrow> (Inl Cipher, out)
           | Some (c, t) \<Rightarrow> (Inr (), out @ transport_header key counter @ c @ t))"
  by (simp add: seal_with_key_into_def Let_def TRANSPORT_HEADER_LEN_def subslice_def split: option.splits)

lemma open_sealed:
  assumes "aead_correct A" and "seal_with_key_into A key channel counter p [] = (Inr (), frame)"
  shows "open_with_key A key channel frame = Inr (counter, p)"
  using assms
  by (auto simp: seal_with_key_into_eq open_with_key_def open_body_in_place_def aead_correct_def crypto_lens
      transport_header_fields split: if_splits option.splits)

lemma open_only_sealed:
  assumes "aead_exact A" and "open_with_key A key channel frame = Inr (counter, p)"
  shows "seal_with_key_into A key channel counter p [] = (Inr (), frame)"
proof -
  let ?h = "take 12 frame"
  from assms(2) have o: "12 + 16 \<le> length frame" "from_le (take 4 ?h) = key_id key"
    "from_le (subslice 4 12 ?h) = counter" "counter < REJECT_AFTER_MESSAGES"
    "aead_key_ok A (key_bytes key)"
    "aead_open A (key_bytes key) (nonce_from_counter counter) (transport_aad channel ?h) (drop 12 frame) = Some p"
    by (auto simp: open_with_key_def open_body_in_place_def Let_def crypto_lens rbind_Inr_iff
        split: if_splits)
  have h: "?h = transport_header key counter"
    using transport_header_of_fields [of ?h] o(1-3) by (simp add: transport_header_def)
  obtain c t where "aead_seal A (key_bytes key) (nonce_from_counter counter) (transport_aad channel ?h) p = Some (c, t)"
    "drop 12 frame = c @ t"
    using assms(1) o(6) unfolding aead_exact_def by blast
  then show ?thesis using o(4,5) h by (simp add: seal_with_key_into_eq not_le) (metis append_take_drop_id)
qed

lemma seal_counter_ok: "seal_with_key_into A key channel counter p out = (Inr (), out') \<Longrightarrow> counter < REJECT_AFTER_MESSAGES"
  by (auto simp: seal_with_key_into_eq split: if_splits)

text \<open>One record: the receiver accepts a frame exactly when it is the sender's next frame.\<close>

lemma record_step_exact:
  assumes "aead_correct A" and "aead_exact A" and "mirrored s r"
  shows "(\<exists>s'. seal_next_into A s channel p [] = (Inr (), s', frame)) \<longleftrightarrow>
         (\<exists>r'. open_next A r channel frame = (Inr p, r'))"
    and "seal_next_into A s channel p [] = (Inr (), s', frame) \<Longrightarrow>
         open_next A r channel frame = (Inr p, r') \<Longrightarrow> mirrored s' r'"
proof -
  have "(\<exists>s'. seal_next_into A s channel p [] = (Inr (), s', frame)) \<longleftrightarrow>
      (\<exists>r'. open_next A r channel frame = (Inr p, r'))" if s: "s = Aead sc" and r: "r = Aead rc" for sc rc
  proof
    assume "\<exists>s'. seal_next_into A s channel p [] = (Inr (), s', frame)"
    then have sl: "seal_with_key_into A (tc_send sc) channel (next_send_counter sc) p [] = (Inr (), frame)"
      by (auto simp: seal_next_into_def tc_seal_next_into_def Let_def s split: if_splits option.splits prod.splits)
    from open_sealed [OF assms(1) sl] assms(3) reject_not_max [OF seal_counter_ok [OF sl]]
    show "\<exists>r'. open_next A r channel frame = (Inr p, r')"
      by (simp add: open_next_def tc_open_next_def tc_check_recv_counter_def s r)
  next
    assume "\<exists>r'. open_next A r channel frame = (Inr p, r')"
    then have "open_with_key A (tc_recv rc) channel frame = Inr (next_recv_counter rc, p)"
      by (auto simp: open_next_def tc_open_next_def tc_check_recv_counter_def r
          split: sum.splits prod.splits if_splits option.splits)
    from open_only_sealed [OF assms(2) this] assms(3)
    have sl: "seal_with_key_into A (tc_send sc) channel (next_send_counter sc) p [] = (Inr (), frame)"
      by (simp add: s r)
    from sl seal_counter_ok [OF sl] reject_not_max [OF seal_counter_ok [OF sl]]
    show "\<exists>s'. seal_next_into A s channel p [] = (Inr (), s', frame)"
      by (simp add: seal_next_into_def tc_seal_next_into_def Let_def s not_le)
  qed
  with assms(3) show "(\<exists>s'. seal_next_into A s channel p [] = (Inr (), s', frame)) \<longleftrightarrow>
      (\<exists>r'. open_next A r channel frame = (Inr p, r'))"
    by (cases s; cases r) (auto simp: seal_next_into_def open_next_def)
  show "mirrored s' r'" if "seal_next_into A s channel p [] = (Inr (), s', frame)"
    "open_next A r channel frame = (Inr p, r')"
    using that assms(3)
    by (cases s; cases r)
      (auto simp: seal_next_into_def open_next_def tc_seal_next_into_def tc_open_next_def
        tc_check_recv_counter_def Let_def split: if_splits option.splits prod.splits sum.splits)
qed

lemma lane_iff:
  assumes "aead_correct A" and "aead_exact A" and "mirrored s r"
  shows "seal_all A channel s ps = Inr frames \<longleftrightarrow> open_all A channel r frames = Inr ps"
  using assms(3)
proof (induction ps arbitrary: s r frames)
  case Nil
  then show ?case by (cases frames) (auto simp: rbind_Inr_iff split: prod.splits)
next
  case (Cons p ps)
  note step = record_step_exact [OF assms(1,2) Cons.prems, of channel p]
  show ?case
  proof (cases frames)
    case Nil
    then show ?thesis by (auto simp: rbind_Inr_iff split: prod.splits)
  next
    case fs: (Cons f fs)
    have "seal_all A channel s (p # ps) = Inr frames \<longleftrightarrow>
        (\<exists>s'. seal_next_into A s channel p [] = (Inr (), s', f) \<and> seal_all A channel s' ps = Inr fs)"
      by (auto simp: fs rbind_Inr_iff split: prod.splits)
    also have "\<dots> \<longleftrightarrow> (\<exists>r'. open_next A r channel f = (Inr p, r') \<and> open_all A channel r' fs = Inr ps)"
    proof (intro iffI; elim exE conjE)
      fix s' assume s': "seal_next_into A s channel p [] = (Inr (), s', f)" "seal_all A channel s' ps = Inr fs"
      then obtain r' where r': "open_next A r channel f = (Inr p, r')" using step(1) [of f] by blast
      with s' Cons.IH [OF step(2) [OF s'(1) r'], of fs]
      show "\<exists>r'. open_next A r channel f = (Inr p, r') \<and> open_all A channel r' fs = Inr ps" by simp
    next
      fix r' assume r': "open_next A r channel f = (Inr p, r')" "open_all A channel r' fs = Inr ps"
      then obtain s' where s': "seal_next_into A s channel p [] = (Inr (), s', f)" using step(1) [of f] by blast
      with r' Cons.IH [OF step(2) [OF s' r'(1)], of fs]
      show "\<exists>s'. seal_next_into A s channel p [] = (Inr (), s', f) \<and> seal_all A channel s' ps = Inr fs" by simp
    qed
    also have "\<dots> \<longleftrightarrow> open_all A channel r frames = Inr (p # ps)"
      by (auto simp: fs rbind_Inr_iff split: prod.splits)
    finally show ?thesis .
  qed
qed

text \<open>
  C6. A protected lane delivers exactly the sender's stream. For two ends with mirrored keys and
  counters, opening a list of frames in order yields the plaintexts \<open>ps\<close> if and only if the
  frames are, one for one and in order, what the sender produces for \<open>ps\<close>. So no frame can be
  dropped, repeated, reordered or altered without an error, and no honest stream is refused.
\<close>

theorem record_lane_exact:
  assumes "aead_correct A" and "aead_exact A" and "mirrored s r"
  shows "seal_all A channel s ps = Inr frames \<longleftrightarrow> open_all A channel r frames = Inr ps"
  using lane_iff [OF assms] .

text \<open>A stand-in cipher with the shape of the real one, on which the hypotheses are satisfied.\<close>

definition demo_tag :: "bytes \<Rightarrow> bytes \<Rightarrow> bytes" where
  "demo_tag n a = take 16 (n @ a @ replicate 16 7)"

definition demo_aead :: aead_fns where
  "demo_aead =
     \<lparr>aead_key_ok = (\<lambda>k. length k = 2),
      aead_seal = (\<lambda>k n a p. Some (map (\<lambda>b. b XOR hd (k @ [0])) p, demo_tag n a)),
      aead_open = (\<lambda>k n a b.
        let m = length b - 16;
            p = map (\<lambda>b. b XOR hd (k @ [0])) (take m b)
        in if 16 \<le> length b \<and> drop m b = demo_tag n a then Some p else None)\<rparr>"

lemma demo_aead_ok: "aead_correct demo_aead" "aead_exact demo_aead"
proof -
  have tag: "length (demo_tag n a) = 16" for n a by (simp add: demo_tag_def)
  have twice: "map ((\<lambda>b. b XOR x) \<circ> (\<lambda>b. b XOR x)) bs = bs" for x :: byte and bs
    by (rule map_idI) (simp add: xor.assoc)
  show "aead_correct demo_aead"
    by (simp add: aead_correct_def demo_aead_def TAG_LEN_def twice tag)
  show "aead_exact demo_aead"
    by (auto simp: aead_exact_def demo_aead_def Let_def twice split: if_splits) (metis append_take_drop_id)
qed

theorem record_lane_exact_witness:
  "open_all demo_aead 1 (rp_aead \<lparr>key_id = 2, key_bytes = [0, 0]\<rparr> \<lparr>key_id = 1, key_bytes = [3, 0]\<rparr>)
     [[1, 0, 0, 0, 0, 0, 0, 0, 0, 0, 0, 0, 10 XOR 3] @
      [0, 0, 0, 0, 0, 0, 0, 0, 0, 0, 0, 0, 1, 1, 0, 0]] = Inr [[10]]"
  using record_lane_exact [OF demo_aead_ok, of
      "rp_aead \<lparr>key_id = 1, key_bytes = [3, 0]\<rparr> \<lparr>key_id = 2, key_bytes = [0, 0]\<rparr>"
      "rp_aead \<lparr>key_id = 2, key_bytes = [0, 0]\<rparr> \<lparr>key_id = 1, key_bytes = [3, 0]\<rparr>" 1 "[[10]]"
      "[[1, 0, 0, 0, 0, 0, 0, 0, 0, 0, 0, 0, 10 XOR 3] @ [0, 0, 0, 0, 0, 0, 0, 0, 0, 0, 0, 0, 1, 1, 0, 0]]"]
  by (simp add: rp_aead_def tc_new_def seal_next_into_def tc_seal_next_into_def seal_with_key_into_eq
      demo_aead_def demo_tag_def REJECT_AFTER_MESSAGES_value checked_add_def nonce_from_counter_def transport_header_def
      transport_aad_def to_le_def le_of_nat_numeral)

lemma nonce_from_counter_inj: "nonce_from_counter a = nonce_from_counter b \<Longrightarrow> a = b"
  by (simp add: nonce_from_counter_def to_le_inj_widths)

text \<open>
  The calls of one cipher over its life, on whatever channels and whether they succeed or not, and the
  nonce each of them may use. Two AEADs that agree at a nonce give the same answers to every call with it.
\<close>

fun seal_run :: "aead_fns \<Rightarrow> transport_cipher \<Rightarrow> (byte \<times> bytes) list \<Rightarrow> ((crypto_error, unit) result \<times> bytes) list" where
  "seal_run A tc [] = []"
| "seal_run A tc ((channel, p) # calls) =
     (case tc_seal_next_into A tc channel p [] of (r, tc', frame) \<Rightarrow> (r, frame) # seal_run A tc' calls)"

definition nonce_of_call :: "transport_cipher \<Rightarrow> nat \<Rightarrow> bytes option" where
  "nonce_of_call tc i =
     (let counter = unat (next_send_counter tc) + i in
      if counter < unat REJECT_AFTER_MESSAGES then Some (nonce_from_counter (of_nat counter)) else None)"

definition agree_at :: "bytes \<Rightarrow> bytes option \<Rightarrow> aead_fns \<Rightarrow> aead_fns \<Rightarrow> bool" where
  "agree_at key nonce A A' \<longleftrightarrow>
     aead_key_ok A' key = aead_key_ok A key \<and>
     (\<forall>n aad p. nonce = Some n \<longrightarrow> aead_seal A' key n aad p = aead_seal A key n aad p)"

lemma nonce_of_call_inj:
  assumes "nonce_of_call tc i = Some n" and "nonce_of_call tc j = Some n"
  shows "i = j"
proof -
  let ?c = "unat (next_send_counter tc)"
  have small: "unat (of_nat k :: u64) = k" if "k < unat REJECT_AFTER_MESSAGES" for k
    using that by (simp add: REJECT_AFTER_MESSAGES_value unat_of_nat)
  from assms have "?c + i < unat REJECT_AFTER_MESSAGES" "?c + j < unat REJECT_AFTER_MESSAGES"
    "nonce_from_counter (of_nat (?c + i)) = nonce_from_counter (of_nat (?c + j))"
    by (auto simp: nonce_of_call_def Let_def split: if_splits)
  then have "?c + i = ?c + j" using small nonce_from_counter_inj by metis
  then show ?thesis by simp
qed

lemma seal_call_agree:
  assumes "agree_at (key_bytes (tc_send tc)) (nonce_of_call tc 0) A A'"
  shows "tc_seal_next_into A' tc channel p [] = tc_seal_next_into A tc channel p []"
proof (cases "next_send_counter tc < REJECT_AFTER_MESSAGES")
  case True
  then have "nonce_of_call tc 0 = Some (nonce_from_counter (next_send_counter tc))"
    by (simp add: nonce_of_call_def word_less_nat_alt)
  with assms have "seal_with_key_into A' (tc_send tc) channel (next_send_counter tc) p [] =
      seal_with_key_into A (tc_send tc) channel (next_send_counter tc) p []"
    by (simp add: seal_with_key_into_eq agree_at_def)
  then show ?thesis by (simp only: tc_seal_next_into_def Let_def)
qed (simp add: tc_seal_next_into_def Let_def not_less)

lemma seal_call_next:
  assumes "tc_seal_next_into A tc channel p [] = (r, tc', frame)"
  shows "tc_send tc' = tc_send tc \<and> (nonce_of_call tc' i = nonce_of_call tc (Suc i)) \<and>
    (\<forall>A'. fst (snd (tc_seal_next_into A' tc channel p [])) = tc')"
proof (cases "next_send_counter tc < REJECT_AFTER_MESSAGES")
  case True
  have le: "\<not> REJECT_AFTER_MESSAGES \<le> next_send_counter tc" using True by simp
  have step: "fst (snd (tc_seal_next_into B tc channel p [])) = tc\<lparr>next_send_counter := next_send_counter tc + 1\<rparr>" for B
    by (simp add: tc_seal_next_into_def Let_def reject_not_max [OF True] le split: prod.split)
  have tc': "tc' = tc\<lparr>next_send_counter := next_send_counter tc + 1\<rparr>" using step [of A] assms by simp
  have "unat (next_send_counter tc + 1) = unat (next_send_counter tc) + 1"
    using checked_add_Some [OF reject_not_max [OF True]] by simp
  then show ?thesis using step by (simp add: tc' nonce_of_call_def Let_def)
next
  case False
  then have le: "REJECT_AFTER_MESSAGES \<le> next_send_counter tc" by simp
  have step: "tc_seal_next_into B tc channel p [] = (Inl CounterExhausted, tc, [])" for B
    by (simp add: tc_seal_next_into_def Let_def le)
  have none: "nonce_of_call tc k = None" for k using le by (simp add: nonce_of_call_def word_le_nat_alt)
  have "tc' = tc" using step [of A] assms by simp
  then show ?thesis using step none by simp
qed

lemma seal_run_agree:
  assumes "i < length calls" and "agree_at (key_bytes (tc_send tc)) (nonce_of_call tc i) A A'"
  shows "seal_run A' tc calls ! i = seal_run A tc calls ! i"
  using assms
proof (induction calls arbitrary: tc i)
  case (Cons call calls)
  obtain channel p where call: "call = (channel, p)" by (cases call)
  obtain r tc1 f where s: "tc_seal_next_into A tc channel p [] = (r, tc1, f)" by (metis prod_cases3)
  note next1 = seal_call_next [OF s]
  obtain r' f' where s': "tc_seal_next_into A' tc channel p [] = (r', tc1, f')"
    using next1 by (metis prod_cases3 fst_conv snd_conv)
  show ?case
  proof (cases i)
    case 0
    with Cons.prems(2) seal_call_agree s s' show ?thesis by (simp add: call)
  next
    case (Suc j)
    with Cons.prems next1 have "agree_at (key_bytes (tc_send tc1)) (nonce_of_call tc1 j) A A'" by simp
    with Cons.IH Cons.prems(1) Suc s s' show ?thesis by (simp add: call)
  qed
qed simp

text \<open>
  C0. The AEAD is never called twice with one nonce. Consider any series of calls of one cipher, on any
  channels, failed ones included. The outcome of a call depends on the AEAD under the cipher's key only at
  the nonce of that call: it is the same for every AEAD that agrees there. And no two calls have the same
  nonce; a call that finds the counter at its limit has none, and does not use the AEAD at all.
\<close>

theorem nonces_never_repeat:
  "(\<forall>i < length calls. \<forall>A'. agree_at (key_bytes (tc_send tc)) (nonce_of_call tc i) A A' \<longrightarrow>
      seal_run A' tc calls ! i = seal_run A tc calls ! i) \<and>
   (\<forall>i j n. nonce_of_call tc i = Some n \<and> nonce_of_call tc j = Some n \<longrightarrow> i = j)"
  using seal_run_agree nonce_of_call_inj by blast

text \<open>An AEAD that answers differently at the nonce of the first call gives the same second frame.\<close>

definition skewed_aead :: aead_fns where
  "skewed_aead = demo_aead\<lparr>aead_seal := (\<lambda>key n aad p.
     if n = nonce_from_counter 0 then None else aead_seal demo_aead key n aad p)\<rparr>"

theorem nonces_never_repeat_witness:
  "agree_at [0, 0] (Some (nonce_from_counter 1)) demo_aead skewed_aead \<and>
   seal_run skewed_aead (tc_new \<lparr>key_id = 9, key_bytes = [0, 0]\<rparr> \<lparr>key_id = 8, key_bytes = [0, 0]\<rparr>) [(3, [1]), (3, [2])] ! 1 =
   seal_run demo_aead (tc_new \<lparr>key_id = 9, key_bytes = [0, 0]\<rparr> \<lparr>key_id = 8, key_bytes = [0, 0]\<rparr>) [(3, [1]), (3, [2])] ! 1"
proof -
  let ?tc = "tc_new \<lparr>key_id = 9, key_bytes = [0, 0]\<rparr> \<lparr>key_id = 8, key_bytes = [0, 0]\<rparr>"
  have n: "nonce_of_call ?tc 1 = Some (nonce_from_counter 1)"
    by (simp add: nonce_of_call_def tc_new_def REJECT_AFTER_MESSAGES_value)
  have a: "agree_at [0, 0] (Some (nonce_from_counter 1)) demo_aead skewed_aead"
    by (auto simp: agree_at_def skewed_aead_def demo_aead_def dest: nonce_from_counter_inj)
  with nonces_never_repeat [of "[(3, [1]), (3, [2])]" ?tc demo_aead] n show ?thesis
    by (auto simp: tc_new_def simp del: seal_run.simps)
qed

text \<open>
  A record is sealed to its announced length, or not at all: on success exactly
  \<open>sealed_len\<close> bytes are appended to the output, and on every error the output is untouched.
\<close>

theorem seal_appends_sealed_len:
  assumes "aead_correct A" and "seal_next_into A rp channel p out = (r, rp', out')"
  shows "(r = Inr () \<longrightarrow> (\<exists>f. out' = out @ f \<and> length f = sealed_len rp (length p))) \<and>
         (r \<noteq> Inr () \<longrightarrow> out' = out)"
  using assms
  by (cases rp)
    (auto simp: seal_next_into_def tc_seal_next_into_def seal_with_key_into_eq sealed_len_def Let_def
      aead_correct_def crypto_lens split: if_splits option.splits prod.splits)

theorem seal_appends_sealed_len_witness:
  "\<exists>f. [1, 2, 5] = [1, 2] @ f \<and> length f = sealed_len Clear (length [5 :: byte])"
  using seal_appends_sealed_len [OF demo_aead_ok(1), of Clear 3 "[5]" "[1, 2]" "Inr ()" Clear "[1, 2, 5]"]
  by (simp add: seal_next_into_def)

end
