(* ===== verification/Handshake.thy ===== *)
theory Handshake
  imports Crypto
begin

text \<open>
  The signed handshake and the key schedule of \<open>crates/rpc/src/crypto.rs\<close>: the two hello
  messages, the scan-resistance MAC, the transcript, the derivation of \<open>SessionTransport\<close>, of
  device-link and video keys, dynamic bearer tokens and the HMAC proofs.

  The primitives of \<open>aws-lc-rs\<close> are the fields of the parameter \<open>F\<close>; a random draw is a
  value, \<open>None\<close> when the generator failed. An Ed25519 key pair is its seed.
\<close>

unbundle bit_operations_syntax

section \<open>Definitions\<close>

record crypto_fns = aead_fns +
  sha256 :: "bytes \<Rightarrow> bytes"
  hmac_sha256 :: "bytes \<Rightarrow> bytes \<Rightarrow> bytes"
  hkdf_extract :: "bytes \<Rightarrow> bytes \<Rightarrow> bytes"
  hkdf_expand :: "bytes \<Rightarrow> bytes \<Rightarrow> nat \<Rightarrow> bytes"
  x25519_public :: "bytes \<Rightarrow> bytes option"
  x25519_agree :: "bytes \<Rightarrow> bytes \<Rightarrow> bytes option"
  ed_public :: "bytes \<Rightarrow> bytes"
  ed_sign :: "bytes \<Rightarrow> bytes \<Rightarrow> bytes"
  ed_verify :: "bytes \<Rightarrow> bytes \<Rightarrow> bytes \<Rightarrow> bool"

record rng_draws =
  draw_private :: "bytes option"
  draw_nonce :: "bytes option"

definition PROTOCOL_VERSION :: u16 where "PROTOCOL_VERSION = 27"
definition HELLO_MAC_LEN :: nat where "HELLO_MAC_LEN = 16"
definition AUTH_PROOF_LEN :: nat where "AUTH_PROOF_LEN = 16"

definition LABEL_MAC1 :: bytes where
  "LABEL_MAC1 = ascii_bytes ''chatt mac1 v1''"

definition DYNAMIC_TOKEN_PREFIX :: bytes where
  "DYNAMIC_TOKEN_PREFIX = ascii_bytes ''tct1_''"

definition OPEN_PAIR_RECOVERY_PREFIX :: bytes where
  "OPEN_PAIR_RECOVERY_PREFIX = ascii_bytes ''tcr1_''"

record client_hello =
  ch_version :: u16
  ch_modes :: bytes
  client_nonce :: bytes
  client_ephemeral :: bytes
  mac1 :: bytes

record server_hello =
  sh_version :: u16
  sh_mode :: byte
  server_nonce :: bytes
  server_ephemeral :: bytes
  server_public_key :: bytes
  signature :: bytes

datatype transport_mode = Encrypted | Plaintext

definition wire_id :: "transport_mode \<Rightarrow> byte" where
  "wire_id m = (case m of Encrypted \<Rightarrow> 1 | Plaintext \<Rightarrow> 2)"

definition from_wire_id :: "byte \<Rightarrow> transport_mode option" where
  "from_wire_id i = (if i = 1 then Some Encrypted else if i = 2 then Some Plaintext else None)"

definition supported_wire_ids :: bytes where
  "supported_wire_ids = [wire_id Encrypted, wire_id Plaintext]"

record session_secrets =
  control_send :: key_material
  control_recv :: key_material
  media_send :: key_material
  media_recv :: key_material

record session_transport =
  st_mode :: transport_mode
  secrets :: session_secrets
  route_id :: u32
  bind_key :: bytes
  video_auth_key :: bytes

definition control_record :: "session_transport \<Rightarrow> record_protection" where
  "control_record st =
     (case st_mode st of
        Encrypted \<Rightarrow> rp_aead (control_send (secrets st)) (control_recv (secrets st))
      | Plaintext \<Rightarrow> Clear)"

subsection \<open>The scan-resistance MAC\<close>

definition client_hello_mac1 :: "'x crypto_fns_scheme \<Rightarrow> bytes \<Rightarrow> client_hello \<Rightarrow> bytes" where
  "client_hello_mac1 F server_pk hello =
     (let mac_key = sha256 F (LABEL_MAC1 @ server_pk) in
      take HELLO_MAC_LEN (hmac_sha256 F mac_key
        (LABEL_MAC1 @ to_le 2 (ch_version hello)
         @ to_le 4 (of_nat (length (ch_modes hello)) :: u32) @ ch_modes hello
         @ to_le 4 (of_nat (length (client_nonce hello)) :: u32) @ client_nonce hello
         @ to_le 4 (of_nat (length (client_ephemeral hello)) :: u32) @ client_ephemeral hello)))"

text \<open>The constant-time comparison loops: the differences of all byte pairs are collected.\<close>

definition ct_diff :: "bytes \<Rightarrow> bytes \<Rightarrow> byte" where
  "ct_diff xs ys = fold (\<lambda>(a, b) diff. diff OR (a XOR b)) (zip xs ys) 0"

definition verify_client_hello_mac1 :: "'x crypto_fns_scheme \<Rightarrow> bytes \<Rightarrow> client_hello \<Rightarrow> bool" where
  "verify_client_hello_mac1 F server_pk hello =
     (ct_diff (client_hello_mac1 F server_pk hello) (mac1 hello) = 0)"

definition generate_client_hello ::
  "'x crypto_fns_scheme \<Rightarrow> rng_draws \<Rightarrow> bytes option \<Rightarrow> (crypto_error, bytes \<times> client_hello) result" where
  "generate_client_hello F rng server_pk =
     rbind (ok_or Random (draw_private rng)) (\<lambda>private.
     rbind (ok_or Random (x25519_public F private)) (\<lambda>public.
     rbind (ok_or Random (draw_nonce rng)) (\<lambda>nonce.
       let hello = \<lparr>ch_version = PROTOCOL_VERSION, ch_modes = supported_wire_ids, client_nonce = nonce,
                    client_ephemeral = public, mac1 = replicate HELLO_MAC_LEN 0\<rparr>;
           hello = (case server_pk of
                      None \<Rightarrow> hello
                    | Some pk \<Rightarrow> hello\<lparr>mac1 := client_hello_mac1 F pk hello\<rparr>)
       in Inr (private, hello))))"

subsection \<open>Validation and transcripts\<close>

definition validate_client_hello :: "client_hello \<Rightarrow> (crypto_error, unit) result" where
  "validate_client_hello hello =
     (if ch_version hello \<noteq> PROTOCOL_VERSION then Inl (UnsupportedVersion (ch_version hello))
      else if length (client_nonce hello) \<noteq> NONCE_LEN
           \<or> length (client_ephemeral hello) \<noteq> X25519_PUBLIC_KEY_LEN
           \<or> ch_modes hello = []
      then Inl InvalidHandshake
      else Inr ())"

definition validate_server_hello :: "server_hello \<Rightarrow> (crypto_error, unit) result" where
  "validate_server_hello hello =
     (if sh_version hello \<noteq> PROTOCOL_VERSION then Inl (UnsupportedVersion (sh_version hello))
      else if from_wire_id (sh_mode hello) = None
           \<or> length (server_nonce hello) \<noteq> NONCE_LEN
           \<or> length (server_ephemeral hello) \<noteq> X25519_PUBLIC_KEY_LEN
           \<or> length (server_public_key hello) \<noteq> ED25519_PUBLIC_KEY_LEN
           \<or> signature hello = []
      then Inl InvalidHandshake
      else Inr ())"

definition resolve_server_public_key :: "server_hello \<Rightarrow> bytes option \<Rightarrow> (crypto_error, bytes) result" where
  "resolve_server_public_key hello pinned =
     (let presented = server_public_key hello in
      if length presented \<noteq> ED25519_PUBLIC_KEY_LEN then Inl InvalidHandshake
      else case pinned of
             Some p \<Rightarrow> if p \<noteq> presented then Inl InvalidSignature else Inr presented
           | None \<Rightarrow> Inr presented)"

definition server_transcript :: "client_hello \<Rightarrow> u16 \<Rightarrow> byte \<Rightarrow> bytes \<Rightarrow> bytes \<Rightarrow> bytes \<Rightarrow> bytes" where
  "server_transcript hello server_version mode nonce ephemeral public_key =
     ascii_bytes ''chatt server hello v3'' @ to_le 2 (ch_version hello) @ to_le 2 server_version
     @ [mode] @ client_nonce hello @ client_ephemeral hello @ nonce @ ephemeral @ public_key"

definition full_transcript ::
  "'x crypto_fns_scheme \<Rightarrow> client_hello \<Rightarrow> server_hello \<Rightarrow> bytes \<Rightarrow> (crypto_error, bytes) result" where
  "full_transcript F ch sh public_key =
     rbind (validate_client_hello ch) (\<lambda>_.
     rbind (validate_server_hello sh) (\<lambda>_.
       Inr (sha256 F (server_transcript ch (sh_version sh) (sh_mode sh) (server_nonce sh)
                        (server_ephemeral sh) public_key @ signature sh))))"

subsection \<open>Key schedule\<close>

datatype role = Client | Server

definition expand_key :: "'x crypto_fns_scheme \<Rightarrow> bytes \<Rightarrow> string \<Rightarrow> bytes" where
  "expand_key F prk label = hkdf_expand F prk (ascii_bytes label) KEY_LEN"

definition id_at :: "bytes \<Rightarrow> nat \<Rightarrow> u32" where
  "id_at ids i = max (from_le (subslice i (i + 4) ids)) 1"

definition derive_session_transport ::
  "'x crypto_fns_scheme \<Rightarrow> role \<Rightarrow> transport_mode \<Rightarrow> bytes \<Rightarrow> bytes \<Rightarrow> session_transport" where
  "derive_session_transport F role mode shared transcript_hash =
     (let prk = hkdf_extract F transcript_hash shared;
          ids = expand_key F prk ''chatt transport key ids v1'';
          client_control = \<lparr>key_id = id_at ids 0, key_bytes = expand_key F prk ''chatt client control key v1''\<rparr>;
          server_control = \<lparr>key_id = id_at ids 4, key_bytes = expand_key F prk ''chatt server control key v1''\<rparr>;
          client_media = \<lparr>key_id = id_at ids 8, key_bytes = expand_key F prk ''chatt client media key v1''\<rparr>;
          server_media = \<lparr>key_id = id_at ids 12, key_bytes = expand_key F prk ''chatt server media key v1''\<rparr>;
          secrets = (case role of
              Client \<Rightarrow> \<lparr>control_send = client_control, control_recv = server_control,
                         media_send = client_media, media_recv = server_media\<rparr>
            | Server \<Rightarrow> \<lparr>control_send = server_control, control_recv = client_control,
                         media_send = server_media, media_recv = client_media\<rparr>)
      in \<lparr>st_mode = mode, secrets = secrets,
          route_id = id_at (expand_key F prk ''chatt media route id v1'') 0,
          bind_key = expand_key F prk ''chatt media bind key v1'',
          video_auth_key = expand_key F prk ''chatt video auth key v1''\<rparr>)"

record device_link_keys =
  redemption_secret :: bytes
  enrollment_key :: bytes

definition derive_device_link_keys ::
  "'x crypto_fns_scheme \<Rightarrow> bytes \<Rightarrow> bytes \<Rightarrow> (crypto_error, device_link_keys) result" where
  "derive_device_link_keys F pairing_secret server_pk =
     (if length pairing_secret \<noteq> KEY_LEN \<or> length server_pk \<noteq> ED25519_PUBLIC_KEY_LEN then Inl InvalidKey
      else
        let prk = hkdf_extract F server_pk pairing_secret in
        Inr \<lparr>redemption_secret = expand_key F prk ''chatt device-link redemption v3'',
             enrollment_key = expand_key F prk ''chatt device-link enrollment key v3''\<rparr>)"

definition derive_video_keys :: "'x crypto_fns_scheme \<Rightarrow> bytes \<Rightarrow> role \<Rightarrow> key_material \<times> key_material" where
  "derive_video_keys F secret role =
     (let prk = hkdf_extract F (ascii_bytes ''chatt video keys v1'') secret;
          ids = expand_key F prk ''chatt video key ids v1'';
          up = \<lparr>key_id = id_at ids 0, key_bytes = expand_key F prk ''chatt video up key v1''\<rparr>;
          down = \<lparr>key_id = id_at ids 4, key_bytes = expand_key F prk ''chatt video down key v1''\<rparr>
      in case role of Client \<Rightarrow> (up, down) | Server \<Rightarrow> (down, up))"

subsection \<open>The two sides of the handshake\<close>

definition respond_to_client_hello ::
  "'x crypto_fns_scheme \<Rightarrow> rng_draws \<Rightarrow> bytes \<Rightarrow> client_hello \<Rightarrow> transport_mode
     \<Rightarrow> (crypto_error, server_hello \<times> session_transport) result" where
  "respond_to_client_hello F rng key_pair ch mode =
     rbind (validate_client_hello ch) (\<lambda>_.
     if wire_id mode \<notin> set (ch_modes ch) then Inl InvalidHandshake
     else
     rbind (ok_or Random (draw_private rng)) (\<lambda>private.
     rbind (ok_or Random (x25519_public F private)) (\<lambda>public.
     rbind (ok_or Random (draw_nonce rng)) (\<lambda>nonce.
     rbind (ok_or InvalidHandshake (x25519_agree F private (client_ephemeral ch))) (\<lambda>shared.
       let unsigned = server_transcript ch PROTOCOL_VERSION (wire_id mode) nonce public (ed_public F key_pair);
           sh = \<lparr>sh_version = PROTOCOL_VERSION, sh_mode = wire_id mode, server_nonce = nonce,
                 server_ephemeral = public, server_public_key = ed_public F key_pair,
                 signature = ed_sign F key_pair unsigned\<rparr>
       in rbind (full_transcript F ch sh (ed_public F key_pair)) (\<lambda>transcript.
            Inr (sh, derive_session_transport F Server mode shared transcript)))))))"

definition complete_client_transport_handshake ::
  "'x crypto_fns_scheme \<Rightarrow> bytes \<times> client_hello \<Rightarrow> server_hello \<Rightarrow> bytes option
     \<Rightarrow> (crypto_error, session_transport \<times> bytes) result" where
  "complete_client_transport_handshake F handshake sh pinned =
     (case handshake of (private, hello) \<Rightarrow>
     rbind (validate_server_hello sh) (\<lambda>_.
     rbind (ok_or InvalidHandshake (from_wire_id (sh_mode sh))) (\<lambda>mode.
     if sh_mode sh \<notin> set (ch_modes hello) then Inl InvalidHandshake
     else
     rbind (resolve_server_public_key sh pinned) (\<lambda>trusted.
     rbind (full_transcript F hello sh trusted) (\<lambda>transcript.
     if \<not> ed_verify F trusted (server_transcript hello (sh_version sh) (sh_mode sh) (server_nonce sh)
                                (server_ephemeral sh) trusted) (signature sh)
     then Inl InvalidSignature
     else
     rbind (ok_or InvalidHandshake (x25519_agree F private (server_ephemeral sh))) (\<lambda>shared.
       Inr (derive_session_transport F Client mode shared transcript, trusted)))))))"

subsection \<open>HMAC proofs and bearer tokens\<close>

definition stun_integrity :: "'x crypto_fns_scheme \<Rightarrow> bytes \<Rightarrow> bytes \<Rightarrow> bytes" where
  "stun_integrity F key message_prefix = hmac_sha256 F key message_prefix"

definition stun_verify :: "'x crypto_fns_scheme \<Rightarrow> bytes \<Rightarrow> bytes \<Rightarrow> bytes \<Rightarrow> bool" where
  "stun_verify F key message_prefix tag = (hmac_sha256 F key message_prefix = tag)"

definition auth_proof :: "'x crypto_fns_scheme \<Rightarrow> bytes \<Rightarrow> bytes \<Rightarrow> bytes" where
  "auth_proof F key message = take AUTH_PROOF_LEN (stun_integrity F key message)"

definition auth_proof_verify :: "'x crypto_fns_scheme \<Rightarrow> bytes \<Rightarrow> bytes \<Rightarrow> bytes \<Rightarrow> bool" where
  "auth_proof_verify F key message tag =
     (if length tag \<noteq> AUTH_PROOF_LEN then False else ct_diff (auth_proof F key message) tag = 0)"

record dynamic_token_claims =
  claim_user_id :: u64
  password_epoch :: u32

definition dynamic_token_key :: "'x crypto_fns_scheme \<Rightarrow> bytes \<Rightarrow> (crypto_error, key_material) result" where
  "dynamic_token_key F seed_hex =
     rbind (decode_fixed_hex KEY_LEN seed_hex) (\<lambda>seed.
       let prk = hkdf_extract F (ascii_bytes ''chatt dynamic token salt v1'') seed in
       Inr \<lparr>key_id = 0, key_bytes = expand_key F prk ''chatt dynamic token key v1''\<rparr>)"

text \<open>
  The binary form of the claims is made by the \<open>jsony\<close> package: \<open>to_binary\<close> and \<open>from_binary\<close>
  are parameters. The last argument is the random counter, \<open>None\<close> when the generator failed.
\<close>

definition issue_dynamic_token ::
  "'x crypto_fns_scheme \<Rightarrow> (dynamic_token_claims \<Rightarrow> bytes) \<Rightarrow> bytes \<Rightarrow> dynamic_token_claims \<Rightarrow> bytes option
     \<Rightarrow> (crypto_error, bytes) result" where
  "issue_dynamic_token F to_binary seed_hex claims counter_draw =
     rbind (dynamic_token_key F seed_hex) (\<lambda>key.
     rbind (ok_or Random counter_draw) (\<lambda>counter_bytes.
       let counter = from_le counter_bytes AND 0x0fffffffffffffff in
     rbind (seal_with_key (aead_fns.truncate F) key TOKEN_CHANNEL counter (to_binary claims)) (\<lambda>frame.
       Inr (DYNAMIC_TOKEN_PREFIX @ encode_hex frame))))"

definition verify_dynamic_token ::
  "'x crypto_fns_scheme \<Rightarrow> (bytes \<Rightarrow> dynamic_token_claims option) \<Rightarrow> bytes \<Rightarrow> bytes
     \<Rightarrow> (crypto_error, dynamic_token_claims) result" where
  "verify_dynamic_token F from_binary seed_hex token =
     rbind (ok_or InvalidEncoding (strip_prefix DYNAMIC_TOKEN_PREFIX token)) (\<lambda>hex.
     rbind (decode_hex hex) (\<lambda>frame.
     rbind (dynamic_token_key F seed_hex) (\<lambda>key.
     rbind (open_with_key (aead_fns.truncate F) key TOKEN_CHANNEL frame) (\<lambda>(counter, plaintext).
       ok_or InvalidEncoding (from_binary plaintext)))))"

definition dynamic_user_id_from_pairing_secret ::
  "'x crypto_fns_scheme \<Rightarrow> bytes \<Rightarrow> bytes \<Rightarrow> (crypto_error, u64) result" where
  "dynamic_user_id_from_pairing_secret F seed_hex secret =
     rbind (decode_fixed_hex KEY_LEN seed_hex) (\<lambda>seed.
       let tag = hmac_sha256 F seed (ascii_bytes ''chatt open-pair recovery id v1'' @ secret);
           id = (from_le (take 8 tag) :: u64)
       in Inr (id OR push_bit 63 1))"

definition dynamic_user_id_from_recovery_token ::
  "'x crypto_fns_scheme \<Rightarrow> bytes \<Rightarrow> bytes \<Rightarrow> (crypto_error, u64) result" where
  "dynamic_user_id_from_recovery_token F seed_hex token =
     rbind (ok_or InvalidEncoding (strip_prefix OPEN_PAIR_RECOVERY_PREFIX token)) (\<lambda>secret_hex.
     rbind (decode_hex secret_hex) (\<lambda>secret.
       if length secret < KEY_LEN then Inl InvalidEncoding
       else dynamic_user_id_from_pairing_secret F seed_hex secret))"

section \<open>Comparison in constant time is equality\<close>

lemma xor_zero_iff: "(a :: byte) XOR b = 0 \<longleftrightarrow> a = b"
  by (auto simp: bit_eq_iff bit_xor_iff)

lemma ct_diff_fold:
  "length xs = length ys \<Longrightarrow>
     fold (\<lambda>(a, b) diff. diff OR (a XOR b)) (zip xs ys) d = (0 :: byte) \<longleftrightarrow> d = 0 \<and> xs = ys"
proof (induction xs ys arbitrary: d rule: list_induct2)
  case Nil
  then show ?case by simp
next
  case (Cons x xs y ys)
  then show ?case by (simp add: or_eq_0_iff xor_zero_iff)
qed

lemma ct_diff_eq: "length xs = length ys \<Longrightarrow> ct_diff xs ys = 0 \<longleftrightarrow> xs = ys"
  by (simp add: ct_diff_def ct_diff_fold)

text \<open>The documented contracts of the primitives.\<close>

definition dh_agrees :: "crypto_fns \<Rightarrow> bool" where
  "dh_agrees F \<longleftrightarrow> (\<forall>a b pa pb. x25519_public F a = Some pa \<longrightarrow> x25519_public F b = Some pb \<longrightarrow>
     length pa = X25519_PUBLIC_KEY_LEN \<and> x25519_agree F a pb = x25519_agree F b pa)"

definition signatures_verify :: "crypto_fns \<Rightarrow> bool" where
  "signatures_verify F \<longleftrightarrow> (\<forall>kp m. ed_verify F (ed_public F kp) m (ed_sign F kp m) \<and>
     length (ed_public F kp) = ED25519_PUBLIC_KEY_LEN \<and> ed_sign F kp m \<noteq> [])"

definition hmac_is_32 :: "crypto_fns \<Rightarrow> bool" where
  "hmac_is_32 F \<longleftrightarrow> (\<forall>k m. length (hmac_sha256 F k m) = 32)"

lemma length_mac1: "hmac_is_32 F \<Longrightarrow> length (client_hello_mac1 F pk hello) = HELLO_MAC_LEN"
  by (simp add: hmac_is_32_def client_hello_mac1_def HELLO_MAC_LEN_def Let_def)

section \<open>Transcripts\<close>

lemma validate_client_hello_ok:
  "validate_client_hello h = Inr u \<longleftrightarrow> ch_version h = PROTOCOL_VERSION \<and> length (client_nonce h) = 32 \<and>
     length (client_ephemeral h) = 32 \<and> ch_modes h \<noteq> []"
  by (auto simp: validate_client_hello_def crypto_lens)

lemma validate_server_hello_ok:
  "validate_server_hello h = Inr u \<longleftrightarrow> sh_version h = PROTOCOL_VERSION \<and> from_wire_id (sh_mode h) \<noteq> None \<and>
     length (server_nonce h) = 32 \<and> length (server_ephemeral h) = 32 \<and>
     length (server_public_key h) = 32 \<and> signature h \<noteq> []"
  by (auto simp: validate_server_hello_def crypto_lens)

lemma wire_id_inverse [simp]: "from_wire_id (wire_id m) = Some m"
  by (cases m) (simp_all add: from_wire_id_def wire_id_def)

lemma from_wire_id_Some: "from_wire_id i = Some m \<longleftrightarrow> i = wire_id m"
  by (cases m) (auto simp: from_wire_id_def wire_id_def split: if_splits)

text \<open>
  C8. The signed transcript binds the session. Two transcripts of valid hello messages are
  equal only if client nonce and ephemeral key, selected mode, server nonce, server ephemeral
  and server identity are all equal: a signature for one session fits no other.
\<close>

theorem transcript_binds:
  assumes "validate_client_hello h = Inr ()" and "validate_client_hello h' = Inr ()"
    and "length n = NONCE_LEN" and "length n' = NONCE_LEN"
    and "length e = X25519_PUBLIC_KEY_LEN" and "length e' = X25519_PUBLIC_KEY_LEN"
    and "server_transcript h v m n e pk = server_transcript h' v' m' n' e' pk'"
  shows "client_nonce h = client_nonce h' \<and> client_ephemeral h = client_ephemeral h' \<and>
         v = v' \<and> m = m' \<and> n = n' \<and> e = e' \<and> pk = pk'"
  using assms
  by (auto simp: server_transcript_def validate_client_hello_ok crypto_lens to_le_inj_widths)

definition demo_hello :: client_hello where
  "demo_hello = \<lparr>ch_version = PROTOCOL_VERSION, ch_modes = [1], client_nonce = replicate 32 1,
     client_ephemeral = replicate 32 2, mac1 = replicate 16 0\<rparr>"

theorem transcript_binds_witness:
  "client_nonce demo_hello = client_nonce (demo_hello\<lparr>ch_modes := [2]\<rparr>) \<and> (27 :: u16) = 27"
  using transcript_binds [of demo_hello "demo_hello\<lparr>ch_modes := [2]\<rparr>" "replicate 32 3" "replicate 32 3"
      "replicate 32 4" "replicate 32 4" 27 1 "[]" 27 1 "[]"]
  by (simp add: demo_hello_def validate_client_hello_ok crypto_lens server_transcript_def)

section \<open>Both ends derive the same session\<close>

definition mirror_transport :: "session_transport \<Rightarrow> session_transport" where
  "mirror_transport st = st\<lparr>secrets :=
     \<lparr>control_send = control_recv (secrets st), control_recv = control_send (secrets st),
      media_send = media_recv (secrets st), media_recv = media_send (secrets st)\<rparr>\<rparr>"

lemma derive_mirror:
  "derive_session_transport F Client mode shared t = mirror_transport (derive_session_transport F Server mode shared t)"
  by (simp add: derive_session_transport_def mirror_transport_def Let_def)

lemma respond_Inr:
  "respond_to_client_hello F rng kp ch mode = Inr (sh, st) \<longleftrightarrow>
     (\<exists>private public nonce shared transcript.
        validate_client_hello ch = Inr () \<and> wire_id mode \<in> set (ch_modes ch) \<and>
        draw_private rng = Some private \<and> x25519_public F private = Some public \<and>
        draw_nonce rng = Some nonce \<and> x25519_agree F private (client_ephemeral ch) = Some shared \<and>
        sh = \<lparr>sh_version = PROTOCOL_VERSION, sh_mode = wire_id mode, server_nonce = nonce,
              server_ephemeral = public, server_public_key = ed_public F kp,
              signature = ed_sign F kp (server_transcript ch PROTOCOL_VERSION (wire_id mode) nonce public (ed_public F kp))\<rparr> \<and>
        full_transcript F ch sh (ed_public F kp) = Inr transcript \<and>
        st = derive_session_transport F Server mode shared transcript)"
  by (auto simp: respond_to_client_hello_def rbind_Inr_iff Let_def)

lemma generate_Inr:
  "generate_client_hello F rng pk = Inr (private, hello) \<Longrightarrow>
     draw_private rng = Some private \<and> x25519_public F private = Some (client_ephemeral hello) \<and>
     draw_nonce rng = Some (client_nonce hello) \<and> ch_version hello = PROTOCOL_VERSION \<and>
     ch_modes hello = supported_wire_ids \<and>
     mac1 hello = (case pk of None \<Rightarrow> replicate HELLO_MAC_LEN 0 | Some k \<Rightarrow> client_hello_mac1 F k hello)"
  by (auto simp: generate_client_hello_def rbind_Inr_iff Let_def split: option.splits)
    (simp add: client_hello_mac1_def)

lemma handshake_completes:
  assumes "dh_agrees F" and "signatures_verify F"
    and gen: "generate_client_hello F rng_c pk = Inr (private, hello)"
    and resp: "respond_to_client_hello F rng_s kp hello mode = Inr (sh, st)"
    and pin: "pinned = None \<or> pinned = Some (ed_public F kp)"
  shows "complete_client_transport_handshake F (private, hello) sh pinned =
         Inr (mirror_transport st, ed_public F kp)"
proof -
  from resp obtain sp spub nonce shared transcript where r:
    "validate_client_hello hello = Inr ()" "wire_id mode \<in> set (ch_modes hello)"
    "x25519_public F sp = Some spub" "x25519_agree F sp (client_ephemeral hello) = Some shared"
    "sh = \<lparr>sh_version = PROTOCOL_VERSION, sh_mode = wire_id mode, server_nonce = nonce,
              server_ephemeral = spub, server_public_key = ed_public F kp,
              signature = ed_sign F kp (server_transcript hello PROTOCOL_VERSION (wire_id mode) nonce spub (ed_public F kp))\<rparr>"
    "full_transcript F hello sh (ed_public F kp) = Inr transcript"
    "st = derive_session_transport F Server mode shared transcript"
    unfolding respond_Inr by blast
  have "x25519_agree F private spub = Some shared"
    using assms(1) generate_Inr [OF gen] r(3,4) by (auto simp: dh_agrees_def)
  moreover have "validate_server_hello sh = Inr ()"
    using r(6) by (auto simp: full_transcript_def rbind_Inr_iff)
  moreover have "resolve_server_public_key sh pinned = Inr (ed_public F kp)"
    using pin assms(2) by (auto simp: resolve_server_public_key_def r(5) signatures_verify_def)
  moreover have "ed_verify F (ed_public F kp) (server_transcript hello (sh_version sh) (sh_mode sh) (server_nonce sh)
      (server_ephemeral sh) (ed_public F kp)) (signature sh)"
    using assms(2) by (simp add: r(5) signatures_verify_def)
  ultimately show ?thesis
    using r(2,6,7) by (simp add: complete_client_transport_handshake_def r(5) derive_mirror)
qed

lemma control_record_mirrored:
  "mirrored (control_record (mirror_transport st)) (control_record st)"
  "mirrored (control_record st) (control_record (mirror_transport st))"
  by (cases "st_mode st"; simp add: control_record_def mirror_transport_def rp_aead_def tc_new_def)+

text \<open>
  C9. The two ends of a handshake agree. Whenever the server answered a generated hello, the
  client completes with that answer (pinning the server's key or trusting it on first use) and
  both hold the same mode, route id, bind key and video key, and crossed send and receive keys
  for the control and the media lanes.
\<close>

theorem handshake_agrees:
  assumes "dh_agrees F" and "signatures_verify F"
    and "generate_client_hello F rng_c pk = Inr (private, hello)"
    and "respond_to_client_hello F rng_s kp hello mode = Inr (sh, st)"
    and "pinned = None \<or> pinned = Some (ed_public F kp)"
  shows "\<exists>ct. complete_client_transport_handshake F (private, hello) sh pinned = Inr (ct, ed_public F kp) \<and>
     st_mode ct = mode \<and> st_mode st = mode \<and> route_id ct = route_id st \<and> bind_key ct = bind_key st \<and>
     video_auth_key ct = video_auth_key st \<and>
     mirrored (control_record ct) (control_record st) \<and> mirrored (control_record st) (control_record ct) \<and>
     media_send (secrets ct) = media_recv (secrets st) \<and> media_recv (secrets ct) = media_send (secrets st)"
proof -
  from assms(4) have "st_mode st = mode"
    by (auto simp: respond_Inr derive_session_transport_def Let_def)
  with handshake_completes [OF assms] show ?thesis
    by (intro exI [of _ "mirror_transport st"])
      (simp add: control_record_mirrored, simp add: mirror_transport_def)
qed

definition pad32 :: "bytes \<Rightarrow> bytes" where
  "pad32 bs = take 32 (bs @ replicate 32 0)"

text \<open>Stand-in primitives that satisfy the documented contracts.\<close>

definition demo_fns :: crypto_fns where
  "demo_fns =
     \<lparr>aead_key_ok = (\<lambda>k. length k = 32), aead_seal = aead_seal demo_aead, aead_open = aead_open demo_aead,
      sha256 = pad32, hmac_sha256 = (\<lambda>k m. pad32 (k @ m)), hkdf_extract = (\<lambda>s i. i @ s),
      hkdf_expand = (\<lambda>p l n. take n (l @ p @ replicate n 0)),
      x25519_public = (\<lambda>a. Some (pad32 a)),
      x25519_agree = (\<lambda>a p. Some (map (\<lambda>(x, y). x XOR y) (zip (pad32 a) p))),
      ed_public = pad32, ed_sign = (\<lambda>kp m. pad32 kp), ed_verify = (\<lambda>pk m s. s = pk)\<rparr>"

lemma length_pad32 [simp]: "length (pad32 bs) = 32"
  by (simp add: pad32_def)

lemma demo_fns_ok: "dh_agrees demo_fns" "signatures_verify demo_fns" "hmac_is_32 demo_fns"
  "aead_correct (aead_fns.truncate demo_fns)" "aead_exact (aead_fns.truncate demo_fns)"
proof -
  have swap: "map (\<lambda>(x, y). x XOR y) (zip xs ys) = map (\<lambda>(x, y). x XOR y) (zip ys xs)" for xs ys :: bytes
    by (induction xs ys rule: list_induct2') (simp_all add: xor.commute)
  show "dh_agrees demo_fns"
    using swap by (simp add: dh_agrees_def demo_fns_def crypto_lens)
  have "pad32 kp \<noteq> []" for kp by (metis length_0_conv length_pad32 zero_neq_numeral)
  then show "signatures_verify demo_fns" by (simp add: signatures_verify_def demo_fns_def crypto_lens)
  show "hmac_is_32 demo_fns" by (simp add: hmac_is_32_def demo_fns_def)
  show "aead_correct (aead_fns.truncate demo_fns)" "aead_exact (aead_fns.truncate demo_fns)"
    using demo_aead_ok
    by (simp_all add: aead_correct_def aead_exact_def demo_fns_def aead_fns.defs)
qed

definition demo_rng :: "byte \<Rightarrow> rng_draws" where
  "demo_rng x = \<lparr>draw_private = Some [x], draw_nonce = Some (pad32 [x])\<rparr>"

definition demo_client :: "bytes \<times> client_hello" where
  "demo_client = ([5], \<lparr>ch_version = PROTOCOL_VERSION, ch_modes = supported_wire_ids,
     client_nonce = pad32 [5], client_ephemeral = pad32 [5], mac1 = replicate HELLO_MAC_LEN 0\<rparr>)"

lemma demo_generate: "generate_client_hello demo_fns (demo_rng 5) None = Inr demo_client"
  by (simp add: generate_client_hello_def demo_rng_def demo_fns_def demo_client_def)

lemma demo_respond: "\<exists>sh st. respond_to_client_hello demo_fns (demo_rng 6) [7] (snd demo_client) Encrypted = Inr (sh, st)"
proof -
  have "pad32 [7] \<noteq> []" by (metis length_0_conv length_pad32 zero_neq_numeral)
  then show ?thesis
    by (simp add: respond_to_client_hello_def full_transcript_def demo_fns_def demo_rng_def demo_client_def
        validate_client_hello_def validate_server_hello_def supported_wire_ids_def crypto_lens)
qed

theorem handshake_agrees_witness:
  "\<exists>sh st ct. respond_to_client_hello demo_fns (demo_rng 6) [7] (snd demo_client) Encrypted = Inr (sh, st) \<and>
     complete_client_transport_handshake demo_fns demo_client sh None = Inr (ct, pad32 [7]) \<and>
     mirrored (control_record ct) (control_record st)"
proof -
  obtain sh st where r: "respond_to_client_hello demo_fns (demo_rng 6) [7] (snd demo_client) Encrypted = Inr (sh, st)"
    using demo_respond by blast
  with handshake_agrees [OF demo_fns_ok(1,2), of "demo_rng 5" None "fst demo_client" "snd demo_client"
      "demo_rng 6" "[7]" Encrypted sh st None] demo_generate
  show ?thesis by (auto simp: demo_fns_def)
qed

text \<open>
  C10. A client completes a handshake only with the server it pinned, in a mode it offered, and
  on a signature by the trusted key over the transcript of this very exchange.
\<close>

theorem client_handshake_authentic:
  assumes "complete_client_transport_handshake F (private, hello) sh pinned = Inr (st, trusted)"
  shows "(\<forall>p. pinned = Some p \<longrightarrow> trusted = p) \<and> trusted = server_public_key sh \<and>
     wire_id (st_mode st) = sh_mode sh \<and> sh_mode sh \<in> set (ch_modes hello) \<and>
     sh_version sh = PROTOCOL_VERSION \<and>
     ed_verify F trusted (server_transcript hello PROTOCOL_VERSION (wire_id (st_mode st)) (server_nonce sh)
       (server_ephemeral sh) trusted) (signature sh)"
proof -
  from assms obtain mode transcript shared where c:
    "validate_server_hello sh = Inr ()" "from_wire_id (sh_mode sh) = Some mode" "sh_mode sh \<in> set (ch_modes hello)"
    "resolve_server_public_key sh pinned = Inr trusted"
    "ed_verify F trusted (server_transcript hello (sh_version sh) (sh_mode sh) (server_nonce sh)
       (server_ephemeral sh) trusted) (signature sh)"
    "st = derive_session_transport F Client mode shared transcript"
    by (auto simp: complete_client_transport_handshake_def rbind_Inr_iff split: if_splits)
  have "st_mode st = mode" by (simp add: c(6) derive_session_transport_def Let_def)
  moreover have "sh_mode sh = wire_id mode" using c(2) by (simp add: from_wire_id_Some)
  moreover have "trusted = server_public_key sh \<and> (\<forall>p. pinned = Some p \<longrightarrow> trusted = p)"
    using c(4) by (auto simp: resolve_server_public_key_def Let_def split: if_splits option.splits)
  ultimately show ?thesis using c(1,3,5) by (auto simp: validate_server_hello_ok)
qed

theorem client_handshake_authentic_witness:
  "\<exists>sh st. complete_client_transport_handshake demo_fns demo_client sh (Some (pad32 [7])) = Inr (st, pad32 [7]) \<and>
     wire_id (st_mode st) = sh_mode sh"
proof -
  obtain sh st where r: "respond_to_client_hello demo_fns (demo_rng 6) [7] (snd demo_client) Encrypted = Inr (sh, st)"
    using demo_respond by blast
  have "ed_public demo_fns [7] = pad32 [7]" by (simp add: demo_fns_def)
  then have "complete_client_transport_handshake demo_fns (fst demo_client, snd demo_client) sh (Some (pad32 [7])) =
      Inr (mirror_transport st, pad32 [7])"
    using handshake_completes [OF demo_fns_ok(1,2), of "demo_rng 5" None "fst demo_client" "snd demo_client"
      "demo_rng 6" "[7]" Encrypted sh st "Some (pad32 [7])"] demo_generate r by simp
  with client_handshake_authentic [OF this] show ?thesis by auto
qed

text \<open>
  The scan-resistance filter. A hello generated for a server key passes that server's
  check, and a hello passes only if its MAC field is exactly the MAC of its other fields under
  that key.
\<close>

theorem hello_mac_filter:
  assumes "hmac_is_32 F" and "length (mac1 hello) = HELLO_MAC_LEN"
  shows "(verify_client_hello_mac1 F pk hello \<longleftrightarrow> mac1 hello = client_hello_mac1 F pk hello) \<and>
         (\<forall>rng priv h. generate_client_hello F rng (Some pk) = Inr (priv, h) \<longrightarrow>
            verify_client_hello_mac1 F pk h)"
proof -
  have eq: "verify_client_hello_mac1 F pk h \<longleftrightarrow> client_hello_mac1 F pk h = mac1 h"
    if "length (mac1 h) = HELLO_MAC_LEN" for h
    using that length_mac1 [OF assms(1)] by (simp add: verify_client_hello_mac1_def ct_diff_eq)
  moreover have "verify_client_hello_mac1 F pk h" if "generate_client_hello F rng (Some pk) = Inr (priv, h)"
    for rng priv h
    using generate_Inr [OF that] eq [of h] length_mac1 [OF assms(1), of pk h] by simp
  ultimately show ?thesis using assms(2) by auto
qed

theorem hello_mac_filter_witness:
  "verify_client_hello_mac1 demo_fns [1] demo_hello = (mac1 demo_hello = client_hello_mac1 demo_fns [1] demo_hello)"
  using hello_mac_filter [OF demo_fns_ok(3), of demo_hello "[1]"] by (simp add: demo_hello_def HELLO_MAC_LEN_def)

lemma auth_proof_verify_iff:
  "hmac_is_32 F \<Longrightarrow> auth_proof_verify F key message tag \<longleftrightarrow> tag = auth_proof F key message"
proof -
  assume "hmac_is_32 F"
  then have "length (auth_proof F key message) = AUTH_PROOF_LEN"
    by (simp add: auth_proof_def stun_integrity_def hmac_is_32_def AUTH_PROOF_LEN_def)
  then show ?thesis by (auto simp: auth_proof_verify_def ct_diff_eq)
qed

section \<open>Bearer tokens\<close>

lemma token_counter_small: "(c AND 0x0fffffffffffffff :: u64) < REJECT_AFTER_MESSAGES"
proof -
  have "c AND 0x0fffffffffffffff \<le> (0x0fffffffffffffff :: u64)" by (rule word_and_le1)
  also have "\<dots> < REJECT_AFTER_MESSAGES" by (simp add: REJECT_AFTER_MESSAGES_value)
  finally show ?thesis .
qed

lemma encode_hex_strip: "strip_prefix DYNAMIC_TOKEN_PREFIX (DYNAMIC_TOKEN_PREFIX @ r) = Some r"
  by simp

text \<open>
  Bearer tokens round trip. The server that issued a token reads back exactly the claims
  it sealed, and the random counter of a token can never exhaust the nonce space.
\<close>

theorem dynamic_token_round_trip:
  assumes "aead_correct (aead_fns.truncate F)" and "from_binary (to_binary claims) = Some claims"
  shows "(\<forall>token. issue_dynamic_token F to_binary seed claims draw = Inr token \<longrightarrow>
            verify_dynamic_token F from_binary seed token = Inr claims) \<and>
         issue_dynamic_token F to_binary seed claims draw \<noteq> Inl CounterExhausted"
proof (intro conjI allI impI)
  let ?A = "aead_fns.truncate F"
  fix token
  assume "issue_dynamic_token F to_binary seed claims draw = Inr token"
  then obtain key cb frame where t: "dynamic_token_key F seed = Inr key"
    "seal_with_key ?A key TOKEN_CHANNEL (from_le cb AND 0x0fffffffffffffff) (to_binary claims) = Inr frame"
    "token = DYNAMIC_TOKEN_PREFIX @ encode_hex frame"
    by (auto simp: issue_dynamic_token_def rbind_Inr_iff Let_def)
  from t(2) have "seal_with_key_into ?A key TOKEN_CHANNEL (from_le cb AND 0x0fffffffffffffff) (to_binary claims) [] =
      (Inr (), frame)"
    by (auto simp: seal_with_key_def rbind_Inr_iff split: prod.splits)
  from open_sealed [OF assms(1) this] t assms(2)
  show "verify_dynamic_token F from_binary seed token = Inr claims"
    by (simp add: verify_dynamic_token_def)
next
  have hex: "decode_hex_nibble b \<noteq> Inl CounterExhausted" for b by (simp add: decode_hex_nibble_def)
  have "decode_hex_pairs s \<noteq> Inl CounterExhausted" for s
    by (induction s rule: decode_hex_pairs.induct) (auto simp: rbind_def hex split: sum.splits)
  then have "dynamic_token_key F seed \<noteq> Inl CounterExhausted"
    by (auto simp: dynamic_token_key_def decode_fixed_hex_def decode_hex_def rbind_def Let_def
        split: sum.splits if_splits)
  then show "issue_dynamic_token F to_binary seed claims draw \<noteq> Inl CounterExhausted"
    by (auto simp: issue_dynamic_token_def rbind_def ok_or_def seal_with_key_def seal_with_key_into_eq
        Let_def token_counter_small [unfolded not_le [symmetric]] split: sum.splits option.splits prod.splits if_splits)
qed

definition demo_to_binary :: "dynamic_token_claims \<Rightarrow> bytes" where
  "demo_to_binary c = to_le 8 (claim_user_id c) @ to_le 4 (password_epoch c)"

definition demo_from_binary :: "bytes \<Rightarrow> dynamic_token_claims option" where
  "demo_from_binary bs = (if length bs = 12 then Some \<lparr>claim_user_id = from_le (take 8 bs),
     password_epoch = from_le (drop 8 bs)\<rparr> else None)"

theorem dynamic_token_round_trip_witness:
  "issue_dynamic_token demo_fns demo_to_binary (encode_hex (pad32 [1])) \<lparr>claim_user_id = 7, password_epoch = 2\<rparr>
     (Some [255, 255, 255, 255, 255, 255, 255, 255]) \<noteq> Inl CounterExhausted"
  using dynamic_token_round_trip [of demo_fns demo_from_binary demo_to_binary] demo_fns_ok(4)
  by (simp add: demo_to_binary_def demo_from_binary_def)

text \<open>An id derived from a recovery token lies in the upper half of the id space.\<close>

lemma recovery_user_id_upper_half:
  assumes "dynamic_user_id_from_recovery_token F seed token = Inr user"
  shows "2 ^ 63 \<le> unat user"
proof -
  from assms obtain secret where "dynamic_user_id_from_pairing_secret F seed secret = Inr user"
    by (auto simp: dynamic_user_id_from_recovery_token_def rbind_Inr_iff split: if_splits)
  then obtain id where "user = id OR push_bit 63 1"
    by (auto simp: dynamic_user_id_from_pairing_secret_def rbind_Inr_iff Let_def)
  then have "push_bit 63 1 \<le> user" by (simp add: le_word_or1 or.commute)
  then show ?thesis by (simp add: word_le_nat_alt)
qed

end
