(* ===== verification/Anti_Replay.thy ===== *)
theory Anti_Replay
  imports Prelude
begin

text \<open>
  The sliding anti-replay window of \<open>crates/rpc/src/crypto.rs\<close>, at the 64-bit word size: a ring
  of 32 words over the last 2048 sequence numbers. The specification keeps the set of numbers
  seen and the highest one; the ring of words is proved to answer as the specification does on
  every sequence of updates.
\<close>

unbundle bit_operations_syntax

section \<open>Definitions\<close>

definition REPLAY_WORD_BITS :: nat where
  "REPLAY_WORD_BITS = 64"

definition REPLAY_BITLEN :: nat where
  "REPLAY_BITLEN = 2048"

definition REPLAY_LEN :: nat where
  "REPLAY_LEN = REPLAY_BITLEN div REPLAY_WORD_BITS"

definition REPLAY_INDEX_MASK :: u64 where
  "REPLAY_INDEX_MASK = of_nat REPLAY_LEN - 1"

definition REPLAY_LOC_MASK :: u64 where
  "REPLAY_LOC_MASK = of_nat (REPLAY_WORD_BITS - 1)"

definition REPLAY_WINDOW_SIZE :: u64 where
  "REPLAY_WINDOW_SIZE = of_nat (REPLAY_BITLEN - REPLAY_WORD_BITS)"

record anti_replay =
  bitmap :: "u64 list"
  ar_last :: u64

definition ar_new :: anti_replay where
  "ar_new = \<lparr>bitmap = replicate REPLAY_LEN 0, ar_last = 0\<rparr>"

definition ar_check :: "anti_replay \<Rightarrow> u64 \<Rightarrow> bool" where
  "ar_check ar sequence =
     (if sequence > ar_last ar then True
      else if ar_last ar - sequence > REPLAY_WINDOW_SIZE then False
      else
        let bit_location = sequence AND REPLAY_LOC_MASK;
            index = (sequence div of_nat REPLAY_WORD_BITS) AND REPLAY_INDEX_MASK
        in (bitmap ar ! unat index) AND push_bit (unat bit_location) 1 = 0)"

text \<open>The \<open>for i in 0..diff\<close> loop that clears the words the window moves over.\<close>

fun ar_clear_words :: "u64 \<Rightarrow> nat \<Rightarrow> u64 list \<Rightarrow> u64 list" where
  "ar_clear_words current_index 0 bm = bm"
| "ar_clear_words current_index (Suc i) bm =
     (ar_clear_words current_index i bm)
       [unat ((current_index + of_nat i + 1) AND REPLAY_INDEX_MASK) := 0]"

definition ar_update :: "anti_replay \<Rightarrow> u64 \<Rightarrow> bool \<times> anti_replay" where
  "ar_update ar sequence =
     (if \<not> ar_check ar sequence then (False, ar)
      else
        let index = sequence div of_nat REPLAY_WORD_BITS;
            ar1 = (if sequence > ar_last ar then
                     let current_index = ar_last ar div of_nat REPLAY_WORD_BITS;
                         diff = index - current_index
                     in \<lparr>bitmap = (if diff \<ge> of_nat REPLAY_LEN then replicate REPLAY_LEN 0
                                   else ar_clear_words current_index (unat diff) (bitmap ar)),
                         ar_last = sequence\<rparr>
                   else ar);
            wrapped_index = unat (index AND REPLAY_INDEX_MASK);
            bit_location = unat (sequence AND REPLAY_LOC_MASK)
        in (True, ar1\<lparr>bitmap := (bitmap ar1)
              [wrapped_index := bitmap ar1 ! wrapped_index OR push_bit bit_location 1]\<rparr>))"

section \<open>Specification\<close>

record window_spec =
  seen :: "nat list"
  highest :: nat

definition spec_accepts :: "window_spec \<Rightarrow> nat \<Rightarrow> bool" where
  "spec_accepts w s \<longleftrightarrow> highest w < s \<or> (highest w - s \<le> 1984 \<and> s \<notin> set (seen w))"

definition spec_update :: "window_spec \<Rightarrow> nat \<Rightarrow> bool \<times> window_spec" where
  "spec_update w s =
     (if spec_accepts w s then (True, \<lparr>seen = s # seen w, highest = max (highest w) s\<rparr>)
      else (False, w))"

text \<open>The answers to a sequence of updates.\<close>

fun answers :: "('s \<Rightarrow> 'n \<Rightarrow> bool \<times> 's) \<Rightarrow> 's \<Rightarrow> 'n list \<Rightarrow> bool list" where
  "answers upd st [] = []"
| "answers upd st (n # ns) = (case upd st n of (ok, st') \<Rightarrow> ok # answers upd st' ns)"

definition accepted :: "('s \<Rightarrow> 'n \<Rightarrow> bool \<times> 's) \<Rightarrow> 's \<Rightarrow> 'n list \<Rightarrow> 'n list" where
  "accepted upd st ns = map fst (filter snd (zip ns (answers upd st ns)))"

section \<open>Words against numbers\<close>

lemma unat_and_mask:
  "unat ((w :: u64) AND 31) = unat w mod 32" "unat (w AND 63) = unat w mod 64"
proof -
  have "w AND 31 = take_bit 5 w" "w AND 63 = take_bit 6 w"
    by (simp_all add: take_bit_eq_mask mask_numeral)
  then show "unat (w AND 31) = unat w mod 32" "unat (w AND 63) = unat w mod 64"
    by (simp_all add: take_bit_eq_mod unat_mod)
qed

lemma replay_consts [simp]:
  "REPLAY_WORD_BITS = 64" "REPLAY_LEN = 32" "REPLAY_INDEX_MASK = 31" "REPLAY_LOC_MASK = 63"
  "REPLAY_WINDOW_SIZE = 1984"
  by (simp_all add: REPLAY_WORD_BITS_def REPLAY_LEN_def REPLAY_BITLEN_def REPLAY_INDEX_MASK_def
      REPLAY_LOC_MASK_def REPLAY_WINDOW_SIZE_def)

lemma unat_div_64: "unat ((s :: u64) div 64) = unat s div 64"
  by (simp add: unat_div)

lemma bit_test: "((w :: u64) AND 2 ^ n = 0) \<longleftrightarrow> \<not> bit w n"
  by (simp add: and_exp_eq_0_iff_not_bit)

section \<open>The ring of words\<close>

definition ring_bit :: "u64 list \<Rightarrow> nat \<Rightarrow> bool" where
  "ring_bit bm s = bit (bm ! (s div 64 mod 32)) (s mod 64)"

definition ar_rel :: "anti_replay \<Rightarrow> window_spec \<Rightarrow> bool" where
  "ar_rel ar w \<longleftrightarrow>
     length (bitmap ar) = 32 \<and> highest w = unat (ar_last ar) \<and> (\<forall>s\<in>set (seen w). s \<le> highest w) \<and>
     (\<forall>s. s div 64 \<le> highest w div 64 \<longrightarrow> highest w div 64 < s div 64 + 32 \<longrightarrow>
        ring_bit (bitmap ar) s = (s \<in> set (seen w)))"

lemma ar_rel_new: "ar_rel ar_new \<lparr>seen = [], highest = 0\<rparr>"
  by (simp add: ar_rel_def ar_new_def ring_bit_def)

lemma ar_check_spec: "ar_rel ar w \<Longrightarrow> ar_check ar s = spec_accepts w (unat s)"
proof -
  assume rel: "ar_rel ar w"
  show ?thesis
  proof (cases "s > ar_last ar")
    case True
    with rel show ?thesis by (simp add: ar_check_def spec_accepts_def ar_rel_def word_less_nat_alt)
  next
    case False
    then have le: "unat s \<le> highest w" using rel by (simp add: ar_rel_def word_le_nat_alt not_less)
    have diff: "unat (ar_last ar - s) = highest w - unat s"
      using False rel by (simp add: ar_rel_def unat_sub not_less)
    have "ar_check ar s \<longleftrightarrow> highest w - unat s \<le> 1984 \<and> \<not> ring_bit (bitmap ar) (unat s)"
      using False diff by (auto simp: ar_check_def Let_def unat_and_mask unat_div_64 bit_test ring_bit_def
          word_less_nat_alt not_less)
    also have "\<dots> \<longleftrightarrow> spec_accepts w (unat s)"
    proof (cases "highest w - unat s \<le> 1984")
      case True
      then have "highest w div 64 < unat s div 64 + 32" by auto
      moreover have "unat s div 64 \<le> highest w div 64" using le by (rule div_le_mono)
      ultimately have "ring_bit (bitmap ar) (unat s) = (unat s \<in> set (seen w))"
        using rel unfolding ar_rel_def by blast
      then show ?thesis using True le by (simp add: spec_accepts_def)
    qed (use le in \<open>simp add: spec_accepts_def\<close>)
    finally show ?thesis .
  qed
qed

lemma length_ar_clear_words [simp]: "length (ar_clear_words c n bm) = length bm"
  by (induction n) simp_all

lemma nth_ar_clear_words:
  assumes "unat c + n < 2 ^ 64" and "length bm = 32" and "j < 32"
  shows "ar_clear_words c n bm ! j = (if \<exists>i<n. (unat c + i + 1) mod 32 = j then 0 else bm ! j)"
  using assms(1)
proof (induction n)
  case 0
  then show ?case by simp
next
  case (Suc n)
  have "unat (c + of_nat n + 1) = unat c + n + 1"
    using Suc.prems by (simp add: unat_word_ariths unat_of_nat)
  then have "unat ((c + of_nat n + 1) AND 31) = (unat c + n + 1) mod 32" by (simp add: unat_and_mask)
  then show ?case using Suc assms(2,3) by (auto simp: nth_list_update less_Suc_eq)
qed

lemma same_slot:
  fixes a b :: nat
  assumes "a mod 32 = b mod 32" and "a \<le> b" and "b < a + 32"
  shows "a = b"
proof -
  have "32 dvd b - a"
    using assms(2) assms(1) [symmetric] mod_eq_dvd_iff_nat [of a b 32] by blast
  then show ?thesis using assms(2,3) by presburger
qed

text \<open>The words a move of the window leaves alone, and those it clears.\<close>

lemma ring_bit_clear:
  assumes "length bm = 32" and "unat c + n < 2 ^ 64"
    and "t div 64 \<le> unat c + n" and "unat c + n < t div 64 + 32"
  shows "ring_bit (ar_clear_words c n bm) t \<longleftrightarrow> t div 64 \<le> unat c \<and> ring_bit bm t"
proof -
  have "(\<exists>i<n. (unat c + i + 1) mod 32 = t div 64 mod 32) \<longleftrightarrow> \<not> t div 64 \<le> unat c"
  proof
    assume "\<exists>i<n. (unat c + i + 1) mod 32 = t div 64 mod 32"
    then obtain i where i: "i < n" "(unat c + i + 1) mod 32 = t div 64 mod 32" by blast
    show "\<not> t div 64 \<le> unat c"
      using same_slot [of "t div 64" "unat c + i + 1"] i assms(4) by linarith
  next
    assume "\<not> t div 64 \<le> unat c"
    then show "\<exists>i<n. (unat c + i + 1) mod 32 = t div 64 mod 32"
      using assms(3) by (intro exI [of _ "t div 64 - unat c - 1"]) auto
  qed
  then show ?thesis
    using nth_ar_clear_words [OF assms(2,1), of "t div 64 mod 32"] by (auto simp: ring_bit_def)
qed

lemma ring_bit_set:
  assumes "length bm = 32" and "t div 64 \<le> b" and "b < t div 64 + 32"
    and "s div 64 \<le> b" and "b < s div 64 + 32"
  shows "ring_bit (bm[s div 64 mod 32 := bm ! (s div 64 mod 32) OR push_bit (s mod 64) 1]) t \<longleftrightarrow>
         t = s \<or> ring_bit bm t"
proof (cases "t div 64 mod 32 = s div 64 mod 32")
  case True
  have "t div 64 = s div 64"
    using same_slot [of "t div 64" "s div 64"] same_slot [of "s div 64" "t div 64"] True assms(2-5)
    by linarith
  then have "t mod 64 = s mod 64 \<longleftrightarrow> t = s" by (metis div_mult_mod_eq)
  moreover have "bit (push_bit (s mod 64) 1 :: u64) (t mod 64) \<longleftrightarrow> t mod 64 = s mod 64"
    by (auto simp: bit_simps)
  ultimately show ?thesis using True assms(1) by (auto simp: ring_bit_def bit_or_iff)
next
  case False
  then have "t \<noteq> s" by auto
  with False show ?thesis by (simp add: ring_bit_def)
qed

lemma ar_move_spec:
  assumes rel: "ar_rel ar w" and gt: "sequence > ar_last ar"
    and t: "t div 64 \<le> unat sequence div 64" "unat sequence div 64 < t div 64 + 32"
  defines "cur \<equiv> ar_last ar div 64" and "diff \<equiv> sequence div 64 - ar_last ar div 64"
  shows "ring_bit (if diff \<ge> 32 then replicate 32 0 else ar_clear_words cur (unat diff) (bitmap ar)) t =
         (t \<in> set (seen w))"
proof -
  have hi: "highest w = unat (ar_last ar)" and len: "length (bitmap ar) = 32"
    and inv: "\<And>s. s div 64 \<le> highest w div 64 \<Longrightarrow> highest w div 64 < s div 64 + 32 \<Longrightarrow>
        ring_bit (bitmap ar) s = (s \<in> set (seen w))"
    and small: "\<And>s. s \<in> set (seen w) \<Longrightarrow> s \<le> highest w"
    using rel by (auto simp: ar_rel_def)
  have cur: "unat cur = highest w div 64" by (simp add: cur_def hi unat_div_64)
  have mono: "unat (ar_last ar) div 64 \<le> unat sequence div 64"
    using gt by (intro div_le_mono) (simp add: word_less_nat_alt)
  then have diff: "unat diff = unat sequence div 64 - highest w div 64"
    by (simp add: diff_def unat_sub word_le_nat_alt unat_div_64 hi)
  have sum: "unat cur + unat diff = unat sequence div 64"
    using diff cur mono hi by simp
  have bnd: "unat cur + unat diff < 2 ^ 64"
    using unsigned_less [of sequence, where ?'a = nat] by (simp add: sum)
  show ?thesis
  proof (cases "diff \<ge> 32")
    case True
    then have "32 \<le> unat diff" by (simp add: word_le_nat_alt)
    then have "highest w div 64 < t div 64" using t diff by linarith
    then have "highest w < t" by (meson div_le_mono not_le)
    then have "t \<notin> set (seen w)" using small by force
    with True show ?thesis by (simp add: ring_bit_def)
  next
    case False
    have "ring_bit (ar_clear_words cur (unat diff) (bitmap ar)) t \<longleftrightarrow> t div 64 \<le> unat cur \<and> ring_bit (bitmap ar) t"
      using t len bnd by (intro ring_bit_clear) (simp_all add: sum)
    also have "\<dots> \<longleftrightarrow> t \<in> set (seen w)"
    proof (cases "t div 64 \<le> unat cur")
      case True
      moreover have "highest w div 64 < t div 64 + 32" using t(2) sum cur by linarith
      ultimately show ?thesis using inv cur by simp
    next
      case False
      then have "highest w < t" using cur by (metis div_le_mono not_le)
      then show ?thesis using False small by force
    qed
    finally show ?thesis using False by simp
  qed
qed

lemma ar_update_spec:
  assumes rel: "ar_rel ar w"
  shows "fst (ar_update ar s) = fst (spec_update w (unat s)) \<and>
         ar_rel (snd (ar_update ar s)) (snd (spec_update w (unat s)))"
proof (cases "ar_check ar s")
  case False
  with rel show ?thesis by (simp add: ar_update_def spec_update_def ar_check_spec [OF rel])
next
  case True
  have acc: "spec_accepts w (unat s)" using True ar_check_spec [OF rel] by simp
  define bm where "bm = (if s > ar_last ar
      then (if s div 64 - ar_last ar div 64 \<ge> 32 then replicate 32 0
            else ar_clear_words (ar_last ar div 64) (unat (s div 64 - ar_last ar div 64)) (bitmap ar))
      else bitmap ar)"
  let ?hi = "max (highest w) (unat s)"
  let ?bm' = "bm[unat s div 64 mod 32 := bm ! (unat s div 64 mod 32) OR push_bit (unat s mod 64) 1]"
  have upd: "ar_update ar s = (True, \<lparr>bitmap = ?bm', ar_last = (if s > ar_last ar then s else ar_last ar)\<rparr>)"
    using True by (simp add: ar_update_def bm_def Let_def unat_and_mask unat_div_64)
  have hi: "highest w = unat (ar_last ar)" and len: "length bm = 32"
    and small: "\<And>s. s \<in> set (seen w) \<Longrightarrow> s \<le> highest w"
    using rel by (auto simp: ar_rel_def bm_def)
  have win: "?hi div 64 < unat s div 64 + 32" "unat s div 64 \<le> ?hi div 64"
    using acc by (auto simp: spec_accepts_def max_def intro: div_le_mono)
  have moved: "ring_bit bm t = (t \<in> set (seen w))" if "t div 64 \<le> ?hi div 64" "?hi div 64 < t div 64 + 32" for t
  proof (cases "s > ar_last ar")
    case True
    then have "?hi = unat s" using hi by (simp add: word_less_nat_alt)
    with ar_move_spec [OF rel True, of t] that True show ?thesis by (simp add: bm_def)
  next
    case False
    then have "?hi = highest w" using hi by (simp add: word_less_nat_alt)
    with that rel False show ?thesis by (simp add: bm_def ar_rel_def)
  qed
  have "ring_bit ?bm' t = (t \<in> set (unat s # seen w))"
    if "t div 64 \<le> ?hi div 64" "?hi div 64 < t div 64 + 32" for t
    using ring_bit_set [OF len that win(2,1)] moved [OF that] by simp
  moreover have "unat (if s > ar_last ar then s else ar_last ar) = ?hi"
    using hi by (simp add: word_less_nat_alt max_def)
  moreover have "\<forall>t\<in>set (unat s # seen w). t \<le> ?hi"
    using small by (auto simp: le_max_iff_disj)
  ultimately show ?thesis
    using acc len by (simp add: upd spec_update_def ar_rel_def)
qed

section \<open>Every trace of updates\<close>

lemma answers_refine:
  "ar_rel ar w \<Longrightarrow> answers ar_update ar ns = answers spec_update w (map unat ns)"
proof (induction ns arbitrary: ar w)
  case Nil
  then show ?case by simp
next
  case (Cons n ns)
  from ar_update_spec [OF Cons.prems, of n] Cons.IH show ?case
    by (cases "ar_update ar n"; cases "spec_update w (unat n)") auto
qed

text \<open>
  C5. The bitmap window is exact. On every sequence of updates from a fresh window, the ring of
  words answers as a window that remembers every number seen: a number above the highest is
  accepted, one more than 1984 below it is refused, and in between exactly the numbers not yet
  seen are accepted.
\<close>

theorem anti_replay_exact:
  "answers ar_update ar_new ns = answers spec_update \<lparr>seen = [], highest = 0\<rparr> (map unat ns)"
  using answers_refine [OF ar_rel_new] .

definition spec_inv :: "window_spec \<Rightarrow> bool" where
  "spec_inv w \<longleftrightarrow> (\<forall>s\<in>set (seen w). s \<le> highest w)"

lemma accepted_simps [simp]:
  "accepted upd st [] = []"
  "accepted upd st (n # ns) =
     (case upd st n of (ok, st') \<Rightarrow> (if ok then n # accepted upd st' ns else accepted upd st' ns))"
  by (auto simp: accepted_def split: prod.splits)

lemma spec_accepted_fresh:
  "spec_inv w \<Longrightarrow> distinct (accepted spec_update w ns) \<and> set (accepted spec_update w ns) \<inter> set (seen w) = {}"
proof (induction ns arbitrary: w)
  case Nil
  then show ?case by simp
next
  case (Cons n ns)
  show ?case
  proof (cases "spec_accepts w n")
    case False
    then show ?thesis using Cons by (simp add: spec_update_def)
  next
    case True
    let ?w = "\<lparr>seen = n # seen w, highest = max (highest w) n\<rparr>"
    have "spec_inv ?w" using Cons.prems by (auto simp: spec_inv_def)
    moreover have "n \<notin> set (seen w)"
      using True Cons.prems by (auto simp: spec_accepts_def spec_inv_def)
    ultimately show ?thesis using Cons.IH [of ?w] True by (auto simp: spec_update_def)
  qed
qed

lemma accepted_refine:
  "ar_rel ar w \<Longrightarrow> map unat (accepted ar_update ar ns) = accepted spec_update w (map unat ns)"
proof (induction ns arbitrary: ar w)
  case Nil
  then show ?case by simp
next
  case (Cons n ns)
  from ar_update_spec [OF Cons.prems, of n] Cons.IH show ?case
    by (cases "ar_update ar n"; cases "spec_update w (unat n)") auto
qed

text \<open>
  No replay. Over any sequence of received counters, the window accepts no counter twice.
\<close>

theorem anti_replay_never_twice: "distinct (accepted ar_update ar_new ns)"
proof -
  have "distinct (map unat (accepted ar_update ar_new ns))"
    unfolding accepted_refine [OF ar_rel_new] using spec_accepted_fresh [of "\<lparr>seen = [], highest = 0\<rparr>"]
    by (simp add: spec_inv_def)
  then show ?thesis by (simp add: distinct_map)
qed

end
