(* ===== verification/Media_Payload.thy ===== *)
theory Media_Payload
  imports Handshake Anti_Replay
begin

text \<open>
  The data of the UDP media datagrams of \<open>crates/rpc/src/media.rs\<close>: headers, owned and borrowed
  payloads (the \<open>Ref\<close> types of the code have constructors of their own), and the payload codec,
  which is proved exact.
\<close>

section \<open>Definitions\<close>

subsection \<open>Constants and types\<close>

definition UDP_VERSION :: byte where "UDP_VERSION = 4"
definition UDP_HEADER_LEN :: nat where "UDP_HEADER_LEN = 14"
definition SAFE_UDP_PAYLOAD_BYTES :: nat where "SAFE_UDP_PAYLOAD_BYTES = 1200"
definition MAX_VOICE_PAYLOAD_BYTES :: nat where "MAX_VOICE_PAYLOAD_BYTES = 1024"

definition MAX_SEALED_MEDIA_BYTES :: nat where
  "MAX_SEALED_MEDIA_BYTES = UDP_HEADER_LEN + SAFE_UDP_PAYLOAD_BYTES + TAG_LEN"

definition VOICE_TCP_MAGIC :: bytes where "VOICE_TCP_MAGIC = ascii_bytes ''CHTVOI01''"
definition VOICE_TCP_MAX_FRAME_BYTES :: nat where "VOICE_TCP_MAX_FRAME_BYTES = MAX_SEALED_MEDIA_BYTES"

definition KIND_BIND :: byte where "KIND_BIND = 1"
definition KIND_VOICE :: byte where "KIND_VOICE = 2"
definition KIND_PING :: byte where "KIND_PING = 3"
definition KIND_PONG :: byte where "KIND_PONG = 4"
definition KIND_PEER_VOICE :: byte where "KIND_PEER_VOICE = 5"
definition KIND_NAT_PROBE :: byte where "KIND_NAT_PROBE = 6"
definition KIND_VOICE_FEEDBACK :: byte where "KIND_VOICE_FEEDBACK = 7"
definition KIND_PEER_VOICE_FEEDBACK :: byte where "KIND_PEER_VOICE_FEEDBACK = 8"
definition KIND_VOICE_FEEDBACK_FROM :: byte where "KIND_VOICE_FEEDBACK_FROM = 9"
definition VOICE_PAYLOAD_OPUS :: byte where "VOICE_PAYLOAD_OPUS = 0"
definition VOICE_PAYLOAD_SILENCE :: byte where "VOICE_PAYLOAD_SILENCE = 1"

lemmas kind_defs = KIND_BIND_def KIND_VOICE_def KIND_PING_def KIND_PONG_def KIND_PEER_VOICE_def
  KIND_NAT_PROBE_def KIND_VOICE_FEEDBACK_def KIND_PEER_VOICE_FEEDBACK_def KIND_VOICE_FEEDBACK_FROM_def

record udp_header =
  uh_version :: byte
  uh_kind :: byte
  uh_route_id :: u32
  uh_counter :: u64

record voice_feedback =
  highest_contiguous_sequence :: u32
  expected_packets :: u16
  lost_packets :: u16
  late_packets :: u16
  duplicate_packets :: u16
  reordered_packets :: u16
  window_ms :: u16
  max_output_ring_ms :: u16
  max_neteq_target_ms :: u16
  max_neteq_playout_delay_ms :: u16
  max_neteq_packet_buffer_ms :: u16
  max_interarrival_jitter_ms :: u16

datatype voice_payload = Opus bytes | Silence

datatype (plugins del: quickcheck_random quickcheck_exhaustive quickcheck_bounded_forall quickcheck_full_exhaustive quickcheck_narrowing) media_payload =
    Bind
  | NatProbe byte
  | Voice u32 u32 u32 byte voice_payload
  | PeerVoice u64 u32 u32 u32 byte voice_payload
  | VoiceFeedback u32 voice_feedback
  | PeerVoiceFeedback u64 u32 voice_feedback
  | VoiceFeedbackFrom u64 u32 voice_feedback
  | Ping u64 "u16 option"
  | Pong u64

datatype voice_payload_ref = OpusRef bytes | SilenceRef

datatype (plugins del: quickcheck_random quickcheck_exhaustive quickcheck_bounded_forall quickcheck_full_exhaustive quickcheck_narrowing) media_payload_ref =
    BindRef
  | NatProbeRef byte
  | VoiceRef u32 u32 u32 byte voice_payload_ref
  | PeerVoiceRef u64 u32 u32 u32 byte voice_payload_ref
  | VoiceFeedbackRef u32 voice_feedback
  | PeerVoiceFeedbackRef u64 u32 voice_feedback
  | VoiceFeedbackFromRef u64 u32 voice_feedback
  | PingRef u64 "u16 option"
  | PongRef u64

datatype (plugins del: quickcheck_random quickcheck_exhaustive quickcheck_bounded_forall quickcheck_full_exhaustive quickcheck_narrowing) media_error =
    TooShort | MediaUnsupportedVersion byte | UnknownKind byte | PayloadTooLarge | InvalidPayload
  | MediaCrypto crypto_error | MediaReplay

datatype media_protection =
    MediaAead u32 key_material key_material
  | MediaClear u32 bytes

datatype address_proof = AuthenticatedDatagram | AuthenticatedAddressClaim | NoAddressProof

record opened_media =
  om_header :: udp_header
  om_payload :: media_payload
  om_address_proof :: address_proof

record opened_media_ref =
  or_header :: udp_header
  or_payload :: media_payload_ref
  or_address_proof :: address_proof

definition from_transport :: "session_transport \<Rightarrow> media_protection" where
  "from_transport t =
     (case st_mode t of
        Encrypted \<Rightarrow> MediaAead (route_id t) (media_send (secrets t)) (media_recv (secrets t))
      | Plaintext \<Rightarrow> MediaClear (route_id t) (bind_key t))"

definition protection_route_id :: "media_protection \<Rightarrow> u32" where
  "protection_route_id p = (case p of MediaAead r _ _ \<Rightarrow> r | MediaClear r _ \<Rightarrow> r)"

subsection \<open>Owned and borrowed payloads\<close>

definition voice_borrowed :: "voice_payload \<Rightarrow> voice_payload_ref" where
  "voice_borrowed v = (case v of Opus opus \<Rightarrow> OpusRef opus | Silence \<Rightarrow> SilenceRef)"

definition voice_into_owned :: "voice_payload_ref \<Rightarrow> voice_payload" where
  "voice_into_owned v = (case v of OpusRef opus \<Rightarrow> Opus opus | SilenceRef \<Rightarrow> Silence)"

definition voice_len :: "voice_payload \<Rightarrow> nat" where
  "voice_len v = (case v of Opus opus \<Rightarrow> length opus | Silence \<Rightarrow> 0)"

fun borrowed :: "media_payload \<Rightarrow> media_payload_ref" where
  "borrowed Bind = BindRef"
| "borrowed (NatProbe i) = NatProbeRef i"
| "borrowed (Voice s q t f v) = VoiceRef s q t f (voice_borrowed v)"
| "borrowed (PeerVoice c s q t f v) = PeerVoiceRef c s q t f (voice_borrowed v)"
| "borrowed (VoiceFeedback s fb) = VoiceFeedbackRef s fb"
| "borrowed (PeerVoiceFeedback c s fb) = PeerVoiceFeedbackRef c s fb"
| "borrowed (VoiceFeedbackFrom u s fb) = VoiceFeedbackFromRef u s fb"
| "borrowed (Ping n r) = PingRef n r"
| "borrowed (Pong n) = PongRef n"

fun into_owned :: "media_payload_ref \<Rightarrow> media_payload" where
  "into_owned BindRef = Bind"
| "into_owned (NatProbeRef i) = NatProbe i"
| "into_owned (VoiceRef s q t f v) = Voice s q t f (voice_into_owned v)"
| "into_owned (PeerVoiceRef c s q t f v) = PeerVoice c s q t f (voice_into_owned v)"
| "into_owned (VoiceFeedbackRef s fb) = VoiceFeedback s fb"
| "into_owned (PeerVoiceFeedbackRef c s fb) = PeerVoiceFeedback c s fb"
| "into_owned (VoiceFeedbackFromRef u s fb) = VoiceFeedbackFrom u s fb"
| "into_owned (PingRef n r) = Ping n r"
| "into_owned (PongRef n) = Pong n"

fun payload_kind :: "media_payload \<Rightarrow> byte" where
  "payload_kind Bind = KIND_BIND"
| "payload_kind (NatProbe _) = KIND_NAT_PROBE"
| "payload_kind (Voice _ _ _ _ _) = KIND_VOICE"
| "payload_kind (PeerVoice _ _ _ _ _ _) = KIND_PEER_VOICE"
| "payload_kind (VoiceFeedback _ _) = KIND_VOICE_FEEDBACK"
| "payload_kind (PeerVoiceFeedback _ _ _) = KIND_PEER_VOICE_FEEDBACK"
| "payload_kind (VoiceFeedbackFrom _ _ _) = KIND_VOICE_FEEDBACK_FROM"
| "payload_kind (Ping _ _) = KIND_PING"
| "payload_kind (Pong _) = KIND_PONG"

fun payload_ref_kind :: "media_payload_ref \<Rightarrow> byte" where
  "payload_ref_kind BindRef = KIND_BIND"
| "payload_ref_kind (NatProbeRef _) = KIND_NAT_PROBE"
| "payload_ref_kind (VoiceRef _ _ _ _ _) = KIND_VOICE"
| "payload_ref_kind (PeerVoiceRef _ _ _ _ _ _) = KIND_PEER_VOICE"
| "payload_ref_kind (VoiceFeedbackRef _ _) = KIND_VOICE_FEEDBACK"
| "payload_ref_kind (PeerVoiceFeedbackRef _ _ _) = KIND_PEER_VOICE_FEEDBACK"
| "payload_ref_kind (VoiceFeedbackFromRef _ _ _) = KIND_VOICE_FEEDBACK_FROM"
| "payload_ref_kind (PingRef _ _) = KIND_PING"
| "payload_ref_kind (PongRef _) = KIND_PONG"

subsection \<open>Payload codec\<close>

definition encode_voice_feedback :: "voice_feedback \<Rightarrow> bytes" where
  "encode_voice_feedback fb =
     to_le 4 (highest_contiguous_sequence fb) @ to_le 2 (expected_packets fb) @ to_le 2 (lost_packets fb)
     @ to_le 2 (late_packets fb) @ to_le 2 (duplicate_packets fb) @ to_le 2 (reordered_packets fb)
     @ to_le 2 (window_ms fb) @ to_le 2 (max_output_ring_ms fb) @ to_le 2 (max_neteq_target_ms fb)
     @ to_le 2 (max_neteq_playout_delay_ms fb) @ to_le 2 (max_neteq_packet_buffer_ms fb)
     @ to_le 2 (max_interarrival_jitter_ms fb)"

definition decode_voice_feedback :: "bytes \<Rightarrow> (media_error, voice_feedback) result" where
  "decode_voice_feedback bs =
     (if length bs \<noteq> 26 then Inl InvalidPayload
      else Inr \<lparr>highest_contiguous_sequence = from_le (subslice 0 4 bs),
                expected_packets = from_le (subslice 4 6 bs), lost_packets = from_le (subslice 6 8 bs),
                late_packets = from_le (subslice 8 10 bs), duplicate_packets = from_le (subslice 10 12 bs),
                reordered_packets = from_le (subslice 12 14 bs), window_ms = from_le (subslice 14 16 bs),
                max_output_ring_ms = from_le (subslice 16 18 bs),
                max_neteq_target_ms = from_le (subslice 18 20 bs),
                max_neteq_playout_delay_ms = from_le (subslice 20 22 bs),
                max_neteq_packet_buffer_ms = from_le (subslice 22 24 bs),
                max_interarrival_jitter_ms = from_le (subslice 24 26 bs)\<rparr>)"

definition encode_voice_payload :: "voice_payload_ref \<Rightarrow> (media_error, bytes) result" where
  "encode_voice_payload v =
     (case v of
        OpusRef opus \<Rightarrow>
          if opus = [] \<or> length opus > MAX_VOICE_PAYLOAD_BYTES then Inl PayloadTooLarge
          else if length opus \<ge> 2 ^ 16 then Inl PayloadTooLarge
          else Inr ([VOICE_PAYLOAD_OPUS] @ to_le 2 (of_nat (length opus) :: u16) @ opus)
      | SilenceRef \<Rightarrow> Inr ([VOICE_PAYLOAD_SILENCE] @ to_le 2 (0 :: u16)))"

definition decode_voice_payload_ref :: "bytes \<Rightarrow> (media_error, voice_payload_ref) result" where
  "decode_voice_payload_ref bs =
     (if length bs < 3 then Inl InvalidPayload
      else
        let len = unat (from_le (subslice 1 3 bs) :: u16) in
        if bs ! 0 = VOICE_PAYLOAD_OPUS then
          if len = 0 \<or> len > MAX_VOICE_PAYLOAD_BYTES \<or> length bs \<noteq> 3 + len then Inl InvalidPayload
          else Inr (OpusRef (drop 3 bs))
        else if bs ! 0 = VOICE_PAYLOAD_SILENCE then
          if len \<noteq> 0 \<or> length bs \<noteq> 3 then Inl InvalidPayload else Inr SilenceRef
        else Inl InvalidPayload)"

text \<open>
  The encoder appends to \<open>out\<close>. When it fails the callers discard the buffer, so only the
  error is kept.
\<close>

fun encode_payload_body :: "media_payload_ref \<Rightarrow> (media_error, bytes) result" where
  "encode_payload_body BindRef = Inr []"
| "encode_payload_body (NatProbeRef i) = Inr [i]"
| "encode_payload_body (VoiceRef s q t f v) =
     rbind (encode_voice_payload v) (\<lambda>vp. Inr (to_le 4 s @ to_le 4 q @ to_le 4 t @ [f] @ vp))"
| "encode_payload_body (PeerVoiceRef c s q t f v) =
     rbind (encode_voice_payload v) (\<lambda>vp. Inr (to_le 8 c @ to_le 4 s @ to_le 4 q @ to_le 4 t @ [f] @ vp))"
| "encode_payload_body (VoiceFeedbackRef s fb) = Inr (to_le 4 s @ encode_voice_feedback fb)"
| "encode_payload_body (PeerVoiceFeedbackRef c s fb) = Inr (to_le 8 c @ to_le 4 s @ encode_voice_feedback fb)"
| "encode_payload_body (VoiceFeedbackFromRef u s fb) = Inr (to_le 8 u @ to_le 4 s @ encode_voice_feedback fb)"
| "encode_payload_body (PingRef n r) =
     Inr (to_le 8 n @ (case r of Some rtt \<Rightarrow> [1] @ to_le 2 rtt | None \<Rightarrow> [0]))"
| "encode_payload_body (PongRef n) = Inr (to_le 8 n)"

definition encode_payload_ref_into :: "media_payload_ref \<Rightarrow> bytes \<Rightarrow> (media_error, bytes) result" where
  "encode_payload_ref_into p out =
     rbind (encode_payload_body p) (\<lambda>body. Inr (out @ [payload_ref_kind p] @ body))"

definition encode_payload_into :: "media_payload \<Rightarrow> bytes \<Rightarrow> (media_error, bytes) result" where
  "encode_payload_into p out = encode_payload_ref_into (borrowed p) out"

definition encode_payload :: "media_payload \<Rightarrow> (media_error, bytes) result" where
  "encode_payload p = encode_payload_into p []"

definition decode_payload_body :: "byte \<Rightarrow> bytes \<Rightarrow> (media_error, media_payload_ref) result" where
  "decode_payload_body kind bs =
     (if kind = KIND_BIND then
        if bs \<noteq> [] then Inl InvalidPayload else Inr BindRef
      else if kind = KIND_NAT_PROBE then
        if length bs \<noteq> 1 then Inl InvalidPayload else Inr (NatProbeRef (bs ! 0))
      else if kind = KIND_VOICE then
        if length bs < 16 then Inl InvalidPayload
        else rbind (decode_voice_payload_ref (drop 13 bs)) (\<lambda>v.
          Inr (VoiceRef (from_le (subslice 0 4 bs)) (from_le (subslice 4 8 bs)) (from_le (subslice 8 12 bs))
                 (bs ! 12) v))
      else if kind = KIND_PEER_VOICE then
        if length bs < 24 then Inl InvalidPayload
        else rbind (decode_voice_payload_ref (drop 21 bs)) (\<lambda>v.
          Inr (PeerVoiceRef (from_le (subslice 0 8 bs)) (from_le (subslice 8 12 bs)) (from_le (subslice 12 16 bs))
                 (from_le (subslice 16 20 bs)) (bs ! 20) v))
      else if kind = KIND_VOICE_FEEDBACK then
        if length bs \<noteq> 30 then Inl InvalidPayload
        else rbind (decode_voice_feedback (drop 4 bs)) (\<lambda>fb. Inr (VoiceFeedbackRef (from_le (subslice 0 4 bs)) fb))
      else if kind = KIND_PEER_VOICE_FEEDBACK then
        if length bs \<noteq> 38 then Inl InvalidPayload
        else rbind (decode_voice_feedback (drop 12 bs)) (\<lambda>fb.
          Inr (PeerVoiceFeedbackRef (from_le (subslice 0 8 bs)) (from_le (subslice 8 12 bs)) fb))
      else if kind = KIND_VOICE_FEEDBACK_FROM then
        if length bs \<noteq> 38 then Inl InvalidPayload
        else rbind (decode_voice_feedback (drop 12 bs)) (\<lambda>fb.
          Inr (VoiceFeedbackFromRef (from_le (subslice 0 8 bs)) (from_le (subslice 8 12 bs)) fb))
      else if kind = KIND_PING then
        if length bs \<noteq> 9 \<and> length bs \<noteq> 11 then Inl InvalidPayload
        else
          let nonce = from_le (subslice 0 8 bs) in
          if bs ! 8 = 0 \<and> length bs = 9 then Inr (PingRef nonce None)
          else if bs ! 8 = 1 \<and> length bs = 11 then Inr (PingRef nonce (Some (from_le (subslice 9 11 bs))))
          else Inl InvalidPayload
      else if kind = KIND_PONG then
        if length bs \<noteq> 8 then Inl InvalidPayload else Inr (PongRef (from_le bs))
      else Inl (UnknownKind kind))"

definition decode_payload_ref :: "byte \<Rightarrow> bytes \<Rightarrow> (media_error, media_payload_ref) result" where
  "decode_payload_ref kind bs =
     (case bs of
        [] \<Rightarrow> Inl InvalidPayload
      | kind1 # bs \<Rightarrow>
          if kind1 \<noteq> kind then Inl InvalidPayload else decode_payload_body kind bs)"

definition decode_payload :: "byte \<Rightarrow> bytes \<Rightarrow> (media_error, media_payload) result" where
  "decode_payload kind bs = rbind (decode_payload_ref kind bs) (\<lambda>p. Inr (into_owned p))"

definition parse_header :: "bytes \<Rightarrow> (media_error, udp_header \<times> bytes) result" where
  "parse_header bs =
     (if length bs < UDP_HEADER_LEN then Inl TooShort
      else if bs ! 0 \<noteq> UDP_VERSION then Inl (MediaUnsupportedVersion (bs ! 0))
      else if bs ! 1 \<notin> {KIND_BIND, KIND_VOICE, KIND_PING, KIND_PONG, KIND_PEER_VOICE, KIND_NAT_PROBE,
                          KIND_VOICE_FEEDBACK, KIND_PEER_VOICE_FEEDBACK, KIND_VOICE_FEEDBACK_FROM}
      then Inl (UnknownKind (bs ! 1))
      else Inr (\<lparr>uh_version = bs ! 0, uh_kind = bs ! 1, uh_route_id = from_le (subslice 2 6 bs),
                 uh_counter = from_le (subslice 6 14 bs)\<rparr>, drop UDP_HEADER_LEN bs))"

section \<open>The codec is exact\<close>

lemma borrowed_inverse [simp]:
  "into_owned (borrowed p) = p" "borrowed (into_owned r) = r"
  by (cases p; simp add: voice_borrowed_def voice_into_owned_def split: voice_payload.splits)
    (cases r; simp add: voice_borrowed_def voice_into_owned_def split: voice_payload_ref.splits)

lemma payload_kind_borrowed [simp]: "payload_ref_kind (borrowed p) = payload_kind p"
  by (cases p) simp_all

lemma length_encode_voice_feedback [simp]: "length (encode_voice_feedback fb) = 26"
  by (simp add: encode_voice_feedback_def)

lemma decode_encode_feedback: "decode_voice_feedback (encode_voice_feedback fb) = Inr fb"
  by (simp add: decode_voice_feedback_def) (simp add: encode_voice_feedback_def subslice_def)

lemma encode_decode_feedback:
  assumes "decode_voice_feedback bs = Inr fb"
  shows "encode_voice_feedback fb = bs"
proof -
  have len: "length bs = 26" and fb: "fb =
      \<lparr>highest_contiguous_sequence = from_le (subslice 0 4 bs),
                expected_packets = from_le (subslice 4 6 bs), lost_packets = from_le (subslice 6 8 bs),
                late_packets = from_le (subslice 8 10 bs), duplicate_packets = from_le (subslice 10 12 bs),
                reordered_packets = from_le (subslice 12 14 bs), window_ms = from_le (subslice 14 16 bs),
                max_output_ring_ms = from_le (subslice 16 18 bs),
                max_neteq_target_ms = from_le (subslice 18 20 bs),
                max_neteq_playout_delay_ms = from_le (subslice 20 22 bs),
                max_neteq_packet_buffer_ms = from_le (subslice 22 24 bs),
                max_interarrival_jitter_ms = from_le (subslice 24 26 bs)\<rparr>"
    using assms by (auto simp: decode_voice_feedback_def split: if_splits)
  then show ?thesis
    by (simp add: encode_voice_feedback_def to_le_from_le_widths subslice_join del: subslice_0)
      (simp add: subslice_def)
qed

lemma voice_payload_exact:
  "decode_voice_payload_ref bs = Inr v \<longleftrightarrow> encode_voice_payload v = Inr bs"
proof (cases v)
  case SilenceRef
  have "decode_voice_payload_ref bs = Inr SilenceRef \<longleftrightarrow>
      length bs = 3 \<and> bs ! 0 = 1 \<and> unat (from_le (subslice 1 3 bs) :: u16) = 0"
    by (auto simp: decode_voice_payload_ref_def Let_def VOICE_PAYLOAD_OPUS_def VOICE_PAYLOAD_SILENCE_def)
  also have "\<dots> \<longleftrightarrow> bs = [1, 0, 0]"
  proof
    assume a: "length bs = 3 \<and> bs ! 0 = 1 \<and> unat (from_le (subslice 1 3 bs) :: u16) = 0"
    then have "to_le 2 (0 :: u16) = subslice 1 3 bs"
      using to_le_from_le_widths(1) [of "subslice 1 3 bs"] by (simp add: unat_eq_zero)
    then have "subslice 1 3 bs = [0, 0]" by (simp add: to_le_def le_of_nat_numeral)
    with a show "bs = [1, 0, 0]" by (cases bs) (auto simp: subslice_def)
  qed (simp add: from_le_def subslice_def)
  finally show ?thesis
    using SilenceRef by (auto simp: encode_voice_payload_def VOICE_PAYLOAD_SILENCE_def to_le_def le_of_nat_numeral)
next
  case (OpusRef opus)
  have "decode_voice_payload_ref bs = Inr (OpusRef opus) \<longleftrightarrow>
      bs \<noteq> [] \<and> bs ! 0 = 0 \<and> 3 \<le> length bs \<and> opus = drop 3 bs \<and> 0 < length opus \<and> length opus \<le> 1024 \<and>
      unat (from_le (subslice 1 3 bs) :: u16) = length opus"
    by (auto simp: decode_voice_payload_ref_def Let_def VOICE_PAYLOAD_OPUS_def VOICE_PAYLOAD_SILENCE_def
        MAX_VOICE_PAYLOAD_BYTES_def)
  also have "\<dots> \<longleftrightarrow> 0 < length opus \<and> length opus \<le> 1024 \<and> bs = 0 # to_le 2 (of_nat (length opus) :: u16) @ opus"
  proof
    assume a: "bs \<noteq> [] \<and> bs ! 0 = 0 \<and> 3 \<le> length bs \<and> opus = drop 3 bs \<and> 0 < length opus \<and> length opus \<le> 1024 \<and>
      unat (from_le (subslice 1 3 bs) :: u16) = length opus"
    then have "unat (from_le (subslice 1 3 bs) :: u16) = length opus" "length opus \<le> 1024" by auto
    then have w: "(from_le (subslice 1 3 bs) :: u16) = of_nat (length opus)"
      by (simp add: word_unat_eq_iff unat_of_nat_u16)
    have "length (subslice 1 3 bs) = 2" using a by auto
    from to_le_from_le_widths(1) [OF this] have "to_le 2 (of_nat (length opus) :: u16) = subslice 1 3 bs"
      by (simp only: w)
    with a show "0 < length opus \<and> length opus \<le> 1024 \<and> bs = 0 # to_le 2 (of_nat (length opus) :: u16) @ opus"
      by (cases bs) (auto simp: subslice_def)
  next
    assume a: "0 < length opus \<and> length opus \<le> 1024 \<and> bs = 0 # to_le 2 (of_nat (length opus) :: u16) @ opus"
    then show "bs \<noteq> [] \<and> bs ! 0 = 0 \<and> 3 \<le> length bs \<and> opus = drop 3 bs \<and> 0 < length opus \<and> length opus \<le> 1024 \<and>
      unat (from_le (subslice 1 3 bs) :: u16) = length opus"
      by (auto simp: subslice_def unat_of_nat_u16)
  qed
  finally show ?thesis
    using OpusRef by (auto simp: encode_voice_payload_def VOICE_PAYLOAD_OPUS_def MAX_VOICE_PAYLOAD_BYTES_def)
qed

lemma decode_encode_body:
  "encode_payload_body p = Inr bs \<Longrightarrow> decode_payload_body (payload_ref_kind p) bs = Inr p"
proof (cases p)
  case (VoiceRef s q t f v)
  assume "encode_payload_body p = Inr bs"
  then obtain vp where v: "encode_voice_payload v = Inr vp" and bs: "bs = to_le 4 s @ to_le 4 q @ to_le 4 t @ [f] @ vp"
    by (auto simp: VoiceRef rbind_Inr_iff)
  have "3 \<le> length vp" using v by (auto simp: encode_voice_payload_def split: voice_payload_ref.splits if_splits)
  then show ?thesis
    using v by (simp add: VoiceRef decode_payload_body_def kind_defs bs voice_payload_exact [symmetric]
        subslice_def nth_append)
next
  case (PeerVoiceRef c s q t f v)
  assume "encode_payload_body p = Inr bs"
  then obtain vp where v: "encode_voice_payload v = Inr vp"
    and bs: "bs = to_le 8 c @ to_le 4 s @ to_le 4 q @ to_le 4 t @ [f] @ vp"
    by (auto simp: PeerVoiceRef rbind_Inr_iff)
  have "3 \<le> length vp" using v by (auto simp: encode_voice_payload_def split: voice_payload_ref.splits if_splits)
  then show ?thesis
    using v by (simp add: PeerVoiceRef decode_payload_body_def kind_defs bs voice_payload_exact [symmetric]
        subslice_def nth_append)
qed (auto simp: decode_payload_body_def kind_defs subslice_def nth_append decode_encode_feedback split: option.splits)

lemma encode_decode_voice:
  assumes "16 \<le> length bs" and "decode_voice_payload_ref (drop 13 bs) = Inr v"
  shows "encode_payload_body (VoiceRef (from_le (subslice 0 4 bs)) (from_le (subslice 4 8 bs))
           (from_le (subslice 8 12 bs)) (bs ! 12) v) = Inr bs"
proof -
  have "bs ! 12 # drop 13 bs = drop 12 bs" using assms(1) Cons_nth_drop_Suc [of 12 bs] by simp
  then show ?thesis
    using assms by (simp add: voice_payload_exact to_le_from_le_widths subslice_join subslice_to_end del: subslice_0)
qed

lemma encode_decode_peer_voice:
  assumes "24 \<le> length bs" and "decode_voice_payload_ref (drop 21 bs) = Inr v"
  shows "encode_payload_body (PeerVoiceRef (from_le (subslice 0 8 bs)) (from_le (subslice 8 12 bs))
           (from_le (subslice 12 16 bs)) (from_le (subslice 16 20 bs)) (bs ! 20) v) = Inr bs"
proof -
  have "bs ! 20 # drop 21 bs = drop 20 bs" using assms(1) Cons_nth_drop_Suc [of 20 bs] by simp
  then show ?thesis
    using assms by (simp add: voice_payload_exact to_le_from_le_widths subslice_join subslice_to_end del: subslice_0)
qed

lemma encode_decode_ping:
  assumes "length bs = 9 \<and> bs ! 8 = 0 \<and> r = None \<or> length bs = 11 \<and> bs ! 8 = 1 \<and> r = Some (from_le (subslice 9 11 bs))"
  shows "encode_payload_body (PingRef (from_le (subslice 0 8 bs)) r) = Inr bs"
proof -
  have "bs ! 8 # drop 9 bs = drop 8 bs" using assms Cons_nth_drop_Suc [of 8 bs] by auto
  then show ?thesis
    using assms by (auto simp: to_le_from_le_widths subslice_to_end simp del: subslice_0)
qed

lemma encode_decode_body:
  "decode_payload_body kind bs = Inr p \<Longrightarrow> payload_ref_kind p = kind \<and> encode_payload_body p = Inr bs"
  unfolding decode_payload_body_def
  by (auto simp: rbind_Inr_iff Let_def encode_decode_voice encode_decode_peer_voice encode_decode_ping
      dest!: encode_decode_feedback split: if_splits
      simp del: encode_payload_body.simps subslice_0)
    (auto simp: to_le_from_le_widths subslice_join subslice_to_end length_Suc_conv simp del: subslice_0)

lemma payload_ref_exact:
  "decode_payload_ref kind bs = Inr p \<longleftrightarrow> payload_ref_kind p = kind \<and> encode_payload_ref_into p [] = Inr bs"
proof (cases bs)
  case Nil
  then show ?thesis by (auto simp: decode_payload_ref_def encode_payload_ref_into_def rbind_Inr_iff)
next
  case (Cons k body)
  have "decode_payload_body kind body = Inr p \<longleftrightarrow> payload_ref_kind p = kind \<and> encode_payload_body p = Inr body"
    using decode_encode_body encode_decode_body by blast
  then show ?thesis
    by (auto simp: Cons decode_payload_ref_def encode_payload_ref_into_def rbind_Inr_iff)
qed

lemma decode_payload_iff:
  "decode_payload kind bs = Inr p \<longleftrightarrow> payload_kind p = kind \<and> encode_payload p = Inr bs"
proof -
  have "decode_payload kind bs = Inr p \<longleftrightarrow> decode_payload_ref kind bs = Inr (borrowed p)"
    by (auto simp: decode_payload_def rbind_Inr_iff)
  then show ?thesis by (simp add: payload_ref_exact encode_payload_def encode_payload_into_def)
qed

text \<open>
  C11. The payload codec is exact: bytes decode, under a kind, to a payload if and only if they
  are the encoding of that payload and the kind is its own. So every encodable payload is
  recovered, and no two byte strings decode to the same payload.
\<close>

theorem media_payload_exact:
  "decode_payload kind bs = Inr p \<longleftrightarrow> payload_kind p = kind \<and> encode_payload p = Inr bs"
  by (rule decode_payload_iff)

lemma payload_fits: "encode_payload_ref_into p [] = Inr bs \<Longrightarrow> length bs \<le> SAFE_UDP_PAYLOAD_BYTES"
proof -
  have "encode_voice_payload v = Inr vp \<Longrightarrow> length vp \<le> 1027" for v vp
    by (auto simp: encode_voice_payload_def MAX_VOICE_PAYLOAD_BYTES_def split: voice_payload_ref.splits if_splits)
  then show "encode_payload_ref_into p [] = Inr bs \<Longrightarrow> ?thesis"
    by (cases p) (fastforce simp: encode_payload_ref_into_def rbind_Inr_iff SAFE_UDP_PAYLOAD_BYTES_def
        split: option.splits)+
qed

end
