(* ===== verification/Media.thy ===== *)
theory Media
  imports Media_Payload
begin

text \<open>
  Sealing and opening the media datagrams of \<open>crates/rpc/src/media.rs\<close> under a session's
  protection: AEAD, or plaintext with authenticated address claims; the zero-copy variant of
  the opener; and the direct peer-to-peer datagrams. Every opener threads the anti-replay
  window of its sender.
\<close>

section \<open>Definitions\<close>

definition bind_proof_message :: "u32 \<Rightarrow> byte \<Rightarrow> u64 \<Rightarrow> bytes" where
  "bind_proof_message route kind counter =
     ascii_bytes ''chatt media bind proof v1'' @ to_le 4 route @ [kind] @ to_le 8 counter
     @ [wire_id Plaintext]"

definition media_aad :: "bytes \<Rightarrow> bytes" where
  "media_aad packet = CHANNEL_MEDIA # subslice 2 UDP_HEADER_LEN packet"

definition seal_media_ref_into ::
  "crypto_fns \<Rightarrow> media_protection \<Rightarrow> u64 \<Rightarrow> media_payload_ref \<Rightarrow> (media_error, bytes) result" where
  "seal_media_ref_into F protection counter payload =
     (let kind = payload_ref_kind payload in
      rbind (encode_payload_ref_into payload []) (\<lambda>scratch.
      if length scratch > SAFE_UDP_PAYLOAD_BYTES then Inl PayloadTooLarge
      else
        let packet = [UDP_VERSION, kind] @ to_le 4 (protection_route_id protection) @ to_le 8 counter;
            cipher_start = length packet;
            packet = packet @ scratch
        in case protection of
             MediaAead _ send _ \<Rightarrow>
               map_err MediaCrypto
                 (seal_in_place_append_tag (aead_fns.truncate F) send counter (media_aad packet) cipher_start packet)
           | MediaClear _ bkey \<Rightarrow>
               if kind = KIND_BIND
               then Inr (packet @ auth_proof F bkey
                           (bind_proof_message (protection_route_id protection) kind counter))
               else Inr packet))"

definition seal_media_into ::
  "crypto_fns \<Rightarrow> media_protection \<Rightarrow> u64 \<Rightarrow> media_payload \<Rightarrow> (media_error, bytes) result" where
  "seal_media_into F protection counter payload = seal_media_ref_into F protection counter (borrowed payload)"

definition open_media ::
  "crypto_fns \<Rightarrow> media_protection \<Rightarrow> anti_replay \<Rightarrow> bytes \<Rightarrow> (media_error, opened_media) result \<times> anti_replay" where
  "open_media F protection replay bs =
     (case parse_header bs of
        Inl e \<Rightarrow> (Inl e, replay)
      | Inr (header, body) \<Rightarrow>
          if uh_route_id header \<noteq> protection_route_id protection then (Inl (MediaCrypto WrongKeyId), replay)
          else case protection of
            MediaAead _ _ recv \<Rightarrow>
              (case open_in_place_with_aad (aead_fns.truncate F) recv (uh_counter header) (media_aad bs) body of
                 Inl e \<Rightarrow> (Inl (MediaCrypto e), replay)
               | Inr plaintext \<Rightarrow>
                   (case decode_payload (uh_kind header) plaintext of
                      Inl e \<Rightarrow> (Inl e, replay)
                    | Inr payload \<Rightarrow>
                        (case ar_update replay (uh_counter header) of
                           (False, replay') \<Rightarrow> (Inl MediaReplay, replay')
                         | (True, replay') \<Rightarrow>
                             (Inr \<lparr>om_header = header, om_payload = payload,
                                   om_address_proof = AuthenticatedDatagram\<rparr>, replay'))))
          | MediaClear _ bkey \<Rightarrow>
              if uh_kind header = KIND_BIND then
                if length body < AUTH_PROOF_LEN then (Inl InvalidPayload, replay)
                else
                  let split = length body - AUTH_PROOF_LEN;
                      payload_bytes = take split body;
                      proof = drop split body;
                      message = bind_proof_message (uh_route_id header) (uh_kind header) (uh_counter header)
                  in if \<not> auth_proof_verify F bkey message proof
                     then (Inl (MediaCrypto BindProofMismatch), replay)
                     else
                       (case decode_payload (uh_kind header) payload_bytes of
                          Inl e \<Rightarrow> (Inl e, replay)
                        | Inr payload \<Rightarrow>
                            (case ar_update replay (uh_counter header) of
                               (False, replay') \<Rightarrow> (Inl MediaReplay, replay')
                             | (True, replay') \<Rightarrow>
                                 (Inr \<lparr>om_header = header, om_payload = payload,
                                       om_address_proof = AuthenticatedAddressClaim\<rparr>, replay')))
              else
                (rbind (decode_payload (uh_kind header) body) (\<lambda>payload.
                   Inr \<lparr>om_header = header, om_payload = payload, om_address_proof = NoAddressProof\<rparr>),
                 replay))"

definition open_media_in_place ::
  "crypto_fns \<Rightarrow> media_protection \<Rightarrow> anti_replay \<Rightarrow> bytes \<Rightarrow> (media_error, opened_media_ref) result \<times> anti_replay" where
  "open_media_in_place F protection replay bs =
     (case parse_header bs of
        Inl e \<Rightarrow> (Inl e, replay)
      | Inr (header, _) \<Rightarrow>
          if uh_route_id header \<noteq> protection_route_id protection then (Inl (MediaCrypto WrongKeyId), replay)
          else case protection of
            MediaAead _ _ recv \<Rightarrow>
              (let body = drop UDP_HEADER_LEN bs in
               case open_in_place_with_aad (aead_fns.truncate F) recv (uh_counter header) (media_aad bs) body of
                 Inl e \<Rightarrow> (Inl (MediaCrypto e), replay)
               | Inr plaintext \<Rightarrow>
                   (case decode_payload_ref (uh_kind header) plaintext of
                      Inl e \<Rightarrow> (Inl e, replay)
                    | Inr payload \<Rightarrow>
                        (case ar_update replay (uh_counter header) of
                           (False, replay') \<Rightarrow> (Inl MediaReplay, replay')
                         | (True, replay') \<Rightarrow>
                             (Inr \<lparr>or_header = header, or_payload = payload,
                                   or_address_proof = AuthenticatedDatagram\<rparr>, replay'))))
          | MediaClear _ bkey \<Rightarrow>
              (let body = drop UDP_HEADER_LEN bs in
               if uh_kind header = KIND_BIND then
                 if length body < AUTH_PROOF_LEN then (Inl InvalidPayload, replay)
                 else
                   let split = length body - AUTH_PROOF_LEN;
                       payload_bytes = take split body;
                       proof = drop split body;
                       message = bind_proof_message (uh_route_id header) (uh_kind header) (uh_counter header)
                   in if \<not> auth_proof_verify F bkey message proof
                      then (Inl (MediaCrypto BindProofMismatch), replay)
                      else
                        (case decode_payload_ref (uh_kind header) payload_bytes of
                           Inl e \<Rightarrow> (Inl e, replay)
                         | Inr payload \<Rightarrow>
                             (case ar_update replay (uh_counter header) of
                                (False, replay') \<Rightarrow> (Inl MediaReplay, replay')
                              | (True, replay') \<Rightarrow>
                                  (Inr \<lparr>or_header = header, or_payload = payload,
                                        or_address_proof = AuthenticatedAddressClaim\<rparr>, replay')))
               else
                 (rbind (decode_payload_ref (uh_kind header) body) (\<lambda>payload.
                    Inr \<lparr>or_header = header, or_payload = payload, or_address_proof = NoAddressProof\<rparr>),
                  replay)))"

subsection \<open>Peer datagrams\<close>

definition seal_peer_media_into ::
  "crypto_fns \<Rightarrow> key_material \<Rightarrow> u64 \<Rightarrow> media_payload \<Rightarrow> (media_error, bytes) result" where
  "seal_peer_media_into F key counter payload =
     (let kind = payload_kind payload in
      rbind (encode_payload_into payload []) (\<lambda>scratch.
      if length scratch > SAFE_UDP_PAYLOAD_BYTES then Inl PayloadTooLarge
      else
        let packet = [UDP_VERSION, kind] @ to_le 4 (key_id key) @ to_le 8 counter;
            cipher_start = length packet;
            packet = packet @ scratch
        in map_err MediaCrypto
             (seal_in_place_append_tag (aead_fns.truncate F) key counter (media_aad packet) cipher_start packet)))"

definition open_peer_media ::
  "crypto_fns \<Rightarrow> key_material \<Rightarrow> anti_replay \<Rightarrow> bytes
     \<Rightarrow> (media_error, udp_header \<times> media_payload) result \<times> anti_replay" where
  "open_peer_media F key replay bs =
     (case parse_header bs of
        Inl e \<Rightarrow> (Inl e, replay)
      | Inr (header, body) \<Rightarrow>
          if uh_route_id header \<noteq> key_id key then (Inl (MediaCrypto WrongKeyId), replay)
          else
            (case open_in_place_with_aad (aead_fns.truncate F) key (uh_counter header) (media_aad bs) body of
               Inl e \<Rightarrow> (Inl (MediaCrypto e), replay)
             | Inr plaintext \<Rightarrow>
                 (case decode_payload (uh_kind header) plaintext of
                    Inl e \<Rightarrow> (Inl e, replay)
                  | Inr payload \<Rightarrow>
                      (case ar_update replay (uh_counter header) of
                         (False, replay') \<Rightarrow> (Inl MediaReplay, replay')
                       | (True, replay') \<Rightarrow> (Inr (header, payload), replay')))))"

section \<open>Datagram layout\<close>

fun mirror_protection :: "media_protection \<Rightarrow> media_protection" where
  "mirror_protection (MediaAead r s v) = MediaAead r v s"
| "mirror_protection (MediaClear r k) = MediaClear r k"

definition packet_header :: "byte \<Rightarrow> u32 \<Rightarrow> u64 \<Rightarrow> bytes" where
  "packet_header kind route counter = [UDP_VERSION, kind] @ to_le 4 route @ to_le 8 counter"

definition media_kinds :: "byte set" where
  "media_kinds = {KIND_BIND, KIND_VOICE, KIND_PING, KIND_PONG, KIND_PEER_VOICE, KIND_NAT_PROBE,
     KIND_VOICE_FEEDBACK, KIND_PEER_VOICE_FEEDBACK, KIND_VOICE_FEEDBACK_FROM}"

lemma payload_kind_media [simp]: "payload_kind p \<in> media_kinds"
  by (cases p) (simp_all add: media_kinds_def)

lemma length_packet_header [simp]: "length (packet_header kind route counter) = 14"
  by (simp add: packet_header_def)

lemma parse_header_alt:
  "parse_header bs =
     (if length bs < 14 then Inl TooShort
      else if bs ! 0 \<noteq> UDP_VERSION then Inl (MediaUnsupportedVersion (bs ! 0))
      else if bs ! 1 \<notin> media_kinds then Inl (UnknownKind (bs ! 1))
      else Inr (\<lparr>uh_version = bs ! 0, uh_kind = bs ! 1, uh_route_id = from_le (subslice 2 6 bs),
                 uh_counter = from_le (subslice 6 14 bs)\<rparr>, drop 14 bs))"
  by (simp only: parse_header_def media_kinds_def UDP_HEADER_LEN_def)

lemma parse_packet_header:
  assumes "kind \<in> media_kinds"
  shows "parse_header (packet_header kind route counter @ body) =
     Inr (\<lparr>uh_version = UDP_VERSION, uh_kind = kind, uh_route_id = route, uh_counter = counter\<rparr>, body)"
  using assms by (simp add: parse_header_alt) (simp add: packet_header_def subslice_def)

lemma parse_header_layout:
  assumes "parse_header bs = Inr (h, body)"
  shows "bs = packet_header (uh_kind h) (uh_route_id h) (uh_counter h) @ body \<and>
         uh_version h = UDP_VERSION \<and> uh_kind h \<in> media_kinds"
proof -
  from assms have len: "14 \<le> length bs" and v: "bs ! 0 = UDP_VERSION" and k: "bs ! 1 \<in> media_kinds"
    and h: "h = \<lparr>uh_version = bs ! 0, uh_kind = bs ! 1, uh_route_id = from_le (subslice 2 6 bs),
                 uh_counter = from_le (subslice 6 14 bs)\<rparr>" and body: "body = drop 14 bs"
    by (auto simp: parse_header_alt split: if_splits)
  have "packet_header (uh_kind h) (uh_route_id h) (uh_counter h) @ body =
      [bs ! 0, bs ! 1] @ subslice 2 6 bs @ subslice 6 14 bs @ drop 14 bs"
    using len v by (simp add: packet_header_def h body to_le_from_le_widths)
  also have "\<dots> = [bs ! 0, bs ! 1] @ drop 2 bs" by (simp add: subslice_join subslice_to_end)
  also have "\<dots> = bs" using len by (cases bs; cases "tl bs") auto
  finally have layout: "bs = packet_header (uh_kind h) (uh_route_id h) (uh_counter h) @ body" by (rule sym)
  have "uh_version h = UDP_VERSION" "uh_kind h \<in> media_kinds" using v k by (simp_all add: h)
  with layout show ?thesis by blast
qed

lemma media_aad_packet [simp]:
  "media_aad (packet_header kind route counter @ body) = CHANNEL_MEDIA # to_le 4 route @ to_le 8 counter"
  by (simp add: media_aad_def UDP_HEADER_LEN_def subslice_def packet_header_def)

lemma packet_header_fold:
  "UDP_VERSION # kind # to_le 4 route @ to_le 8 counter @ rest = packet_header kind route counter @ rest"
  by (simp add: packet_header_def)

lemma encode_payload_fits: "encode_payload p = Inr plain \<Longrightarrow> length plain \<le> SAFE_UDP_PAYLOAD_BYTES"
  by (auto simp: encode_payload_def encode_payload_into_def intro: payload_fits)

lemma seal_media_aead:
  "seal_media_into F (MediaAead r send recv) counter p = Inr packet \<longleftrightarrow>
     (\<exists>plain c t. encode_payload p = Inr plain \<and> counter < REJECT_AFTER_MESSAGES \<and>
        aead_key_ok (aead_fns.truncate F) (key_bytes send) \<and>
        aead_seal (aead_fns.truncate F) (key_bytes send) (nonce_from_counter counter)
          (CHANNEL_MEDIA # to_le 4 r @ to_le 8 counter) plain = Some (c, t) \<and>
        packet = packet_header (payload_kind p) r counter @ c @ t)"
proof (cases "encode_payload p")
  case (Inl e)
  then have "encode_payload_ref_into (borrowed p) [] = Inl e"
    by (simp add: encode_payload_def encode_payload_into_def)
  then show ?thesis
    using Inl by (simp add: seal_media_into_def seal_media_ref_into_def)
next
  case (Inr plain)
  then have enc: "encode_payload_ref_into (borrowed p) [] = Inr plain"
    by (simp add: encode_payload_def encode_payload_into_def)
  have "seal_media_into F (MediaAead r send recv) counter p =
      map_err MediaCrypto (seal_in_place_append_tag (aead_fns.truncate F) send counter
        (CHANNEL_MEDIA # to_le 4 r @ to_le 8 counter) 14 (packet_header (payload_kind p) r counter @ plain))"
    using encode_payload_fits [OF Inr]
    by (simp add: seal_media_into_def seal_media_ref_into_def enc protection_route_id_def packet_header_fold)
  then show ?thesis
    using Inr by (auto simp: seal_in_place_append_tag_def not_le split: option.splits if_splits)
qed

lemma seal_media_clear:
  "seal_media_into F (MediaClear r k) counter p = Inr packet \<longleftrightarrow>
     (\<exists>plain. encode_payload p = Inr plain \<and>
        packet = packet_header (payload_kind p) r counter @ plain @
          (if payload_kind p = KIND_BIND then auth_proof F k (bind_proof_message r KIND_BIND counter) else []))"
proof (cases "encode_payload p")
  case (Inl e)
  then have "encode_payload_ref_into (borrowed p) [] = Inl e"
    by (simp add: encode_payload_def encode_payload_into_def)
  then show ?thesis
    using Inl by (simp add: seal_media_into_def seal_media_ref_into_def)
next
  case (Inr plain)
  then have enc: "encode_payload_ref_into (borrowed p) [] = Inr plain"
    by (simp add: encode_payload_def encode_payload_into_def)
  with encode_payload_fits [OF Inr] Inr show ?thesis
    by (auto simp: seal_media_into_def seal_media_ref_into_def protection_route_id_def packet_header_fold)
qed

section \<open>Opening is the inverse of sealing\<close>

definition expected_proof :: "media_protection \<Rightarrow> media_payload \<Rightarrow> address_proof" where
  "expected_proof P p =
     (case P of
        MediaAead _ _ _ \<Rightarrow> AuthenticatedDatagram
      | MediaClear _ _ \<Rightarrow> if payload_kind p = KIND_BIND then AuthenticatedAddressClaim else NoAddressProof)"

definition opens_to :: "media_protection \<Rightarrow> u64 \<Rightarrow> media_payload \<Rightarrow> opened_media" where
  "opens_to P counter p =
     \<lparr>om_header = \<lparr>uh_version = UDP_VERSION, uh_kind = payload_kind p, uh_route_id = protection_route_id P,
                    uh_counter = counter\<rparr>,
      om_payload = p, om_address_proof = expected_proof P p\<rparr>"

lemma udp_header_eq:
  "uh_version h = UDP_VERSION \<Longrightarrow>
     h = \<lparr>uh_version = UDP_VERSION, uh_kind = uh_kind h, uh_route_id = uh_route_id h, uh_counter = uh_counter h\<rparr>"
  by (cases h) simp

lemma open_media_aead:
  assumes "aead_correct (aead_fns.truncate F)" and "aead_exact (aead_fns.truncate F)"
  shows "open_media F (MediaAead r s recv) replay bs = (Inr om, replay') \<longleftrightarrow>
     (\<exists>counter p. seal_media_into F (MediaAead r recv s) counter p = Inr bs \<and>
        om = opens_to (MediaAead r s recv) counter p \<and> ar_update replay counter = (True, replay'))"
proof
  assume o: "open_media F (MediaAead r s recv) replay bs = (Inr om, replay')"
  then obtain h body where hb: "parse_header bs = Inr (h, body)"
    by (auto simp: open_media_def split: sum.splits)
  with o obtain plain p where q: "uh_route_id h = r" "uh_counter h < REJECT_AFTER_MESSAGES"
    "aead_key_ok (aead_fns.truncate F) (key_bytes recv)"
    "aead_open (aead_fns.truncate F) (key_bytes recv) (nonce_from_counter (uh_counter h)) (media_aad bs) body = Some plain"
    "decode_payload (uh_kind h) plain = Inr p" "ar_update replay (uh_counter h) = (True, replay')"
    "om = \<lparr>om_header = h, om_payload = p, om_address_proof = AuthenticatedDatagram\<rparr>"
    by (auto simp: open_media_def open_in_place_with_aad_def protection_route_id_def not_le
        split: sum.splits if_splits prod.splits bool.splits)
  note lay = parse_header_layout [OF hb]
  obtain c t where ct: "aead_seal (aead_fns.truncate F) (key_bytes recv) (nonce_from_counter (uh_counter h))
      (media_aad bs) plain = Some (c, t)" "body = c @ t"
    using assms(2) q(4) unfolding aead_exact_def by blast
  have k: "payload_kind p = uh_kind h" "encode_payload p = Inr plain"
    using q(5) by (simp_all add: decode_payload_iff)
  have aad: "media_aad bs = CHANNEL_MEDIA # to_le 4 r @ to_le 8 (uh_counter h)"
    using lay q(1) media_aad_packet by metis
  have "seal_media_into F (MediaAead r recv s) (uh_counter h) p = Inr bs"
    unfolding seal_media_aead using lay k q(1,2,3) ct aad by auto
  moreover have "om = opens_to (MediaAead r s recv) (uh_counter h) p"
    using udp_header_eq [of h] lay q(1,7) k by (simp add: opens_to_def expected_proof_def protection_route_id_def)
  ultimately show "\<exists>counter p. seal_media_into F (MediaAead r recv s) counter p = Inr bs \<and>
      om = opens_to (MediaAead r s recv) counter p \<and> ar_update replay counter = (True, replay')"
    using q(6) by blast
next
  assume "\<exists>counter p. seal_media_into F (MediaAead r recv s) counter p = Inr bs \<and>
      om = opens_to (MediaAead r s recv) counter p \<and> ar_update replay counter = (True, replay')"
  then obtain counter p where w: "seal_media_into F (MediaAead r recv s) counter p = Inr bs"
    "om = opens_to (MediaAead r s recv) counter p" "ar_update replay counter = (True, replay')" by blast
  then obtain plain c t where q: "encode_payload p = Inr plain" "counter < REJECT_AFTER_MESSAGES"
    "aead_key_ok (aead_fns.truncate F) (key_bytes recv)"
    "aead_seal (aead_fns.truncate F) (key_bytes recv) (nonce_from_counter counter)
       (CHANNEL_MEDIA # to_le 4 r @ to_le 8 counter) plain = Some (c, t)"
    "bs = packet_header (payload_kind p) r counter @ c @ t"
    by (auto simp: seal_media_aead)
  have "decode_payload (payload_kind p) plain = Inr p" using q(1) by (simp add: decode_payload_iff)
  moreover have "aead_open (aead_fns.truncate F) (key_bytes recv) (nonce_from_counter counter)
       (CHANNEL_MEDIA # to_le 4 r @ to_le 8 counter) (c @ t) = Some plain"
    using assms(1) q(4) by (simp add: aead_correct_def)
  ultimately show "open_media F (MediaAead r s recv) replay bs = (Inr om, replay')"
    using q(2,3) w(2,3)
    by (simp add: open_media_def q(5) parse_packet_header protection_route_id_def open_in_place_with_aad_def
        opens_to_def expected_proof_def not_le [symmetric])
qed

lemma length_auth_proof: "hmac_is_32 F \<Longrightarrow> length (auth_proof F k m) = AUTH_PROOF_LEN"
  by (simp add: auth_proof_def stun_integrity_def hmac_is_32_def AUTH_PROOF_LEN_def)

lemma open_media_clear:
  assumes "hmac_is_32 F"
  shows "open_media F (MediaClear r k) replay bs = (Inr om, replay') \<longleftrightarrow>
     (\<exists>counter p. seal_media_into F (MediaClear r k) counter p = Inr bs \<and>
        om = opens_to (MediaClear r k) counter p \<and>
        (if payload_kind p = KIND_BIND then ar_update replay counter = (True, replay') else replay' = replay))"
proof
  assume o: "open_media F (MediaClear r k) replay bs = (Inr om, replay')"
  then obtain h body where hb: "parse_header bs = Inr (h, body)"
    by (auto simp: open_media_def split: sum.splits)
  note lay = parse_header_layout [OF hb]
  let ?m = "bind_proof_message r (uh_kind h) (uh_counter h)"
  define plain where "plain = (if uh_kind h = KIND_BIND then take (length body - AUTH_PROOF_LEN) body else body)"
  have q: "uh_route_id h = r \<and> (\<exists>p. decode_payload (uh_kind h) plain = Inr p \<and>
      om = \<lparr>om_header = h, om_payload = p, om_address_proof =
        (if uh_kind h = KIND_BIND then AuthenticatedAddressClaim else NoAddressProof)\<rparr>) \<and>
      (if uh_kind h = KIND_BIND
       then ar_update replay (uh_counter h) = (True, replay') \<and> body = plain @ auth_proof F k ?m
       else replay' = replay \<and> body = plain)"
    using o hb
    by (auto simp: open_media_def protection_route_id_def Let_def plain_def auth_proof_verify_iff [OF assms]
        rbind_Inr_iff split: if_splits sum.splits prod.splits bool.splits) (metis append_take_drop_id)
  then obtain p where p: "decode_payload (uh_kind h) plain = Inr p"
    "om = \<lparr>om_header = h, om_payload = p, om_address_proof =
        (if uh_kind h = KIND_BIND then AuthenticatedAddressClaim else NoAddressProof)\<rparr>" by blast
  have kind: "payload_kind p = uh_kind h" "encode_payload p = Inr plain"
    using p(1) by (simp_all add: decode_payload_iff)
  have "seal_media_into F (MediaClear r k) (uh_counter h) p = Inr bs"
    unfolding seal_media_clear using lay kind q by (auto split: if_splits)
  moreover have "om = opens_to (MediaClear r k) (uh_counter h) p"
    using udp_header_eq [of h] lay q kind by (simp add: p(2) opens_to_def expected_proof_def protection_route_id_def)
  ultimately show "\<exists>counter p. seal_media_into F (MediaClear r k) counter p = Inr bs \<and>
      om = opens_to (MediaClear r k) counter p \<and>
      (if payload_kind p = KIND_BIND then ar_update replay counter = (True, replay') else replay' = replay)"
    using q kind(1) by (metis (full_types))
next
  assume "\<exists>counter p. seal_media_into F (MediaClear r k) counter p = Inr bs \<and>
      om = opens_to (MediaClear r k) counter p \<and>
      (if payload_kind p = KIND_BIND then ar_update replay counter = (True, replay') else replay' = replay)"
  then obtain counter p plain where w: "encode_payload p = Inr plain"
    "bs = packet_header (payload_kind p) r counter @ plain @
      (if payload_kind p = KIND_BIND then auth_proof F k (bind_proof_message r KIND_BIND counter) else [])"
    "om = opens_to (MediaClear r k) counter p"
    "if payload_kind p = KIND_BIND then ar_update replay counter = (True, replay') else replay' = replay"
    by (auto simp: seal_media_clear)
  have "decode_payload (payload_kind p) plain = Inr p" using w(1) by (simp add: decode_payload_iff)
  with w(3,4) show "open_media F (MediaClear r k) replay bs = (Inr om, replay')"
    by (auto simp: open_media_def w(2) parse_packet_header protection_route_id_def opens_to_def expected_proof_def
        length_auth_proof [OF assms] auth_proof_verify_iff [OF assms])
qed

text \<open>
  C12. A media datagram is accepted exactly when the other end sealed it. Opening bytes under a
  protection yields a payload if and only if sealing that payload with that counter under the
  mirrored protection yields those bytes, and, for authenticated datagrams, the counter is
  fresh in the replay window. In plaintext mode this covers the address claims: a \<open>Bind\<close> is
  accepted only with the proof of the session's bind key.
\<close>

theorem media_datagram_exact:
  assumes "aead_correct (aead_fns.truncate F)" and "aead_exact (aead_fns.truncate F)" and "hmac_is_32 F"
  shows "(\<exists>replay'. open_media F P replay bs = (Inr om, replay')) \<longleftrightarrow>
     (\<exists>counter p. seal_media_into F (mirror_protection P) counter p = Inr bs \<and> om = opens_to P counter p \<and>
        (om_address_proof om \<noteq> NoAddressProof \<longrightarrow> ar_check replay counter))"
proof -
  have upd: "(\<exists>replay'. ar_update replay c = (True, replay')) \<longleftrightarrow> ar_check replay c" for c
    by (auto simp: ar_update_def Let_def)
  show ?thesis
  proof (cases P)
    case (MediaAead r s v)
    then show ?thesis
      using upd by (auto simp: open_media_aead [OF assms(1,2)] opens_to_def expected_proof_def)
  next
    case (MediaClear r k)
    have auth: "om_address_proof (opens_to P c p) \<noteq> NoAddressProof \<longleftrightarrow> payload_kind p = KIND_BIND" for c p
      by (simp add: opens_to_def expected_proof_def MediaClear)
    show ?thesis
      unfolding MediaClear open_media_clear [OF assms(3)] mirror_protection.simps
      using upd auth unfolding MediaClear by metis
  qed
qed

theorem media_datagram_exact_witness:
  "\<exists>counter p. seal_media_into demo_fns (MediaClear 5 [9]) counter p =
       Inr ([4, 4, 5, 0, 0, 0] @ to_le 8 (7 :: u64) @ [4] @ to_le 8 (1 :: u64)) \<and>
     opens_to (MediaClear 5 [9]) 7 (Pong 1) = opens_to (MediaClear 5 [9]) counter p"
proof -
  let ?bs = "[4, 4, 5, 0, 0, 0] @ to_le 8 (7 :: u64) @ [4] @ to_le 8 (1 :: u64)"
  have bs: "?bs = packet_header KIND_PONG 5 7 @ [4] @ to_le 8 (1 :: u64)"
    by (simp add: packet_header_def UDP_VERSION_def KIND_PONG_def to_le_def le_of_nat_numeral)
  have "open_media demo_fns (MediaClear 5 [9]) ar_new ?bs = (Inr (opens_to (MediaClear 5 [9]) 7 (Pong 1)), ar_new)"
    unfolding bs
    by (simp add: open_media_def parse_packet_header media_kinds_def protection_route_id_def opens_to_def
        expected_proof_def decode_payload_def decode_payload_ref_def decode_payload_body_def kind_defs)
  then show ?thesis
    using media_datagram_exact [OF demo_fns_ok(4,5,3), of "MediaClear 5 [9]" ar_new ?bs
        "opens_to (MediaClear 5 [9]) 7 (Pong 1)"] by auto
qed

section \<open>Replay protection over a datagram stream\<close>

fun open_media_all :: "crypto_fns \<Rightarrow> media_protection \<Rightarrow> anti_replay \<Rightarrow> bytes list \<Rightarrow> opened_media list" where
  "open_media_all F P replay [] = []"
| "open_media_all F P replay (b # bs) =
     (case open_media F P replay b of
        (Inl e, replay') \<Rightarrow> open_media_all F P replay' bs
      | (Inr om, replay') \<Rightarrow> om # open_media_all F P replay' bs)"

definition authenticated :: "opened_media \<Rightarrow> bool" where
  "authenticated om \<longleftrightarrow> om_address_proof om \<noteq> NoAddressProof"

lemma open_media_step:
  assumes "open_media F P replay b = (r, replay')"
  shows "case r of
      Inl e \<Rightarrow> replay' = replay
    | Inr om \<Rightarrow> if authenticated om then ar_update replay (uh_counter (om_header om)) = (True, replay')
                else replay' = replay"
proof -
  have no: "ar_update replay c = (False, q) \<Longrightarrow> q = replay" for c q
    by (auto simp: ar_update_def Let_def split: if_splits)
  show ?thesis
    using assms
    by (auto simp: open_media_def Let_def rbind_def authenticated_def dest: no
        split: sum.splits prod.splits if_splits bool.splits media_protection.splits)
qed

lemma open_media_all_fresh:
  assumes "ar_rel replay w" and "spec_inv w"
  shows "distinct (map (unat \<circ> uh_counter \<circ> om_header) (filter authenticated (open_media_all F P replay bs))) \<and>
     set (map (unat \<circ> uh_counter \<circ> om_header) (filter authenticated (open_media_all F P replay bs)))
       \<inter> set (seen w) = {}"
  using assms
proof (induction bs arbitrary: replay w)
  case Nil
  then show ?case by simp
next
  case (Cons b bs)
  obtain r replay' where o: "open_media F P replay b = (r, replay')" by fastforce
  show ?case
  proof (cases "\<exists>om. r = Inr om \<and> authenticated om")
    case False
    then have "replay' = replay" using open_media_step [OF o] by (auto split: sum.splits if_splits)
    with False Cons.IH [OF Cons.prems] show ?thesis by (cases r) (auto simp: o)
  next
    case True
    then obtain om where r: "r = Inr om" "authenticated om" by blast
    let ?c = "uh_counter (om_header om)"
    have u: "ar_update replay ?c = (True, replay')" using open_media_step [OF o] r by simp
    from ar_update_spec [OF Cons.prems(1), of ?c] u
    have acc: "spec_accepts w (unat ?c)" and rel: "ar_rel replay' (snd (spec_update w (unat ?c)))"
      by (auto simp: spec_update_def split: if_splits)
    let ?w = "\<lparr>seen = unat ?c # seen w, highest = max (highest w) (unat ?c)\<rparr>"
    have "ar_rel replay' ?w" using rel acc by (simp add: spec_update_def)
    moreover have "spec_inv ?w" using Cons.prems(2) by (auto simp: spec_inv_def)
    moreover have "unat ?c \<notin> set (seen w)"
      using acc Cons.prems(2) by (auto simp: spec_accepts_def spec_inv_def)
    ultimately show ?thesis using Cons.IH [of replay' ?w] r by (auto simp: o)
  qed
qed

text \<open>
  C13. No authenticated datagram is delivered twice. Over any stream of received datagrams,
  replayed, reordered or forged, the authenticated ones that are delivered carry pairwise
  different counters.
\<close>

theorem media_no_replay:
  "distinct (map (uh_counter \<circ> om_header) (filter authenticated (open_media_all F P ar_new bs)))"
proof -
  have "distinct (map (unat \<circ> uh_counter \<circ> om_header) (filter authenticated (open_media_all F P ar_new bs)))"
    using open_media_all_fresh [OF ar_rel_new, of F P bs] by (simp add: spec_inv_def)
  then show ?thesis by (auto simp: distinct_map inj_on_def)
qed

section \<open>The variants agree\<close>

lemma open_in_place_agrees:
  "open_media F P replay bs =
     (case open_media_in_place F P replay bs of
        (Inl e, replay') \<Rightarrow> (Inl e, replay')
      | (Inr om, replay') \<Rightarrow>
          (Inr \<lparr>om_header = or_header om, om_payload = into_owned (or_payload om),
                om_address_proof = or_address_proof om\<rparr>, replay'))"
proof (cases "parse_header bs")
  case (Inl e)
  then show ?thesis by (simp add: open_media_def open_media_in_place_def)
next
  case (Inr hb)
  obtain h body where hb: "hb = (h, body)" by fastforce
  have "body = drop UDP_HEADER_LEN bs"
    using Inr hb by (auto simp: parse_header_alt UDP_HEADER_LEN_def split: if_splits)
  with Inr hb show ?thesis
    by (simp add: open_media_def open_media_in_place_def decode_payload_def rbind_def Let_def
        split: media_protection.splits sum.splits prod.splits bool.splits)
qed

lemma open_in_place_error: "open_media_in_place F P replay bs = (Inl e, replay') \<Longrightarrow> replay' = replay"
  using open_media_step [of F P replay bs "Inl e" replay'] open_in_place_agrees [of F P replay bs] by simp

lemma open_media_sealed:
  assumes "aead_correct (aead_fns.truncate F)" and "aead_exact (aead_fns.truncate F)" and "hmac_is_32 F"
    and "open_media F P replay bs = (Inr om, replay')"
  shows "\<exists>counter p. seal_media_into F (mirror_protection P) counter p = Inr bs \<and> om = opens_to P counter p
     \<and> (om_address_proof om \<noteq> NoAddressProof \<longrightarrow> ar_update replay counter = (True, replay'))"
proof (cases P)
  case (MediaAead r s v)
  then show ?thesis using assms(4) by (auto simp: open_media_aead [OF assms(1,2)])
next
  case (MediaClear r k)
  from assms(4) [unfolded MediaClear open_media_clear [OF assms(3)]] obtain counter p where
    q: "seal_media_into F (MediaClear r k) counter p = Inr bs" "om = opens_to (MediaClear r k) counter p"
    "if payload_kind p = KIND_BIND then ar_update replay counter = (True, replay') else replay' = replay" by blast
  then have "om_address_proof om \<noteq> NoAddressProof \<longrightarrow> ar_update replay counter = (True, replay')"
    by (auto simp: opens_to_def expected_proof_def split: if_splits)
  with q MediaClear show ?thesis by auto
qed

text \<open>
  The zero-copy opener agrees with the copying one on every datagram, in result, error and
  replay state, and peer datagrams are session datagrams routed by the key id.
\<close>

theorem media_variants_agree:
  "open_media F P replay bs =
     (case open_media_in_place F P replay bs of
        (Inl e, replay') \<Rightarrow> (Inl e, replay')
      | (Inr om, replay') \<Rightarrow>
          (Inr \<lparr>om_header = or_header om, om_payload = into_owned (or_payload om),
                om_address_proof = or_address_proof om\<rparr>, replay')) \<and>
   open_peer_media F key replay bs =
     (case open_media F (MediaAead (key_id key) other key) replay bs of
        (Inl e, replay') \<Rightarrow> (Inl e, replay')
      | (Inr om, replay') \<Rightarrow> (Inr (om_header om, om_payload om), replay')) \<and>
   seal_peer_media_into F key counter p = seal_media_into F (MediaAead (key_id key) key other) counter p"
proof (intro conjI)
  show "open_media F P replay bs =
     (case open_media_in_place F P replay bs of
        (Inl e, replay') \<Rightarrow> (Inl e, replay')
      | (Inr om, replay') \<Rightarrow>
          (Inr \<lparr>om_header = or_header om, om_payload = into_owned (or_payload om),
                om_address_proof = or_address_proof om\<rparr>, replay'))"
    by (rule open_in_place_agrees)
  show "open_peer_media F key replay bs =
     (case open_media F (MediaAead (key_id key) other key) replay bs of
        (Inl e, replay') \<Rightarrow> (Inl e, replay')
      | (Inr om, replay') \<Rightarrow> (Inr (om_header om, om_payload om), replay'))"
    by (simp add: open_peer_media_def open_media_def protection_route_id_def
        split: sum.splits prod.splits bool.splits)
  show "seal_peer_media_into F key counter p = seal_media_into F (MediaAead (key_id key) key other) counter p"
    by (cases "encode_payload_ref_into (borrowed p) []")
      (simp_all add: seal_peer_media_into_def seal_media_into_def seal_media_ref_into_def encode_payload_into_def
        protection_route_id_def)
qed

end
