(* ===== verification/Frame.thy ===== *)
theory Frame
  imports Prelude
begin

text \<open>
  Length-prefixed framing of the control and voice TCP lanes
  (\<open>crates/rpc/src/frame.rs\<close>), and the interface \<open>length_framing\<close> that every
  length-prefixed lane of the protocol satisfies. The consequences of that interface (a
  stream of frames parses back whatever way the bytes were cut into reads) are proved once,
  inside the locale, for every lane.
\<close>

section \<open>The interface of a length-prefixed lane\<close>

text \<open>
  \<open>encode p out\<close> appends the frame of \<open>p\<close> to \<open>out\<close>; \<open>parse buf\<close> looks at the
  front of \<open>buf\<close>: an error, \<open>None\<close> when more bytes are needed, or the payload with the
  number of bytes its frame occupies.
\<close>

type_synonym 'e frame_parser = "bytes \<Rightarrow> ('e, (bytes \<times> nat) option) result"

fun drain_frames :: "nat \<Rightarrow> 'e frame_parser \<Rightarrow> bytes \<Rightarrow> bytes list \<times> bytes \<times> 'e option" where
  "drain_frames 0 parse buf = ([], buf, None)"
| "drain_frames (Suc fuel) parse buf =
     (case parse buf of
        Inl e \<Rightarrow> ([], buf, Some e)
      | Inr None \<Rightarrow> ([], buf, None)
      | Inr (Some (p, n)) \<Rightarrow>
          (case drain_frames fuel parse (drop n buf) of (ps, rest, err) \<Rightarrow> (p # ps, rest, err)))"

text \<open>
  \<open>feed_segments\<close> is a connection's life: each read is appended to what the last drain left
  over, and the connection is dropped at the first framing error.
\<close>

fun feed_segments :: "'e frame_parser \<Rightarrow> bytes \<Rightarrow> bytes list \<Rightarrow> bytes list \<times> bytes \<times> 'e option" where
  "feed_segments parse pending [] = ([], pending, None)"
| "feed_segments parse pending (seg # segs) =
     (case drain_frames (Suc (length (pending @ seg))) parse (pending @ seg) of
        (ps, rest, Some e) \<Rightarrow> (ps, rest, Some e)
      | (ps, rest, None) \<Rightarrow>
          (case feed_segments parse rest segs of (qs, rest', err) \<Rightarrow> (ps @ qs, rest', err)))"

locale length_framing =
  fixes encode :: "bytes \<Rightarrow> bytes \<Rightarrow> ('e, bytes) result"
    and parse :: "'e frame_parser"
  assumes encode_appends: "encode p out = Inr out' \<Longrightarrow> \<exists>f. f \<noteq> [] \<and> out' = out @ f \<and> encode p [] = Inr f"
    and parse_encoded: "encode p [] = Inr f \<Longrightarrow> parse (f @ rest) = Inr (Some (p, length f))"
    and parse_partial: "encode p [] = Inr f \<Longrightarrow> k < length f \<Longrightarrow> parse (take k f) = Inr None"
    and parse_sound: "parse buf = Inr (Some (p, n)) \<Longrightarrow> n \<le> length buf \<and> encode p [] = Inr (take n buf)"
    and parse_err_stable: "parse buf = Inl e \<Longrightarrow> parse (buf @ more) = Inl e"
    and parse_nil: "parse [] = Inr None"
begin

lemma encoded_nonempty: "encode p [] = Inr f \<Longrightarrow> f \<noteq> []"
  using encode_appends [of p "[]" f] by auto

lemma parse_consumes: "parse buf = Inr (Some (p, n)) \<Longrightarrow> 0 < n \<and> n \<le> length buf"
  using parse_sound [of buf p n] encoded_nonempty [of p "take n buf"] by auto

lemma parse_extend: "parse buf = Inr (Some (p, n)) \<Longrightarrow> parse (buf @ more) = Inr (Some (p, n))"
proof -
  assume a: "parse buf = Inr (Some (p, n))"
  then have n: "n \<le> length buf" and e: "encode p [] = Inr (take n buf)"
    by (auto dest: parse_sound)
  have "take n buf @ (drop n buf @ more) = buf @ more" by (metis append_assoc append_take_drop_id)
  with parse_encoded [OF e, of "drop n buf @ more"] n show ?thesis by simp
qed

lemma encode_inject: "encode p [] = Inr f \<Longrightarrow> encode q [] = Inr f \<Longrightarrow> p = q"
  using parse_encoded [of p f "[]"] parse_encoded [of q f "[]"] by simp

text \<open>No frame is a proper prefix of another: the lane is self-delimiting.\<close>

lemma encode_prefix_free:
  assumes "encode p [] = Inr f" and "encode q [] = Inr (f @ g)"
  shows "g = []"
proof (rule ccontr)
  assume "g \<noteq> []"
  then have "length f < length (f @ g)" by simp
  from parse_partial [OF assms(2) this] parse_encoded [OF assms(1), of "[]"]
  show False by simp
qed

text \<open>Enough fuel is one unit more than the bytes buffered, and then fuel does not matter.\<close>

lemma drain_fuel:
  "length buf < k \<Longrightarrow> length buf < m \<Longrightarrow> drain_frames k parse buf = drain_frames m parse buf"
proof (induction k arbitrary: buf m)
  case 0
  then show ?case by simp
next
  case (Suc k)
  from Suc.prems obtain m' where m: "m = Suc m'" by (cases m) auto
  show ?case
  proof (cases "parse buf")
    case (Inl e)
    then show ?thesis by (simp add: m)
  next
    case (Inr r)
    show ?thesis
    proof (cases r)
      case None
      then show ?thesis by (simp add: m Inr)
    next
      case (Some a)
      then obtain p n where a: "parse buf = Inr (Some (p, n))"
        using Inr by (cases a) simp
      from parse_consumes [OF this] Suc.prems m
      have "length (drop n buf) < k" and "length (drop n buf) < m'" by auto
      from Suc.IH [OF this] show ?thesis by (simp add: m a)
    qed
  qed
qed

lemma drain_app_err:
  assumes "length buf < k" and "drain_frames k parse buf = (ps, rest, Some e)"
  shows "drain_frames (k + length more) parse (buf @ more) = (ps, rest @ more, Some e)"
  using assms
proof (induction k arbitrary: buf ps)
  case 0
  then show ?case by simp
next
  case (Suc k)
  show ?case
  proof (cases "parse buf")
    case (Inl e')
    then show ?thesis using Suc.prems by (auto simp: parse_err_stable)
  next
    case (Inr r)
    with Suc.prems obtain p n where a: "parse buf = Inr (Some (p, n))"
      by (cases r) (auto split: prod.splits)
    obtain ps' where ps: "ps = p # ps'" and d: "drain_frames k parse (drop n buf) = (ps', rest, Some e)"
      using Suc.prems by (auto simp: a split: prod.splits)
    have n: "n \<le> length buf" "length (drop n buf) < k"
      using parse_consumes [OF a] Suc.prems by auto
    show ?thesis
      using Suc.IH [OF n(2) d] n(1) by (simp add: parse_extend [OF a] ps)
  qed
qed

lemma drain_rest_None:
  assumes "length buf < k" and "drain_frames k parse buf = (ps, rest, None)"
  shows "parse rest = Inr None"
  using assms
proof (induction k arbitrary: buf ps)
  case 0
  then show ?case by simp
next
  case (Suc k)
  then have "parse buf = Inr None \<and> rest = buf \<or> (\<exists>p n ps'. parse buf = Inr (Some (p, n)) \<and>
      drain_frames k parse (drop n buf) = (ps', rest, None))"
    by (auto split: sum.splits option.splits prod.splits)
  then show ?case
  proof (elim disjE exE conjE)
    fix p n ps'
    assume a: "parse buf = Inr (Some (p, n))" and d: "drain_frames k parse (drop n buf) = (ps', rest, None)"
    from parse_consumes [OF a] Suc.prems have "length (drop n buf) < k" by auto
    from Suc.IH [OF this d] show ?thesis by simp
  qed simp
qed

text \<open>
  Segmentation independence. Draining what has arrived and then, with the left-over bytes in
  front of the next read, draining again yields the frames of draining the two reads joined.
\<close>

lemma drain_append:
  assumes "length buf < k" and "drain_frames k parse buf = (ps, rest, None)"
    and "length (rest @ more) < m"
    and "drain_frames m parse (rest @ more) = (qs, rest', err)"
  shows "drain_frames (k + m) parse (buf @ more) = (ps @ qs, rest', err)"
  using assms(1,2)
proof (induction k arbitrary: buf ps)
  case 0
  then show ?case by simp
next
  case (Suc k)
  show ?case
  proof (cases "parse buf = Inr None")
    case True
    with Suc.prems have "ps = []" and "rest = buf" by simp_all
    moreover from \<open>rest = buf\<close> assms(3) have "length (buf @ more) < Suc k + m" by simp
    ultimately show ?thesis
      using assms(3,4) drain_fuel [of "buf @ more" "Suc k + m" m] by simp
  next
    case False
    with Suc.prems obtain p n where a: "parse buf = Inr (Some (p, n))"
      by (auto split: sum.splits option.splits prod.splits)
    obtain ps' where ps: "ps = p # ps'" and d: "drain_frames k parse (drop n buf) = (ps', rest, None)"
      using Suc.prems by (auto simp: a split: prod.splits)
    have n: "n \<le> length buf" "length (drop n buf) < k"
      using parse_consumes [OF a] Suc.prems by auto
    show ?thesis
      using Suc.IH [OF n(2) d] n(1) by (simp add: parse_extend [OF a] ps)
  qed
qed

text \<open>
  However the network cuts a stream, the payloads delivered and the error reported are those
  of the whole stream in one read.
\<close>

lemma feed_segments_whole:
  assumes "parse pending = Inr None"
    and "drain_frames k parse (pending @ concat segs) = (ps, rest, err)"
    and "length (pending @ concat segs) < k"
  shows "\<exists>rest'. feed_segments parse pending segs = (ps, rest', err) \<and> (err = None \<longrightarrow> rest' = rest)"
  using assms
proof (induction segs arbitrary: pending ps k rest err)
  case Nil
  then show ?case by (cases k) auto
next
  case (Cons seg segs)
  let ?buf = "pending @ seg" and ?more = "concat segs"
  have whole: "drain_frames m parse (?buf @ ?more) = (ps, rest, err)" if "length (?buf @ ?more) < m" for m
    using Cons.prems(2,3) drain_fuel [OF that, of k] by simp
  obtain ps1 rest1 err1 where d: "drain_frames (Suc (length ?buf)) parse ?buf = (ps1, rest1, err1)"
    by (metis prod_cases3)
  show ?case
  proof (cases err1)
    case (Some e)
    from d have d1: "drain_frames (Suc (length ?buf)) parse ?buf = (ps1, rest1, Some e)"
      by (simp only: Some)
    have "length (?buf @ ?more) < Suc (length ?buf) + length ?more" by simp
    from trans [OF drain_app_err [OF lessI d1, of ?more, symmetric] whole [OF this]]
    have "(ps1, rest1 @ ?more, Some e) = (ps, rest, err)" .
    moreover have "feed_segments parse pending (seg # segs) = (ps1, rest1, Some e)"
      unfolding feed_segments.simps(2) d1 prod.case option.case ..
    ultimately show ?thesis by auto
  next
    case None
    from d have d1: "drain_frames (Suc (length ?buf)) parse ?buf = (ps1, rest1, None)"
      by (simp only: None)
    let ?m = "Suc (length (rest1 @ ?more))"
    obtain qs rest2 err2 where d2: "drain_frames ?m parse (rest1 @ ?more) = (qs, rest2, err2)"
      by (metis prod_cases3)
    have "length (?buf @ ?more) < Suc (length ?buf) + ?m" by simp
    from trans [OF drain_append [OF lessI d1 lessI d2, symmetric] whole [OF this]]
    have "(ps1 @ qs, rest2, err2) = (ps, rest, err)" .
    moreover obtain rest' where "feed_segments parse rest1 segs = (qs, rest', err2)"
      and "err2 = None \<longrightarrow> rest' = rest2"
      using Cons.IH [OF drain_rest_None [OF lessI d1] d2 lessI] by blast
    moreover from this(1) have "feed_segments parse pending (seg # segs) = (ps1 @ qs, rest', err2)"
      unfolding feed_segments.simps(2) d1 prod.case option.case by (simp only: prod.case)
    ultimately show ?thesis by auto
  qed
qed

text \<open>A stream of encoded frames drains to exactly the payloads that were encoded.\<close>

lemma drain_encoded:
  assumes "list_all2 (\<lambda>p f. encode p [] = Inr f) ps fs"
    and "length (concat fs) < k"
  shows "drain_frames k parse (concat fs) = (ps, [], None)"
  using assms
proof (induction ps fs arbitrary: k rule: list_all2_induct)
  case Nil
  then obtain k' where "k = Suc k'" by (cases k) auto
  then show ?case by (simp add: parse_nil)
next
  case (Cons p ps f fs)
  from Cons.prems obtain k' where k: "k = Suc k'" by (cases k) auto
  have "f \<noteq> []" using Cons.hyps(1) by (rule encoded_nonempty)
  with Cons.prems k have "length (concat fs) < k'" by (cases f) auto
  from Cons.IH [OF this] show ?case
    by (simp add: k parse_encoded [OF Cons.hyps(1)])
qed

end

section \<open>Control frames\<close>

definition MAX_FRAME_LEN :: nat where
  "MAX_FRAME_LEN = 256 * 1024"

definition LENGTH_PREFIX_LEN :: nat where
  "LENGTH_PREFIX_LEN = 4"

datatype frame_error = Frame_Incomplete | Frame_TooLarge | Frame_LengthOverflow

definition encode_frame :: "bytes \<Rightarrow> bytes \<Rightarrow> (frame_error, bytes) result" where
  "encode_frame payload out =
     (if length payload > MAX_FRAME_LEN then Inl Frame_TooLarge
      else if length payload \<ge> 2 ^ 32 then Inl Frame_LengthOverflow
      else Inr (out @ to_le 4 (of_nat (length payload) :: u32) @ payload))"

definition parse_frame_with_limit :: "nat \<Rightarrow> frame_error frame_parser" where
  "parse_frame_with_limit max_frame_len buffer =
     (case get_range 0 LENGTH_PREFIX_LEN buffer of
        None \<Rightarrow> Inr None
      | Some prefix \<Rightarrow>
          let len = unat (from_le prefix :: u32) in
          if len > max_frame_len then Inl Frame_TooLarge
          else
            let total = LENGTH_PREFIX_LEN + len in
            (case get_range LENGTH_PREFIX_LEN total buffer of
               None \<Rightarrow> Inr None
             | Some payload \<Rightarrow> Inr (Some (payload, total))))"

definition parse_frame :: "frame_error frame_parser" where
  "parse_frame buffer = parse_frame_with_limit MAX_FRAME_LEN buffer"

lemmas frame_defs =
  encode_frame_def parse_frame_with_limit_def parse_frame_def LENGTH_PREFIX_LEN_def

text \<open>
  The shape both the control frames and the video records have, for any cap below
  \<open>2 ^ 32\<close>: a four byte little-endian length and then the payload.
\<close>

definition prefixed :: "bytes \<Rightarrow> bytes" where
  "prefixed payload = to_le 4 (of_nat (length payload) :: u32) @ payload"

lemma length_prefixed [simp]: "length (prefixed p) = 4 + length p"
  by (simp add: prefixed_def)

lemma prefixed_nonempty [simp]: "prefixed p \<noteq> []"
  by (metis length_prefixed list.size(3) add_is_0 zero_neq_numeral)

lemma prefixed_len:
  assumes "length p < 2 ^ 32"
  shows "unat (from_le (take 4 (prefixed p @ rest)) :: u32) = length p"
proof -
  have "take 4 (prefixed p @ rest) = to_le 4 (of_nat (length p) :: u32)"
    by (simp add: prefixed_def)
  then show ?thesis using assms by (simp add: unat_of_nat_u32)
qed

lemma prefixed_of_parse:
  assumes "4 + unat (from_le (take 4 buf) :: u32) \<le> length buf"
  shows "prefixed (subslice 4 (4 + unat (from_le (take 4 buf) :: u32)) buf)
       = take (4 + unat (from_le (take 4 buf) :: u32)) buf" (is "prefixed (subslice 4 (4 + ?l) buf) = _")
proof -
  have len: "length (subslice 4 (4 + ?l) buf) = ?l"
    using assms by simp
  have pre: "to_le 4 (of_nat ?l :: u32) = take 4 buf"
    using assms by (simp add: to_le_from_le_widths)
  show ?thesis
    by (simp only: prefixed_def len pre) (rule take_subslice, simp)
qed

lemma parse_frame_with_limit_alt:
  "parse_frame_with_limit cap buf =
     (let len = unat (from_le (take 4 buf) :: u32) in
      if length buf < 4 then Inr None
      else if len > cap then Inl Frame_TooLarge
      else if length buf < 4 + len then Inr None
      else Inr (Some (subslice 4 (4 + len) buf, 4 + len)))"
  by (auto simp: parse_frame_with_limit_def LENGTH_PREFIX_LEN_def get_range_def Let_def)

text \<open>A voice lane encodes with the frame cap and parses with a smaller one of its own.\<close>

definition encode_capped :: "nat \<Rightarrow> bytes \<Rightarrow> bytes \<Rightarrow> (frame_error, bytes) result" where
  "encode_capped cap payload out =
     (if length payload > cap then Inl Frame_TooLarge else encode_frame payload out)"

lemma encode_capped_Inr:
  assumes "cap \<le> MAX_FRAME_LEN"
  shows "encode_capped cap p out = Inr out' \<longleftrightarrow> length p \<le> cap \<and> out' = out @ prefixed p"
  using assms by (auto simp: encode_capped_def encode_frame_def prefixed_def MAX_FRAME_LEN_def)

text \<open>Every lane of this shape is a \<open>length_framing\<close>, whatever its cap and its error value.\<close>

lemma prefixed_framing:
  assumes cap: "cap < 2 ^ 32"
    and enc: "\<And>p out out'. encode p out = Inr out' \<longleftrightarrow> length p \<le> cap \<and> out' = out @ prefixed p"
    and parse: "\<And>buf. parse buf =
       (let len = unat (from_le (take 4 buf) :: u32) in
        if length buf < 4 then Inr None
        else if len > cap then Inl too_large
        else if length buf < 4 + len then Inr None
        else Inr (Some (subslice 4 (4 + len) buf, 4 + len)))"
  shows "length_framing encode parse"
proof
  fix p out out'
  assume "encode p out = Inr out'"
  then show "\<exists>f. f \<noteq> [] \<and> out' = out @ f \<and> encode p [] = Inr f"
    by (auto simp: enc)
next
  fix p f rest
  assume "encode p [] = Inr f"
  then have p: "length p \<le> cap" and f: "f = prefixed p"
    by (simp_all add: enc)
  from p cap have "length p < 2 ^ 32" by simp
  from prefixed_len [OF this, of rest] p
  show "parse (f @ rest) = Inr (Some (p, length f))"
    by (simp add: parse f Let_def) (simp add: prefixed_def subslice_def)
next
  fix p f k
  assume "encode p [] = Inr f" and k: "k < length f"
  then have p: "length p \<le> cap" and f: "f = prefixed p"
    by (simp_all add: enc)
  from p cap have "length p < 2 ^ 32" by simp
  from prefixed_len [OF this, of "[]"]
  have "4 \<le> k \<Longrightarrow> unat (from_le (take 4 (take k f)) :: u32) = length p"
    by (simp add: f min_def)
  then show "parse (take k f) = Inr None"
    using p k by (simp add: parse Let_def f)
next
  fix buf p n
  assume "parse buf = Inr (Some (p, n))"
  then have "4 + unat (from_le (take 4 buf) :: u32) \<le> length buf"
    and "n = 4 + unat (from_le (take 4 buf) :: u32)"
    and "p = subslice 4 n buf" and "unat (from_le (take 4 buf) :: u32) \<le> cap"
    by (auto simp: parse Let_def split: if_splits)
  then show "n \<le> length buf \<and> encode p [] = Inr (take n buf)"
    using prefixed_of_parse [of buf] by (simp add: enc)
next
  fix buf e more
  assume "parse buf = Inl e"
  then show "parse (buf @ more) = Inl e"
    by (auto simp: parse Let_def split: if_splits)
next
  show "parse [] = Inr None"
    by (simp add: parse)
qed

lemma capped_framing:
  assumes cap: "cap \<le> MAX_FRAME_LEN"
  shows "length_framing (encode_capped cap) (parse_frame_with_limit cap)"
  by (rule prefixed_framing [of cap])
    (use cap in \<open>simp_all add: encode_capped_Inr [OF cap] parse_frame_with_limit_alt MAX_FRAME_LEN_def\<close>)

lemma encode_capped_frame: "encode_capped MAX_FRAME_LEN = encode_frame"
  by (intro ext) (simp add: encode_capped_def encode_frame_def)

lemma parse_frame_limit: "parse_frame = parse_frame_with_limit MAX_FRAME_LEN"
  by (intro ext) (simp add: parse_frame_def)

interpretation control_lane: length_framing encode_frame parse_frame
  using capped_framing [of MAX_FRAME_LEN] by (simp add: encode_capped_frame parse_frame_limit)

text \<open>
  C1. The control stream survives any segmentation. Payloads framed one after the other by
  \<open>encode_frame\<close> and cut by the network into arbitrary reads are delivered by the receiver in
  order, each exactly once, with nothing left over and no framing error.
\<close>

theorem control_stream_delivers:
  assumes "list_all2 (\<lambda>p f. encode_frame p [] = Inr f) payloads frames"
    and "concat segments = concat frames"
  shows "feed_segments parse_frame [] segments = (payloads, [], None)"
proof -
  have "drain_frames (Suc (length (concat frames))) parse_frame (concat frames) = (payloads, [], None)"
    using assms(1) by (rule control_lane.drain_encoded) simp
  then show ?thesis
    using control_lane.feed_segments_whole [of "[]" "Suc (length (concat frames))" segments payloads "[]" None]
      control_lane.parse_nil assms(2) by (simp del: drain_frames.simps)
qed

theorem control_stream_delivers_witness:
  "feed_segments parse_frame [] [[2, 0], [0, 0, 7], [8, 0, 0, 0, 0]] = ([[7, 8], []], [], None)"
  by (rule control_stream_delivers [of _ "[[2, 0, 0, 0, 7, 8], [0, 0, 0, 0]]"])
    (simp_all add: encode_frame_def MAX_FRAME_LEN_def to_le_def le_of_nat_numeral)

end
