(* ===== verification/Buffers.thy ===== *)
theory Buffers
  imports Frame
begin

text \<open>
  The byte queues between the sockets and the codecs: the receive buffer
  (\<open>crates/rpc/src/recv.rs\<close>), the outbound queue and the bounded read and write pumps
  (\<open>crates/rpc/src/evented.rs\<close>). Both queues keep a vector and a cursor into it; the locale
  \<open>byte_fifo\<close> is the contract a caller sees, a first-in first-out sequence of bytes, and
  both are interpretations of it.

  A socket is a parameter: \<open>recv env n\<close> is one \<open>recv_into\<close> call with room for \<open>n\<close>
  bytes, \<open>send env bs\<close> one \<open>write\<close> call, each with the new state of the environment.
  Spare capacity of a vector is not modelled: it decides when the allocator runs, not what
  the buffer holds.
\<close>

section \<open>Definitions\<close>

datatype io_error = WouldBlock | Interrupted | InvalidData | OtherIo nat

type_synonym 'env recv_fun = "'env \<Rightarrow> nat \<Rightarrow> (io_error, bytes) result \<times> 'env"
type_synonym 'env send_fun = "'env \<Rightarrow> bytes \<Rightarrow> (io_error, nat) result \<times> 'env"

subsection \<open>The receive buffer\<close>

record recv_buffer =
  rb_buf :: bytes
  rb_start :: nat

definition rb_new :: recv_buffer where
  "rb_new = \<lparr>rb_buf = [], rb_start = 0\<rparr>"

definition rb_pending :: "recv_buffer \<Rightarrow> bytes" where
  "rb_pending b = drop (rb_start b) (rb_buf b)"

definition rb_len :: "recv_buffer \<Rightarrow> nat" where
  "rb_len b = length (rb_buf b) - rb_start b"

definition rb_is_empty :: "recv_buffer \<Rightarrow> bool" where
  "rb_is_empty b \<longleftrightarrow> rb_start b = length (rb_buf b)"

definition rb_consume :: "nat \<Rightarrow> recv_buffer \<Rightarrow> recv_buffer" where
  "rb_consume n b =
     (let start = rb_start b + n in
      if start = length (rb_buf b) then \<lparr>rb_buf = [], rb_start = 0\<rparr>
      else b\<lparr>rb_start := start\<rparr>)"

text \<open>
  \<open>fill_with\<close> moves a partial frame to the front before it calls \<open>receive\<close>, so also a
  failing receive leaves the buffer compacted. The bytes of \<open>r\<close> are what the receive
  operation wrote into the spare capacity.
\<close>

definition rb_fill_with :: "recv_buffer \<Rightarrow> nat \<Rightarrow> (io_error, bytes) result
    \<Rightarrow> (io_error, nat) result \<times> recv_buffer" where
  "rb_fill_with b max_read r =
     (let b1 = (if rb_start b > 0
                then \<lparr>rb_buf = drop (rb_start b) (rb_buf b), rb_start = 0\<rparr>
                else b)
      in case r of
           Inl e \<Rightarrow> (Inl e, b1)
         | Inr bs \<Rightarrow>
             if length bs > max_read then (Inl InvalidData, b1)
             else (Inr (length bs), b1\<lparr>rb_buf := rb_buf b1 @ bs\<rparr>))"

partial_function (option) recv_retry ::
  "'env recv_fun \<Rightarrow> 'env \<Rightarrow> nat \<Rightarrow> ((io_error, bytes) result \<times> 'env) option" where
  "recv_retry recv env n =
     (let (r, env') = recv env n in
      if r = Inl Interrupted then recv_retry recv env' n else Some (r, env'))"

declare recv_retry.simps [code]

definition rb_fill :: "'env recv_fun \<Rightarrow> 'env \<Rightarrow> recv_buffer \<Rightarrow> nat
    \<Rightarrow> ((io_error, nat) result \<times> recv_buffer \<times> 'env) option" where
  "rb_fill recv env b max_read =
     (case recv_retry recv env max_read of
        None \<Rightarrow> None
      | Some (r, env') \<Rightarrow>
          (case rb_fill_with b max_read r of (res, b') \<Rightarrow> Some (res, b', env')))"

text \<open>\<open>ship\<close>: the inner \<open>None\<close> is the panic of \<open>drain\<close> past the end.\<close>

definition rb_ship :: "recv_buffer \<Rightarrow> nat \<Rightarrow> nat \<Rightarrow> (bytes \<times> recv_buffer) option" where
  "rb_ship b discard_front keep =
     (let buf = take (rb_start b + discard_front + keep) (rb_buf b);
          front = rb_start b + discard_front
      in if front > length buf then None
         else Some (drop front buf, \<lparr>rb_buf = [], rb_start = 0\<rparr>))"

subsection \<open>The read pump\<close>

datatype read_limit = ByteBudget nat | MaxBuffered nat

record read_pump_outcome =
  bytes_read :: nat
  hit_limit :: bool
  disconnected :: bool

definition read_limit_allows_read :: "read_limit \<Rightarrow> recv_buffer \<Rightarrow> nat \<Rightarrow> bool" where
  "read_limit_allows_read limit b n =
     (case limit of ByteBudget k \<Rightarrow> n < k | MaxBuffered k \<Rightarrow> rb_len b < k)"

definition read_limit_remaining :: "read_limit \<Rightarrow> recv_buffer \<Rightarrow> nat \<Rightarrow> nat" where
  "read_limit_remaining limit b n =
     (case limit of ByteBudget k \<Rightarrow> k - n | MaxBuffered k \<Rightarrow> k - rb_len b)"

definition read_limit_hit :: "read_limit \<Rightarrow> recv_buffer \<Rightarrow> nat \<Rightarrow> bool" where
  "read_limit_hit limit b n = (\<not> read_limit_allows_read limit b n)"

type_synonym 'env pump_result =
  "((io_error, read_pump_outcome) result \<times> recv_buffer \<times> bool \<times> 'env) option"

lemma rb_fill_len:
  assumes "rb_fill recv env b m = Some (Inr k, b', env')"
  shows "rb_len b' = rb_len b + k \<and> k \<le> m"
  using assms
  by (auto simp: rb_fill_def rb_fill_with_def rb_len_def Let_def
      split: option.splits prod.splits sum.splits if_splits)

text \<open>
  The loop of \<open>read_into_buffer\<close>. The Boolean is the retained readiness; the loop ends
  because a read that is neither an error nor the end of the stream brings at least one byte
  and the limit is finite.
\<close>

function read_loop :: "'env recv_fun \<Rightarrow> nat \<Rightarrow> read_limit \<Rightarrow> 'env \<Rightarrow> recv_buffer \<Rightarrow> bool
    \<Rightarrow> read_pump_outcome \<Rightarrow> 'env pump_result" where
  "read_loop recv m limit env b ready out =
     (if ready \<and> read_limit_allows_read limit b (bytes_read out) then
        (case rb_fill recv env b (min m (read_limit_remaining limit b (bytes_read out))) of
           None \<Rightarrow> None
         | Some (Inl e, b', env') \<Rightarrow>
             if e = WouldBlock then Some (Inr out, b', False, env')
             else Some (Inl e, b', ready, env')
         | Some (Inr n, b', env') \<Rightarrow>
             if n = 0 then Some (Inr (out\<lparr>disconnected := True\<rparr>), b', False, env')
             else
               let out' = out\<lparr>bytes_read := bytes_read out + n\<rparr> in
               if read_limit_hit limit b' (bytes_read out')
               then Some (Inr (out'\<lparr>hit_limit := True\<rparr>), b', ready, env')
               else read_loop recv m limit env' b' ready out')
      else Some (Inr out, b, ready, env))"
  by pat_completeness auto
termination
  by (relation "measure (\<lambda>(recv, m, limit, env, b, ready, out).
        case limit of ByteBudget k \<Rightarrow> k - bytes_read out | MaxBuffered k \<Rightarrow> k - rb_len b)")
     (auto simp: read_limit_allows_read_def read_limit_hit_def dest!: rb_fill_len split: read_limit.splits)

declare read_loop.simps [simp del]

definition read_into_buffer :: "'env recv_fun \<Rightarrow> 'env \<Rightarrow> recv_buffer \<Rightarrow> bool \<Rightarrow> nat \<Rightarrow> read_limit
    \<Rightarrow> 'env pump_result" where
  "read_into_buffer recv env b ready m limit =
     (case read_loop recv m limit env b ready
             \<lparr>bytes_read = 0, hit_limit = False, disconnected = False\<rparr> of
        Some (Inr out, b', ready', env') \<Rightarrow>
          let out' = (if ready' \<and> \<not> read_limit_allows_read limit b' (bytes_read out)
                      then out\<lparr>hit_limit := True\<rparr> else out)
          in Some (Inr out', b', ready', env')
      | r \<Rightarrow> r)"

subsection \<open>The outbound queue and the write pump\<close>

definition WRITE_QUEUE_COMPACT_BYTES :: nat where
  "WRITE_QUEUE_COMPACT_BYTES = 64 * 1024"

record write_queue =
  wq_buf :: bytes
  wq_start :: nat

definition wq_new :: write_queue where
  "wq_new = \<lparr>wq_buf = [], wq_start = 0\<rparr>"

definition wq_pending :: "write_queue \<Rightarrow> bytes" where
  "wq_pending q = drop (wq_start q) (wq_buf q)"

definition wq_len :: "write_queue \<Rightarrow> nat" where
  "wq_len q = length (wq_buf q) - wq_start q"

definition wq_is_empty :: "write_queue \<Rightarrow> bool" where
  "wq_is_empty q \<longleftrightarrow> wq_start q = length (wq_buf q)"

definition wq_tail_append :: "bytes \<Rightarrow> write_queue \<Rightarrow> write_queue" where
  "wq_tail_append bs q = q\<lparr>wq_buf := wq_buf q @ bs\<rparr>"

definition wq_clear :: "write_queue \<Rightarrow> write_queue" where
  "wq_clear q = q\<lparr>wq_buf := [], wq_start := 0\<rparr>"

definition wq_consume :: "nat \<Rightarrow> write_queue \<Rightarrow> write_queue" where
  "wq_consume n q =
     (let q1 = q\<lparr>wq_start := wq_start q + n\<rparr> in
      if wq_start q1 = length (wq_buf q1) then wq_clear q1
      else if wq_start q1 \<ge> WRITE_QUEUE_COMPACT_BYTES \<and> wq_start q1 \<ge> wq_len q1
      then q1\<lparr>wq_buf := drop (wq_start q1) (wq_buf q1), wq_start := 0\<rparr>
      else q1)"

record write_pump_outcome =
  bytes_written :: nat
  attempts :: nat
  wp_hit_limit :: bool
  blocked :: bool
  wrote_zero :: bool

fun write_loop :: "nat \<Rightarrow> 'env send_fun \<Rightarrow> 'env \<Rightarrow> write_queue \<Rightarrow> write_pump_outcome
    \<Rightarrow> (io_error, write_pump_outcome) result \<times> write_queue \<times> 'env" where
  "write_loop 0 send env q out = (Inr out, q, env)"
| "write_loop (Suc left) send env q out =
     (if wq_is_empty q then (Inr out, q, env)
      else
        let out = out\<lparr>attempts := attempts out + 1\<rparr> in
        (case send env (wq_pending q) of (r, env') \<Rightarrow>
           (case r of
              Inr n \<Rightarrow>
                if n = 0 then (Inr (out\<lparr>wrote_zero := True\<rparr>), q, env')
                else write_loop left send env' (wq_consume n q)
                       (out\<lparr>bytes_written := bytes_written out + n\<rparr>)
            | Inl e \<Rightarrow>
                if e = WouldBlock then (Inr (out\<lparr>blocked := True\<rparr>), q, env')
                else if e = Interrupted then write_loop left send env' q out
                else (Inl e, q, env'))))"

definition write_queue_to :: "'env send_fun \<Rightarrow> 'env \<Rightarrow> write_queue \<Rightarrow> nat
    \<Rightarrow> (io_error, write_pump_outcome) result \<times> write_queue \<times> 'env" where
  "write_queue_to send env q max_attempts =
     (case write_loop max_attempts send env q
             \<lparr>bytes_written = 0, attempts = 0, wp_hit_limit = False, blocked = False, wrote_zero = False\<rparr> of
        (Inr out, q', env') \<Rightarrow>
          (Inr (out\<lparr>wp_hit_limit :=
                  \<not> wq_is_empty q' \<and> attempts out = max_attempts \<and> \<not> blocked out \<and> \<not> wrote_zero out\<rparr>),
           q', env')
      | (Inl e, q', env') \<Rightarrow> (Inl e, q', env'))"

text \<open>The readiness summary of one poll event.\<close>

record mio_ready =
  readable :: bool
  writable :: bool
  error :: bool
  read_closed :: bool
  write_closed :: bool

definition readable_like :: "mio_ready \<Rightarrow> bool" where
  "readable_like r \<longleftrightarrow> readable r \<or> error r \<or> read_closed r"

definition writable_like :: "mio_ready \<Rightarrow> bool" where
  "writable_like r \<longleftrightarrow> writable r \<or> error r \<or> write_closed r"

text \<open>One datagram receive: interrupted calls are retried, a would-block is \<open>None\<close>.\<close>

partial_function (option) recv_datagram_with ::
  "('env \<Rightarrow> (io_error, 'd) result \<times> 'env) \<Rightarrow> 'env
     \<Rightarrow> ((io_error, 'd option) result \<times> 'env) option" where
  "recv_datagram_with recv env =
     (let (r, env') = recv env in
      if r = Inl Interrupted then recv_datagram_with recv env'
      else if r = Inl WouldBlock then Some (Inr None, env')
      else Some (map_sum id Some r, env'))"


section \<open>Both queues are byte FIFOs\<close>

text \<open>
  The abstract queue is the list of bytes not yet consumed. An operation appends at the back
  or drops from the front; \<open>fifo_ok\<close> says a run never drops more than there is, which is
  what the \<open>debug_assert!\<close> in both \<open>consume\<close> methods demands of the caller.
\<close>

datatype fifo_op = Push bytes | Pop nat

fun fifo_spec :: "bytes \<Rightarrow> fifo_op \<Rightarrow> bytes" where
  "fifo_spec xs (Push bs) = xs @ bs"
| "fifo_spec xs (Pop n) = drop n xs"

fun fifo_ok :: "bytes \<Rightarrow> fifo_op list \<Rightarrow> bool" where
  "fifo_ok xs [] = True"
| "fifo_ok xs (Push bs # ops) = fifo_ok (xs @ bs) ops"
| "fifo_ok xs (Pop n # ops) = (n \<le> length xs \<and> fifo_ok (drop n xs) ops)"

fun fifo_step :: "(bytes \<Rightarrow> 'q \<Rightarrow> 'q) \<Rightarrow> (nat \<Rightarrow> 'q \<Rightarrow> 'q) \<Rightarrow> 'q \<Rightarrow> fifo_op \<Rightarrow> 'q" where
  "fifo_step push pop q (Push bs) = push bs q"
| "fifo_step push pop q (Pop n) = pop n q"

locale byte_fifo =
  fixes invar :: "'q \<Rightarrow> bool"
    and pending :: "'q \<Rightarrow> bytes"
    and len :: "'q \<Rightarrow> nat"
    and is_empty :: "'q \<Rightarrow> bool"
    and push :: "bytes \<Rightarrow> 'q \<Rightarrow> 'q"
    and pop :: "nat \<Rightarrow> 'q \<Rightarrow> 'q"
    and fresh :: 'q
  assumes invar_fresh: "invar fresh"
    and pending_fresh: "pending fresh = []"
    and invar_push: "invar q \<Longrightarrow> invar (push bs q)"
    and pending_push: "invar q \<Longrightarrow> pending (push bs q) = pending q @ bs"
    and invar_pop: "invar q \<Longrightarrow> n \<le> length (pending q) \<Longrightarrow> invar (pop n q)"
    and pending_pop: "invar q \<Longrightarrow> n \<le> length (pending q) \<Longrightarrow> pending (pop n q) = drop n (pending q)"
    and len_pending: "invar q \<Longrightarrow> len q = length (pending q)"
    and is_empty_pending: "invar q \<Longrightarrow> is_empty q \<longleftrightarrow> pending q = []"
begin

lemma run_refines:
  assumes "invar q" and "fifo_ok (pending q) ops"
  shows "invar (foldl (fifo_step push pop) q ops) \<and>
         pending (foldl (fifo_step push pop) q ops) = foldl fifo_spec (pending q) ops"
  using assms
proof (induction ops arbitrary: q)
  case Nil
  then show ?case by simp
next
  case (Cons op ops)
  show ?case
  proof (cases op)
    case (Push bs)
    with Cons show ?thesis by (simp add: invar_push pending_push)
  next
    case (Pop n)
    with Cons show ?thesis by (simp add: invar_pop pending_pop)
  qed
qed

lemma run_fresh:
  assumes "fifo_ok [] ops"
  shows "pending (foldl (fifo_step push pop) fresh ops) = foldl fifo_spec [] ops
       \<and> len (foldl (fifo_step push pop) fresh ops) = length (foldl fifo_spec [] ops)"
  using run_refines [OF invar_fresh, of ops] assms by (simp add: pending_fresh len_pending)

end

definition rb_inv :: "recv_buffer \<Rightarrow> bool" where
  "rb_inv b \<longleftrightarrow> rb_start b \<le> length (rb_buf b)"

definition rb_push :: "bytes \<Rightarrow> recv_buffer \<Rightarrow> recv_buffer" where
  "rb_push bs b = snd (rb_fill_with b (length bs) (Inr bs))"

definition wq_inv :: "write_queue \<Rightarrow> bool" where
  "wq_inv q \<longleftrightarrow> wq_start q \<le> length (wq_buf q)"

lemmas rb_defs = rb_inv_def rb_new_def rb_pending_def rb_len_def rb_is_empty_def rb_consume_def
  rb_push_def rb_fill_with_def
lemmas wq_defs = wq_inv_def wq_new_def wq_pending_def wq_len_def wq_is_empty_def wq_consume_def
  wq_tail_append_def wq_clear_def

interpretation rb: byte_fifo rb_inv rb_pending rb_len rb_is_empty rb_push rb_consume rb_new
  by unfold_locales (auto simp: rb_defs Let_def add.commute)

interpretation wq: byte_fifo wq_inv wq_pending wq_len wq_is_empty wq_tail_append wq_consume wq_new
  by unfold_locales (auto simp: wq_defs Let_def add.commute)

lemma rb_fill_with_pending:
  assumes "rb_fill_with b m r = (res, b')"
  shows "rb_pending b' = rb_pending b @ (case (res, r) of (Inr _, Inr bs) \<Rightarrow> bs | _ \<Rightarrow> [])"
    and "rb_inv b \<Longrightarrow> rb_inv b'"
  using assms by (auto simp: rb_defs Let_def split: sum.splits if_splits)


section \<open>The read pump\<close>

text \<open>What the socket hands out: the bytes of successive successful receives, none of them empty.\<close>

inductive receives :: "'env recv_fun \<Rightarrow> 'env \<Rightarrow> bytes \<Rightarrow> 'env \<Rightarrow> bool" for recv where
  received_none: "receives recv env [] env"
| received_more: "recv_retry recv env n = Some (Inr bs, env1) \<Longrightarrow> bs \<noteq> [] \<Longrightarrow> receives recv env1 data env2 \<Longrightarrow>
    receives recv env (bs @ data) env2"

lemma rb_fill_Inr:
  assumes "rb_fill recv env b m = Some (Inr n, b', env')"
  obtains bs where "recv_retry recv env m = Some (Inr bs, env')" "n = length bs" "rb_pending b' = rb_pending b @ bs"
proof -
  from assms obtain r where r: "recv_retry recv env m = Some (r, env')" "rb_fill_with b m r = (Inr n, b')"
    by (auto simp: rb_fill_def split: option.splits prod.splits)
  from r(2) obtain bs where "r = Inr bs" "n = length bs"
    by (auto simp: rb_fill_with_def Let_def split: sum.splits if_splits)
  with r(1) rb_fill_with_pending(1) [OF r(2)] show thesis using that by simp
qed

lemma rb_fill_Inl:
  assumes "rb_fill recv env b m = Some (Inl e, b', env')"
  shows "rb_pending b' = rb_pending b" and "e = WouldBlock \<Longrightarrow> recv_retry recv env m = Some (Inl WouldBlock, env')"
proof -
  from assms obtain r where r: "recv_retry recv env m = Some (r, env')" "rb_fill_with b m r = (Inl e, b')"
    by (auto simp: rb_fill_def split: option.splits prod.splits)
  show "rb_pending b' = rb_pending b" using rb_fill_with_pending(1) [OF r(2)] by (simp split: sum.splits)
  show "recv_retry recv env m = Some (Inl WouldBlock, env')" if "e = WouldBlock"
    using r that by (auto simp: rb_fill_with_def Let_def split: sum.splits if_splits)
qed

text \<open>
  How a run of the pump may end. It has appended what the socket handed out; it then stopped at its limit
  with the readiness kept, or the socket's very next answer was that it would block or that the stream
  has ended, which cleared the readiness.
\<close>

definition limit_reached :: "read_limit \<Rightarrow> recv_buffer \<Rightarrow> nat \<Rightarrow> bool" where
  "limit_reached limit b n \<longleftrightarrow> (case limit of ByteBudget k \<Rightarrow> k \<le> n | MaxBuffered k \<Rightarrow> k \<le> length (rb_pending b))"

lemma limit_reached_allows: "limit_reached limit b n \<longleftrightarrow> \<not> read_limit_allows_read limit b n"
  by (auto simp: limit_reached_def read_limit_allows_read_def rb_len_def rb_pending_def split: read_limit.split)

definition pump_end :: "'env recv_fun \<Rightarrow> bool \<Rightarrow> bool \<Rightarrow> bool \<Rightarrow> 'env \<Rightarrow> 'env \<Rightarrow> bool" where
  "pump_end recv stopped ready' gone env1 env' \<longleftrightarrow>
     (if stopped then ready' \<and> \<not> gone \<and> env' = env1
      else \<not> ready' \<and>
        (\<exists>n. recv_retry recv env1 n = Some (if gone then Inr [] else Inl WouldBlock, env')))"

definition pump_run :: "'env recv_fun \<Rightarrow> read_limit \<Rightarrow> 'env \<Rightarrow> recv_buffer \<Rightarrow> read_pump_outcome
    \<Rightarrow> 'env \<Rightarrow> recv_buffer \<Rightarrow> bool \<Rightarrow> read_pump_outcome \<Rightarrow> bool" where
  "pump_run recv limit env b out env' b' ready' out' \<longleftrightarrow>
     (\<exists>data env1. receives recv env data env1 \<and> rb_pending b' = rb_pending b @ data \<and>
        bytes_read out' = bytes_read out + length data \<and>
        pump_end recv (limit_reached limit b' (bytes_read out')) ready' (disconnected out') env1 env') \<and>
     (hit_limit out' \<longrightarrow> ready') \<and>
     (case limit of ByteBudget k \<Rightarrow> bytes_read out' \<le> max k (bytes_read out)
                  | MaxBuffered k \<Rightarrow> rb_len b' \<le> max k (rb_len b))"

lemma pump_run_none:
  assumes "rb_pending b' = rb_pending b" and "bytes_read out' = bytes_read out" and "hit_limit out' \<longrightarrow> ready'"
    and "pump_end recv (limit_reached limit b' (bytes_read out)) ready' (disconnected out') env env'"
  shows "pump_run recv limit env b out env' b' ready' out'"
proof -
  have "rb_len b' = rb_len b" using assms(1) by (metis length_drop rb_len_def rb_pending_def)
  moreover have "\<exists>data env1. receives recv env data env1 \<and> rb_pending b' = rb_pending b @ data \<and>
      bytes_read out' = bytes_read out + length data \<and>
      pump_end recv (limit_reached limit b' (bytes_read out')) ready' (disconnected out') env1 env'"
    using assms(1,2,4) received_none by (intro exI [of _ "[]"] exI [of _ env]) simp
  ultimately show ?thesis using assms(2,3) unfolding pump_run_def by (simp split: read_limit.split)
qed

lemma pump_run_more:
  assumes "recv_retry recv env n = Some (Inr data, env1)" and "data \<noteq> []"
    and "rb_pending b1 = rb_pending b @ data" and "bytes_read out1 = bytes_read out + length data"
    and "case limit of ByteBudget k \<Rightarrow> bytes_read out1 \<le> k | MaxBuffered k \<Rightarrow> rb_len b1 \<le> k"
    and "pump_run recv limit env1 b1 out1 env' b' ready' out'"
  shows "pump_run recv limit env b out env' b' ready' out'"
proof -
  from assms(6) obtain rest env2 where r: "receives recv env1 rest env2" "rb_pending b' = rb_pending b1 @ rest"
      "bytes_read out' = bytes_read out1 + length rest"
      "pump_end recv (limit_reached limit b' (bytes_read out')) ready' (disconnected out') env2 env'"
    unfolding pump_run_def by blast
  have "receives recv env (data @ rest) env2" using received_more [OF assms(1,2) r(1)] .
  moreover have "rb_pending b' = rb_pending b @ (data @ rest)" "bytes_read out' = bytes_read out + length (data @ rest)"
    using r(2,3) assms(3,4) by simp_all
  moreover have "hit_limit out' \<longrightarrow> ready'" using assms(6) by (simp add: pump_run_def)
  moreover have "case limit of ByteBudget k \<Rightarrow> bytes_read out' \<le> max k (bytes_read out) | MaxBuffered k \<Rightarrow> rb_len b' \<le> max k (rb_len b)"
    using assms(5,6) by (auto simp: pump_run_def split: read_limit.splits)
  ultimately show ?thesis using r(4) unfolding pump_run_def by blast
qed

text \<open>One unfolding of the loop, on each side of its guard.\<close>

lemma read_loop_stop:
  "\<not> (ready \<and> read_limit_allows_read limit b (bytes_read out)) \<Longrightarrow>
   read_loop recv m limit env b ready out = Some (Inr out, b, ready, env)"
  by (subst read_loop.simps) auto

lemma read_loop_go:
  assumes "read_limit_allows_read limit b (bytes_read out)"
    and "rb_fill recv env b (min m (read_limit_remaining limit b (bytes_read out))) = Some (res, b', env')"
  shows "res = Inl WouldBlock \<Longrightarrow>
           read_loop recv m limit env b True out = Some (Inr out, b', False, env')"
    and "res = Inl e \<Longrightarrow> e \<noteq> WouldBlock \<Longrightarrow>
           read_loop recv m limit env b True out = Some (Inl e, b', True, env')"
    and "res = Inr 0 \<Longrightarrow>
           read_loop recv m limit env b True out = Some (Inr (out\<lparr>disconnected := True\<rparr>), b', False, env')"
    and "res = Inr n \<Longrightarrow> 0 < n \<Longrightarrow> read_limit_hit limit b' (bytes_read out + n) \<Longrightarrow>
           read_loop recv m limit env b True out =
             Some (Inr (out\<lparr>bytes_read := bytes_read out + n, hit_limit := True\<rparr>), b', True, env')"
    and "res = Inr n \<Longrightarrow> 0 < n \<Longrightarrow> \<not> read_limit_hit limit b' (bytes_read out + n) \<Longrightarrow>
           read_loop recv m limit env b True out =
             read_loop recv m limit env' b' True (out\<lparr>bytes_read := bytes_read out + n\<rparr>)"
  using assms by (subst read_loop.simps, simp)+

lemma read_loop_diverges:
  assumes "read_limit_allows_read limit b (bytes_read out)"
    and "rb_fill recv env b (min m (read_limit_remaining limit b (bytes_read out))) = None"
  shows "read_loop recv m limit env b True out = None"
  using assms by (subst read_loop.simps) simp

lemma read_loop_ok:
  assumes "read_loop recv m limit env b ready out = Some (Inr out', b', ready', env')"
    and "ready" and "\<not> hit_limit out" and "\<not> disconnected out"
  shows "pump_run recv limit env b out env' b' ready' out'"
  using assms
proof (induction recv m limit env b ready out rule: read_loop.induct)
  case (1 recv m limit env b ready out)
  let ?n = "min m (read_limit_remaining limit b (bytes_read out))"
  show ?case
  proof (cases "read_limit_allows_read limit b (bytes_read out)")
    case False
    with "1.prems" have "out' = out" "b' = b" "ready' = ready" "env' = env"
      by (auto simp: read_loop_stop)
    with False "1.prems"(2-4) show ?thesis
      by (intro pump_run_none) (simp_all add: pump_end_def limit_reached_allows)
  next
    case al: True
    then have nl: "\<not> limit_reached limit b (bytes_read out)" by (simp add: limit_reached_allows)
    note ready = "1.prems"(2) and prem = "1.prems"(1) [unfolded eqTrueI [OF "1.prems"(2)]]
    from prem obtain res b1 env1 where f: "rb_fill recv env b ?n = Some (res, b1, env1)"
      using read_loop_diverges [OF al, of recv env m] by (cases "rb_fill recv env b ?n") auto
    note go = read_loop_go [OF al f]
    show ?thesis
    proof (cases res)
      case (Inl e)
      with prem go(1,2) have e: "e = WouldBlock" "out' = out" "b' = b1" "\<not> ready'" "env' = env1"
        by (cases "e = WouldBlock"; simp)+
      have p: "rb_pending b1 = rb_pending b" and w: "recv_retry recv env ?n = Some (Inl WouldBlock, env1)"
        using rb_fill_Inl [of recv env b ?n e b1 env1] f Inl e(1) by simp_all
      have "\<not> limit_reached limit b1 (bytes_read out)"
        using nl p by (cases limit) (simp_all add: limit_reached_def)
      then have "pump_end recv (limit_reached limit b' (bytes_read out)) ready' (disconnected out') env env'"
        using w e "1.prems"(4) by (auto simp: pump_end_def)
      then show ?thesis using p e "1.prems"(3) by (intro pump_run_none) simp_all
    next
      case (Inr n)
      obtain data where d: "recv_retry recv env ?n = Some (Inr data, env1)" "n = length data" "rb_pending b1 = rb_pending b @ data"
        by (rule rb_fill_Inr [OF f [unfolded Inr]])
      from f Inr have len: "rb_len b1 = rb_len b + n" "n \<le> ?n"
        by (auto dest: rb_fill_len)
      let ?out1 = "out\<lparr>bytes_read := bytes_read out + n\<rparr>"
      have lim: "case limit of ByteBudget k \<Rightarrow> bytes_read ?out1 \<le> k | MaxBuffered k \<Rightarrow> rb_len b1 \<le> k"
        using al len by (auto simp: read_limit_allows_read_def read_limit_remaining_def split: read_limit.splits)
      show ?thesis
      proof (cases "n = 0")
        case True
        with prem go(3) Inr have e: "out' = out\<lparr>disconnected := True\<rparr>" "b' = b1" "\<not> ready'" "env' = env1" by simp_all
        have "\<not> limit_reached limit b1 (bytes_read out)"
          using nl d True by (cases limit) (simp_all add: limit_reached_def)
        then have "pump_end recv (limit_reached limit b' (bytes_read out)) ready' (disconnected out') env env'"
          using e d True by (auto simp: pump_end_def)
        then show ?thesis using d True e "1.prems"(3) by (intro pump_run_none) simp_all
      next
        case False
        then have pos: "0 < n" "data \<noteq> []" using d(2) by simp_all
        have "pump_run recv limit env1 b1 ?out1 env' b' ready' out'"
        proof (cases "read_limit_hit limit b1 (bytes_read out + n)")
          case True
          with prem go(4) [OF Inr pos(1)] "1.prems"(4) show ?thesis
            by (intro pump_run_none) (auto simp: pump_end_def limit_reached_allows read_limit_hit_def)
        next
          case nohit: False
          with prem go(5) [OF Inr pos(1)]
          have "read_loop recv m limit env1 b1 ready ?out1 = Some (Inr out', b', ready', env')"
            by (simp add: eqTrueI [OF ready])
          with "1.IH" "1.prems"(2-4) al f Inr False nohit show ?thesis by simp
        qed
        from pump_run_more [OF d(1) pos(2) d(3) _ lim this] d(2) show ?thesis by simp
      qed
    qed
  qed
qed

text \<open>
  C0. The read pump reads what the socket has and never loses a wake-up. When it returns without an error,
  the new bytes behind those that were pending are exactly the bytes the socket handed out, in order, and
  \<open>bytes_read\<close> counts them. Of a source that was not ready it reads nothing. Of a ready source it stops
  for one of three reasons, and reports which: its limit is reached, then \<open>hit_limit\<close> is set, the
  source stays ready and the socket is not asked again; or the socket's last answer was that it would
  block; or its last answer was the end of the stream, then \<open>disconnected\<close> is set. Readiness is cleared in
  the last two cases only. The byte budget, or the cap on buffered bytes, is never passed.
\<close>

theorem read_into_buffer_contract:
  assumes "read_into_buffer recv env b ready m limit = Some (Inr out, b', ready', env')"
  shows "(\<exists>data env1. receives recv env data env1 \<and> rb_pending b' = rb_pending b @ data \<and> bytes_read out = length data \<and>
           (if \<not> ready then data = [] \<and> \<not> ready' \<and> \<not> hit_limit out \<and> \<not> disconnected out \<and> env' = env1
            else if limit_reached limit b' (bytes_read out) then ready' \<and> hit_limit out \<and> \<not> disconnected out \<and> env' = env1
            else \<not> ready' \<and> \<not> hit_limit out \<and>
              (\<exists>n. recv_retry recv env1 n = Some (if disconnected out then Inr [] else Inl WouldBlock, env')))) \<and>
         (case limit of ByteBudget k \<Rightarrow> bytes_read out \<le> k
                      | MaxBuffered k \<Rightarrow> length (rb_pending b') \<le> max k (length (rb_pending b)))"
  (is "?run \<and> ?bound")
proof
  let ?o = "\<lparr>bytes_read = 0, hit_limit = False, disconnected = False\<rparr>"
  from assms obtain out0
    where l: "read_loop recv m limit env b ready ?o = Some (Inr out0, b', ready', env')"
      and out: "out = (if ready' \<and> \<not> read_limit_allows_read limit b' (bytes_read out0)
                       then out0\<lparr>hit_limit := True\<rparr> else out0)"
    by (auto simp: read_into_buffer_def Let_def split: option.splits sum.splits)
  have len: "rb_len q = length (rb_pending q)" for q by (simp add: rb_len_def rb_pending_def)
  show ?run
  proof (cases ready)
    case False
    with l out show ?thesis using received_none [of recv env] by (auto simp: read_loop_stop)
  next
    case True
    from read_loop_ok [OF l True] have run: "pump_run recv limit env b ?o env' b' ready' out0" by simp
    then obtain data env1 where d: "receives recv env data env1" "rb_pending b' = rb_pending b @ data"
        "bytes_read out0 = bytes_read ?o + length data"
        "pump_end recv (limit_reached limit b' (bytes_read out0)) ready' (disconnected out0) env1 env'"
      unfolding pump_run_def by blast
    have h: "hit_limit out0 \<longrightarrow> ready'" using run by (simp add: pump_run_def)
    have o: "bytes_read out = bytes_read out0" "disconnected out = disconnected out0"
      "hit_limit out \<longleftrightarrow> hit_limit out0 \<or> ready' \<and> limit_reached limit b' (bytes_read out0)"
      unfolding out limit_reached_allows by (simp_all split: if_split) blast
    show ?thesis
    proof (cases "limit_reached limit b' (bytes_read out0)")
      case True
      with d(4) have "ready'" "\<not> disconnected out0" "env' = env1" by (simp_all add: pump_end_def)
      with d(1-3) o True \<open>ready\<close> show ?thesis by (intro exI [of _ data] exI [of _ env1]) simp
    next
      case False
      with d(4) have "\<not> ready'" "\<exists>n. recv_retry recv env1 n = Some (if disconnected out0 then Inr [] else Inl WouldBlock, env')"
        by (simp_all add: pump_end_def)
      with d(1-3) o h False \<open>ready\<close> show ?thesis by (intro exI [of _ data] exI [of _ env1]) simp
    qed
  qed
  show ?bound
  proof (cases ready)
    case False
    with l out show ?thesis by (auto simp: read_loop_stop split: read_limit.split)
  next
    case True
    from read_loop_ok [OF l True] out show ?thesis by (auto simp: pump_run_def len split: read_limit.splits if_splits)
  qed
qed

text \<open>A scripted socket, on which the hypotheses of the pump theorems are satisfied.\<close>

fun script_recv :: "(io_error, bytes) result list recv_fun" where
  "script_recv [] n = (Inl WouldBlock, [])"
| "script_recv (Inl e # rs) n = (Inl e, rs)"
| "script_recv (Inr bs # rs) n = (Inr (take n bs), rs)"

lemma read_into_buffer_example:
  "read_into_buffer script_recv [Inr [1, 2, 3], Inl Interrupted, Inr [4, 5]] rb_new True 10 (ByteBudget 4) =
     Some (Inr \<lparr>bytes_read = 4, hit_limit = True, disconnected = False\<rparr>,
           \<lparr>rb_buf = [1, 2, 3, 4], rb_start = 0\<rparr>, True, [])"
  by code_simp

theorem read_into_buffer_contract_witness:
  "\<exists>data env1. receives script_recv [Inr [1, 2, 3], Inl Interrupted, Inr [4, 5]] data env1 \<and> data = [1, 2, 3, 4]"
  using read_into_buffer_contract [OF read_into_buffer_example] by (auto simp: rb_pending_def rb_new_def)

text \<open>The pump always answers when the socket does not interrupt for ever.\<close>

lemma rb_fill_returns:
  "recv_retry recv env m = Some r \<Longrightarrow> \<exists>res b' env'. rb_fill recv env b m = Some (res, b', env')"
  by (cases r; cases "rb_fill_with b m (fst r)") (simp add: rb_fill_def)

lemma read_loop_returns:
  assumes "\<And>env n. \<exists>r. recv_retry recv env n = Some r"
  shows "\<exists>r. read_loop recv m limit env b ready out = Some r"
  using assms
proof (induction recv m limit env b ready out rule: read_loop.induct)
  case (1 recv m limit env b ready out)
  let ?n = "min m (read_limit_remaining limit b (bytes_read out))"
  show ?case
  proof (cases "ready \<and> read_limit_allows_read limit b (bytes_read out)")
    case False
    then show ?thesis by (auto simp: read_loop_stop)
  next
    case True
    then have ready: "ready = True" and al: "read_limit_allows_read limit b (bytes_read out)" by auto
    from "1.prems" obtain res b1 env1 where f: "rb_fill recv env b ?n = Some (res, b1, env1)"
      using rb_fill_returns by meson
    note go = read_loop_go [OF al f]
    show ?thesis
    proof (cases res)
      case (Inl e)
      with go(1,2) show ?thesis by (cases "e = WouldBlock") (auto simp: ready)
    next
      case (Inr n)
      have "0 < n \<Longrightarrow> \<not> read_limit_hit limit b1 (bytes_read out + n) \<Longrightarrow>
          \<exists>r. read_loop recv m limit env1 b1 ready (out\<lparr>bytes_read := bytes_read out + n\<rparr>) = Some r"
        using "1.IH" True f Inr "1.prems" by simp
      with go(3,4,5) Inr show ?thesis
        by (cases "n = 0"; cases "read_limit_hit limit b1 (bytes_read out + n)") (auto simp: ready)
    qed
  qed
qed

lemma read_into_buffer_total:
  assumes "\<forall>env n. \<exists>r. recv_retry recv env n = Some r"
  shows "\<exists>r. read_into_buffer recv env b ready m limit = Some r"
proof -
  from assms obtain r where
    "read_loop recv m limit env b ready \<lparr>bytes_read = 0, hit_limit = False, disconnected = False\<rparr> = Some r"
    using read_loop_returns [of recv] by meson
  then show ?thesis
    by (cases r; cases "fst r") (auto simp: read_into_buffer_def Let_def)
qed

lemma script_recv_returns: "\<exists>r. recv_retry script_recv env n = Some r"
proof (induction env)
  case Nil
  then show ?case by (subst recv_retry.simps) simp
next
  case (Cons a env)
  then show ?case by (subst recv_retry.simps) (cases a; simp)
qed

text \<open>
  Liveness of the read pump: if every receive call is eventually not interrupted, one run
  of the pump returns, for every limit and every buffer.
\<close>

theorem read_into_buffer_returns:
  assumes "\<forall>env n. \<exists>r. recv_retry recv env n = Some r"
  shows "\<exists>r. read_into_buffer recv env b ready m limit = Some r"
  by (rule read_into_buffer_total [OF assms])

theorem read_into_buffer_returns_witness:
  "\<exists>r. read_into_buffer script_recv [Inl Interrupted, Inr [7]] rb_new True 4096 (MaxBuffered 16) = Some r"
  using read_into_buffer_returns [of script_recv] script_recv_returns by blast

section \<open>The write pump\<close>

definition send_bounded :: "'env send_fun \<Rightarrow> bool" where
  "send_bounded send \<longleftrightarrow> (\<forall>env bs n env'. send env bs = (Inr n, env') \<longrightarrow> n \<le> length bs)"

lemma write_loop_ok:
  assumes "send_bounded send" and "wq_inv q"
    and "write_loop left send env q out = (Inr out', q', env')"
    and "\<not> blocked out" and "\<not> wrote_zero out"
  shows "wq_inv q'
       \<and> (\<exists>n. n \<le> length (wq_pending q) \<and> bytes_written out' = bytes_written out + n
              \<and> wq_pending q' = drop n (wq_pending q))
       \<and> attempts out' \<le> attempts out + left
       \<and> (wq_pending q' \<noteq> [] \<longrightarrow> \<not> blocked out' \<longrightarrow> \<not> wrote_zero out' \<longrightarrow>
            attempts out' = attempts out + left)"
  using assms(2-5)
proof (induction left arbitrary: env q out)
  case 0
  then show ?case by auto
next
  case (Suc left)
  obtain r env1 where r: "send env (wq_pending q) = (r, env1)" by fastforce
  show ?case
  proof (cases "wq_is_empty q")
    case True
    with Suc.prems show ?thesis by (simp add: wq.is_empty_pending)
  next
    case ne: False
    show ?thesis
    proof (cases r)
      case (Inl e)
      show ?thesis
      proof (cases "e = Interrupted")
        case True
        with Suc.prems r ne Inl have
          "write_loop left send env1 q (out\<lparr>attempts := attempts out + 1\<rparr>) = (Inr out', q', env')"
          by (simp add: Let_def)
        from Suc.IH [OF Suc.prems(1) this] Suc.prems(3,4) show ?thesis by simp
      next
        case False
        with Suc.prems r ne Inl show ?thesis
          by (cases "e = WouldBlock") (auto simp: Let_def)
      qed
    next
      case (Inr n)
      have n: "n \<le> length (wq_pending q)"
        using assms(1) r Inr by (auto simp: send_bounded_def)
      show ?thesis
      proof (cases "n = 0")
        case True
        with Suc.prems r ne Inr show ?thesis by (auto simp: Let_def)
      next
        case False
        with Suc.prems r ne Inr have
          "write_loop left send env1 (wq_consume n q)
             (out\<lparr>attempts := attempts out + 1, bytes_written := bytes_written out + n\<rparr>) = (Inr out', q', env')"
          by (simp add: Let_def)
        from Suc.IH [OF wq.invar_pop [OF Suc.prems(1) n] this] Suc.prems
        obtain k where "wq_inv q'" "k \<le> length (drop n (wq_pending q))"
          "bytes_written out' = bytes_written out + n + k" "wq_pending q' = drop k (drop n (wq_pending q))"
          "attempts out' \<le> attempts out + 1 + left"
          "wq_pending q' \<noteq> [] \<longrightarrow> \<not> blocked out' \<longrightarrow> \<not> wrote_zero out' \<longrightarrow>
             attempts out' = attempts out + 1 + left"
          by (auto simp: wq.pending_pop [OF Suc.prems(1) n])
        moreover from this n have "\<exists>j. j \<le> length (wq_pending q)
            \<and> bytes_written out' = bytes_written out + j \<and> wq_pending q' = drop j (wq_pending q)"
          by (intro exI [of _ "n + k"]) (simp add: add.commute)
        ultimately show ?thesis by simp
      qed
    qed
  qed
qed

text \<open>
  C3. The write pump sends a prefix of the queue in order and nothing twice: what is left
  pending is exactly what was pending without its first \<open>bytes_written\<close> bytes. It makes at
  most \<open>max_attempts\<close> calls, and reports \<open>hit_limit\<close> exactly when bytes are left
  although the socket neither blocked nor refused them, so the caller requeues the connection.
\<close>

theorem write_queue_to_contract:
  assumes "send_bounded send" and "wq_inv q"
    and "write_queue_to send env q max_attempts = (Inr out, q', env')"
  shows "wq_inv q' \<and> bytes_written out \<le> length (wq_pending q)
       \<and> wq_pending q' = drop (bytes_written out) (wq_pending q)
       \<and> attempts out \<le> max_attempts
       \<and> (wp_hit_limit out \<longleftrightarrow> wq_pending q' \<noteq> [] \<and> \<not> blocked out \<and> \<not> wrote_zero out)"
proof -
  let ?o = "\<lparr>bytes_written = 0, attempts = 0, wp_hit_limit = False, blocked = False, wrote_zero = False\<rparr>"
  from assms(3) obtain out0 where
    l: "write_loop max_attempts send env q ?o = (Inr out0, q', env')"
    and out: "out = out0\<lparr>wp_hit_limit :=
                  \<not> wq_is_empty q' \<and> attempts out0 = max_attempts \<and> \<not> blocked out0 \<and> \<not> wrote_zero out0\<rparr>"
    by (auto simp: write_queue_to_def split: prod.splits sum.splits)
  from write_loop_ok [OF assms(1,2) l] out show ?thesis
    by (auto simp: wq.is_empty_pending)
qed

text \<open>A socket that takes at most two bytes a call.\<close>

definition two_byte_send :: "unit send_fun" where
  "two_byte_send env bs = (Inr (min 2 (length bs)), env)"

theorem write_queue_to_contract_witness:
  "wq_pending \<lparr>wq_buf = [9, 8, 7, 6, 5], wq_start = 4\<rparr>
     = drop 4 (wq_pending (wq_tail_append [9, 8, 7, 6, 5] wq_new))"
proof -
  have b: "send_bounded two_byte_send" by (simp add: send_bounded_def two_byte_send_def)
  have i: "wq_inv (wq_tail_append [9, 8, 7, 6, 5] wq_new)"
    by (simp add: wq.invar_push wq.invar_fresh)
  have "write_queue_to two_byte_send () (wq_tail_append [9, 8, 7, 6, 5] wq_new) (Suc (Suc 0)) =
    (Inr \<lparr>bytes_written = 4, attempts = 2, wp_hit_limit = True, blocked = False, wrote_zero = False\<rparr>,
     \<lparr>wq_buf = [9, 8, 7, 6, 5], wq_start = 4\<rparr>, ())"
    by (simp add: write_queue_to_def two_byte_send_def wq_defs Let_def WRITE_QUEUE_COMPACT_BYTES_def)
  from write_queue_to_contract [OF b i this] show ?thesis by simp
qed

end
