(* ===== verification/Voice_Lane.thy ===== *)
theory Voice_Lane
  imports Media Buffers
begin

text \<open>
  The TCP fallback lane for voice: one sealed media datagram per length-prefixed frame, with the
  smaller cap \<open>VOICE_TCP_MAX_FRAME_BYTES\<close>. The receiving loop is the frame loop of
  \<open>receive_tcp\<close> (\<open>crates/server/src/voice_relay.rs\<close>) over the receive buffer; what is done with a
  packet (\<open>handle_media_packet\<close>) is its parameter \<open>handle\<close>, which returns an error or nothing,
  with the new state of the relay.
\<close>

section \<open>Definitions\<close>

datatype 'e lane_error = InvalidFrame frame_error | RejectedPacket 'e

type_synonym ('e, 's) packet_handler = "'s \<Rightarrow> bytes \<Rightarrow> ('e, unit) result \<times> 's"

lemma voice_frame_total:
  "parse_frame_with_limit cap buf = Inr (Some (p, n)) \<Longrightarrow> 4 \<le> n \<and> n \<le> length buf \<and> p = subslice 4 n buf"
  by (auto simp: parse_frame_with_limit_alt Let_def split: if_splits)

lemma rb_len_consume: "0 < n \<Longrightarrow> n \<le> length (rb_pending rb) \<Longrightarrow> rb_len (rb_consume n rb) < rb_len rb"
  by (auto simp: rb_len_def rb_consume_def rb_pending_def Let_def)

function receive_tcp_frames ::
  "('e, 's) packet_handler \<Rightarrow> 's \<Rightarrow> recv_buffer \<Rightarrow> ('e lane_error, recv_buffer) result \<times> 's" where
  "receive_tcp_frames handle st rb =
     (case parse_frame_with_limit VOICE_TCP_MAX_FRAME_BYTES (rb_pending rb) of
        Inl e \<Rightarrow> (Inl (InvalidFrame e), st)
      | Inr None \<Rightarrow> (Inr rb, st)
      | Inr (Some (_, n)) \<Rightarrow>
          (case handle st (subslice LENGTH_PREFIX_LEN n (rb_pending rb)) of
             (Inl e, st') \<Rightarrow> (Inl (RejectedPacket e), st')
           | (Inr _, st') \<Rightarrow> receive_tcp_frames handle st' (rb_consume n rb)))"
  by pat_completeness auto
termination
  by (relation "measure (\<lambda>(handle, st, rb). rb_len rb)") (auto dest!: voice_frame_total intro!: rb_len_consume)

declare receive_tcp_frames.simps [simp del]

text \<open>The lane over a series of reads: each read is appended and the whole frames are handled.\<close>

fun receive_tcp_reads ::
  "('e, 's) packet_handler \<Rightarrow> 's \<Rightarrow> recv_buffer \<Rightarrow> bytes list \<Rightarrow> ('e lane_error, recv_buffer) result \<times> 's" where
  "receive_tcp_reads handle st rb [] = (Inr rb, st)"
| "receive_tcp_reads handle st rb (seg # segs) =
     (case receive_tcp_frames handle st (rb_push seg rb) of
        (Inl e, st') \<Rightarrow> (Inl e, st')
      | (Inr rb', st') \<Rightarrow> receive_tcp_reads handle st' rb' segs)"

section \<open>The lane delivers every datagram\<close>

interpretation voice_lane: length_framing "encode_capped VOICE_TCP_MAX_FRAME_BYTES"
  "parse_frame_with_limit VOICE_TCP_MAX_FRAME_BYTES"
  by (rule capped_framing)
    (simp add: VOICE_TCP_MAX_FRAME_BYTES_def MAX_SEALED_MEDIA_BYTES_def UDP_HEADER_LEN_def
      SAFE_UDP_PAYLOAD_BYTES_def TAG_LEN_def MAX_FRAME_LEN_def)

text \<open>The packets handled one after the other, up to and with the first one that is rejected.\<close>

fun run_packets :: "('e, 's) packet_handler \<Rightarrow> 's \<Rightarrow> bytes list \<Rightarrow> ('e, unit) result \<times> 's" where
  "run_packets handle st [] = (Inr (), st)"
| "run_packets handle st (p # ps) =
     (case handle st p of
        (Inl e, st') \<Rightarrow> (Inl e, st')
      | (Inr _, st') \<Rightarrow> run_packets handle st' ps)"

lemma run_packets_append:
  "run_packets handle st (ps @ qs) =
     (case run_packets handle st ps of (Inl e, st') \<Rightarrow> (Inl e, st') | (Inr _, st') \<Rightarrow> run_packets handle st' qs)"
  by (induction ps arbitrary: st) (auto split: prod.splits sum.splits)

text \<open>What a lane ends in, given the packets and the framing error its bytes parse to.\<close>

definition lane_result ::
  "('e, unit) result \<times> 's \<Rightarrow> bytes \<Rightarrow> frame_error option \<Rightarrow> ('e lane_error, recv_buffer) result \<times> 's \<Rightarrow> bool" where
  "lane_result run rest err res \<longleftrightarrow>
     (case run of
        (Inl e, st') \<Rightarrow> res = (Inl (RejectedPacket e), st')
      | (Inr _, st') \<Rightarrow>
          (case err of
             Some e \<Rightarrow> res = (Inl (InvalidFrame e), st')
           | None \<Rightarrow> (\<exists>rb'. res = (Inr rb', st') \<and> rb_inv rb' \<and> rb_pending rb' = rest)))"

lemma receive_tcp_frames_drain:
  assumes "rb_inv rb" and "length (rb_pending rb) < k"
    and "drain_frames k (parse_frame_with_limit VOICE_TCP_MAX_FRAME_BYTES) (rb_pending rb) = (ps, rest, err)"
  shows "lane_result (run_packets handle st ps) rest err (receive_tcp_frames handle st rb)"
  using assms
proof (induction k arbitrary: st rb ps)
  case 0
  then show ?case by simp
next
  case (Suc k)
  let ?parse = "parse_frame_with_limit VOICE_TCP_MAX_FRAME_BYTES (rb_pending rb)"
  from Suc.prems(3) consider "?parse = Inr None" "ps = []" "rest = rb_pending rb" "err = None"
    | e where "?parse = Inl e" "ps = []" "err = Some e"
    | p n ps' where "?parse = Inr (Some (p, n))" "ps = p # ps'"
        "drain_frames k (parse_frame_with_limit VOICE_TCP_MAX_FRAME_BYTES) (drop n (rb_pending rb)) = (ps', rest, err)"
    by (auto split: sum.splits option.splits prod.splits)
  then show ?case
  proof cases
    case 1
    then show ?thesis using Suc.prems(1)
      by (subst receive_tcp_frames.simps) (simp add: lane_result_def)
  next
    case 2
    then show ?thesis by (subst receive_tcp_frames.simps) (simp add: lane_result_def)
  next
    case (3 p n ps')
    from voice_frame_total [OF 3(1)] have n: "4 \<le> n" "n \<le> length (rb_pending rb)" "p = subslice 4 n (rb_pending rb)"
      by auto
    have c: "rb_inv (rb_consume n rb)" "rb_pending (rb_consume n rb) = drop n (rb_pending rb)"
      using rb.invar_pop [OF Suc.prems(1), of n] rb.pending_pop [OF Suc.prems(1), of n] n(2) by simp_all
    obtain r st' where h: "handle st p = (r, st')" by (cases "handle st p") simp
    have step: "receive_tcp_frames handle st rb =
        (case r of Inl e \<Rightarrow> (Inl (RejectedPacket e), st') | Inr _ \<Rightarrow> receive_tcp_frames handle st' (rb_consume n rb))"
      using 3(1) h n(3) by (subst receive_tcp_frames.simps) (simp add: LENGTH_PREFIX_LEN_def split: sum.split)
    have "length (rb_pending (rb_consume n rb)) < k" using n Suc.prems(2) by (simp add: c)
    from Suc.IH [OF c(1) this, of ps' st'] 3(3) c(2)
    show ?thesis by (cases r) (simp_all add: step 3(2) h lane_result_def)
  qed
qed

lemma receive_tcp_reads_feed:
  assumes "rb_inv rb"
    and "feed_segments (parse_frame_with_limit VOICE_TCP_MAX_FRAME_BYTES) (rb_pending rb) segs = (ps, rest, err)"
  shows "lane_result (run_packets handle st ps) rest err (receive_tcp_reads handle st rb segs)"
  using assms
proof (induction segs arbitrary: st rb ps)
  case Nil
  then show ?case by (simp add: lane_result_def)
next
  case (Cons seg segs)
  let ?rb = "rb_push seg rb"
  have p: "rb_inv ?rb" "rb_pending ?rb = rb_pending rb @ seg"
    using rb.invar_push rb.pending_push Cons.prems(1) by auto
  obtain ps1 rest1 err1 where d:
    "drain_frames (Suc (length (rb_pending ?rb))) (parse_frame_with_limit VOICE_TCP_MAX_FRAME_BYTES) (rb_pending ?rb)
      = (ps1, rest1, err1)" by (metis prod_cases3)
  note r1 = receive_tcp_frames_drain [OF p(1) lessI d, of handle st]
  obtain x st1 where x: "run_packets handle st ps1 = (x, st1)" by fastforce
  show ?case
  proof (cases err1)
    case (Some e)
    then have "ps = ps1" "rest = rest1" "err = Some e"
      using Cons.prems(2) d by (auto simp: p(2) simp del: drain_frames.simps)
    with r1 Some x show ?thesis
      by (cases x) (auto simp: lane_result_def)
  next
    case None
    obtain qs rest2 err2 where f:
      "feed_segments (parse_frame_with_limit VOICE_TCP_MAX_FRAME_BYTES) rest1 segs = (qs, rest2, err2)"
      by (metis prod_cases3)
    with Cons.prems(2) d None have eq: "ps = ps1 @ qs" "rest = rest2" "err = err2"
      by (auto simp: p(2) simp del: drain_frames.simps)
    show ?thesis
    proof (cases x)
      case (Inl e)
      with r1 x show ?thesis by (simp add: lane_result_def eq run_packets_append)
    next
      case (Inr u)
      with r1 x None obtain rb' where rb': "receive_tcp_frames handle st ?rb = (Inr rb', st1)"
          "rb_inv rb'" "rb_pending rb' = rest1"
        by (auto simp: lane_result_def)
      with Cons.IH [OF rb'(2), of qs st1] f Inr x show ?thesis
        by (simp add: eq run_packets_append)
    qed
  qed
qed

text \<open>
  C14. The TCP voice lane is a faithful channel. Sealed packets no longer than the lane's cap, framed
  one after the other and cut by the network into arbitrary reads, reach the packet handler in
  order, each exactly once. When every packet is accepted the lane ends with an empty buffer; the
  first packet the handler rejects closes the lane, and no later packet is handled.
\<close>

theorem voice_lane_delivers:
  assumes "list_all2 (\<lambda>p f. encode_frame p [] = Inr f \<and> length p \<le> VOICE_TCP_MAX_FRAME_BYTES) packets frames"
    and "concat segments = concat frames"
  shows "case run_packets handle st packets of
           (Inl e, st') \<Rightarrow> receive_tcp_reads handle st rb_new segments = (Inl (RejectedPacket e), st')
         | (Inr _, st') \<Rightarrow> (\<exists>rb. receive_tcp_reads handle st rb_new segments = (Inr rb, st') \<and>
                              rb_inv rb \<and> rb_pending rb = [])"
proof -
  let ?parse = "parse_frame_with_limit VOICE_TCP_MAX_FRAME_BYTES"
  have "list_all2 (\<lambda>p f. encode_capped VOICE_TCP_MAX_FRAME_BYTES p [] = Inr f) packets frames"
    using assms(1) by (rule list_all2_mono) (auto simp: encode_capped_def)
  then have "drain_frames (Suc (length (concat frames))) ?parse (concat frames) = (packets, [], None)"
    by (rule voice_lane.drain_encoded) simp
  then have "feed_segments ?parse (rb_pending rb_new) segments = (packets, [], None)"
    using voice_lane.feed_segments_whole [of "[]" "Suc (length (concat frames))" segments packets "[]" None]
      voice_lane.parse_nil assms(2) by (simp add: rb.pending_fresh del: drain_frames.simps)
  from receive_tcp_reads_feed [OF rb.invar_fresh this, of handle st]
  show ?thesis by (cases "run_packets handle st packets"; cases "fst (run_packets handle st packets)") (simp_all add: lane_result_def)
qed

definition count_small :: "(unit, nat) packet_handler" where
  "count_small st p = (if length p \<le> 2 then (Inr (), st + 1) else (Inl (), st))"

theorem voice_lane_delivers_witness:
  "\<exists>rb. receive_tcp_reads count_small 5 rb_new [[2, 0], [0, 0, 7], [8, 0, 0, 0, 0]] = (Inr rb, 7) \<and>
     rb_inv rb \<and> rb_pending rb = []"
  using voice_lane_delivers [of "[[7, 8], []]" "[[2, 0, 0, 0, 7, 8], [0, 0, 0, 0]]"
      "[[2, 0], [0, 0, 7], [8, 0, 0, 0, 0]]" count_small 5]
  by (simp add: encode_frame_def MAX_FRAME_LEN_def to_le_def le_of_nat_numeral count_small_def
      VOICE_TCP_MAX_FRAME_BYTES_def MAX_SEALED_MEDIA_BYTES_def UDP_HEADER_LEN_def
      SAFE_UDP_PAYLOAD_BYTES_def TAG_LEN_def del: receive_tcp_reads.simps)

text \<open>
  The preamble that a client sends to open a voice lane cannot be confused with a control hello:
  read as a length prefix it is far beyond the frame cap.
\<close>

lemma voice_preamble_not_a_frame:
  "parse_frame (VOICE_TCP_MAGIC @ rest) = Inl Frame_TooLarge"
  by (simp add: parse_frame_def parse_frame_with_limit_alt VOICE_TCP_MAGIC_def ascii_bytes_def Let_def
      MAX_FRAME_LEN_def from_le_def unat_of_nat of_char_def)

end
