(* ===== verification/Token_Bucket.thy ===== *)
theory Token_Bucket
  imports Main
begin

text \<open>
  The ingress budgets of the voice relay (\<open>TokenBucket\<close> and \<open>MediaBudget\<close> of
  \<open>crates/server/src/voice_relay.rs\<close>). An \<open>Instant\<close> is a number of nanoseconds and the integers are
  natural numbers with the saturation of the code written out, \<open>u32\<close> and \<open>u64\<close> being bounded by
  \<open>U32_MAX\<close> and \<open>U64_MAX\<close>.
\<close>

section \<open>Definitions\<close>

definition U32_MAX :: nat where "U32_MAX = 2 ^ 32 - 1"
definition U64_MAX :: nat where "U64_MAX = 2 ^ 64 - 1"

record token_bucket =
  tb_rate :: nat
  tb_burst :: nat
  tb_tokens :: nat
  tb_remainder :: nat
  tb_last :: nat

definition tb_new :: "nat \<Rightarrow> nat \<Rightarrow> token_bucket" where
  "tb_new rate now = \<lparr>tb_rate = rate, tb_burst = rate, tb_tokens = rate, tb_remainder = 0, tb_last = now\<rparr>"

definition tb_total :: "nat \<Rightarrow> token_bucket \<Rightarrow> nat" where
  "tb_total elapsed b =
     (let micros = min U64_MAX (elapsed div 1000)
      in min U64_MAX (tb_remainder b + min U64_MAX (tb_rate b * micros)))"

definition tb_gain :: "nat \<Rightarrow> token_bucket \<Rightarrow> nat" where
  "tb_gain amount b =
     (let gained = min U32_MAX (amount div 1000000)
      in min (min U32_MAX (tb_tokens b + gained)) (tb_burst b))"

definition tb_refill :: "nat \<Rightarrow> token_bucket \<Rightarrow> token_bucket" where
  "tb_refill now b =
     (let elapsed = now - tb_last b in
      if elapsed = 0 then b
      else
        let total = tb_total elapsed b
        in b\<lparr>tb_last := now, tb_remainder := total mod 1000000, tb_tokens := tb_gain total b\<rparr>)"

definition tb_take :: "nat \<Rightarrow> nat \<Rightarrow> token_bucket \<Rightarrow> bool \<times> token_bucket" where
  "tb_take now cost b =
     (let b1 = tb_refill now b in
      if cost \<le> tb_tokens b1 then (True, b1\<lparr>tb_tokens := tb_tokens b1 - cost\<rparr>) else (False, b1))"

definition tb_available :: "nat \<Rightarrow> token_bucket \<Rightarrow> nat \<times> token_bucket" where
  "tb_available now b = (let b1 = tb_refill now b in (tb_tokens b1, b1))"

definition VOICE_INGRESS_BYTES_PER_SEC :: nat where "VOICE_INGRESS_BYTES_PER_SEC = 48 * 1024"
definition VOICE_INGRESS_PACKETS_PER_SEC :: nat where "VOICE_INGRESS_PACKETS_PER_SEC = 120"
definition FEEDBACK_INGRESS_PACKETS_PER_SEC :: nat where "FEEDBACK_INGRESS_PACKETS_PER_SEC = 100"
definition SIGNAL_INGRESS_PACKETS_PER_SEC :: nat where "SIGNAL_INGRESS_PACKETS_PER_SEC = 20"

record media_budget =
  mb_voice_bytes :: token_bucket
  mb_voice_packets :: token_bucket
  mb_feedback_packets :: token_bucket
  mb_signal_packets :: token_bucket
  mb_dropped :: nat

definition mb_new :: "nat \<Rightarrow> media_budget" where
  "mb_new now = \<lparr>mb_voice_bytes = tb_new VOICE_INGRESS_BYTES_PER_SEC now,
     mb_voice_packets = tb_new VOICE_INGRESS_PACKETS_PER_SEC now,
     mb_feedback_packets = tb_new FEEDBACK_INGRESS_PACKETS_PER_SEC now,
     mb_signal_packets = tb_new SIGNAL_INGRESS_PACKETS_PER_SEC now, mb_dropped = 0\<rparr>"

definition mb_reject :: "media_budget \<Rightarrow> bool \<times> media_budget" where
  "mb_reject b = (False, b\<lparr>mb_dropped := min U32_MAX (mb_dropped b + 1)\<rparr>)"

definition admit_voice :: "nat \<Rightarrow> nat \<Rightarrow> media_budget \<Rightarrow> bool \<times> media_budget" where
  "admit_voice now wire_bytes b =
     (let bytes = min wire_bytes U32_MAX in
      case tb_available now (mb_voice_bytes b) of (avail, vb) \<Rightarrow>
        let b1 = b\<lparr>mb_voice_bytes := vb\<rparr> in
        if avail < bytes then mb_reject b1
        else
          (case tb_available now (mb_voice_packets b1) of (avail, vp) \<Rightarrow>
             let b2 = b1\<lparr>mb_voice_packets := vp\<rparr> in
             if avail < 1 then mb_reject b2
             else (True, b2\<lparr>mb_voice_bytes := snd (tb_take now bytes (mb_voice_bytes b2)),
                            mb_voice_packets := snd (tb_take now 1 (mb_voice_packets b2))\<rparr>)))"

definition admit_feedback :: "nat \<Rightarrow> media_budget \<Rightarrow> bool \<times> media_budget" where
  "admit_feedback now b =
     (case tb_take now 1 (mb_feedback_packets b) of
        (True, t) \<Rightarrow> (True, b\<lparr>mb_feedback_packets := t\<rparr>)
      | (False, t) \<Rightarrow> mb_reject (b\<lparr>mb_feedback_packets := t\<rparr>))"

definition admit_signal :: "nat \<Rightarrow> media_budget \<Rightarrow> bool \<times> media_budget" where
  "admit_signal now b =
     (case tb_take now 1 (mb_signal_packets b) of
        (True, t) \<Rightarrow> (True, b\<lparr>mb_signal_packets := t\<rparr>)
      | (False, t) \<Rightarrow> mb_reject (b\<lparr>mb_signal_packets := t\<rparr>))"

section \<open>A bucket never gives more than its rate\<close>

text \<open>
  Every operation on a bucket either leaves it alone or refills it and takes some of its tokens.
\<close>

definition tb_step :: "nat \<Rightarrow> nat \<Rightarrow> token_bucket \<Rightarrow> token_bucket \<Rightarrow> bool" where
  "tb_step now spent b b' \<longleftrightarrow>
     spent = 0 \<and> b' = b \<or>
     spent \<le> tb_tokens (tb_refill now b) \<and>
       b' = (tb_refill now b)\<lparr>tb_tokens := tb_tokens (tb_refill now b) - spent\<rparr>"

definition tb_held :: "token_bucket \<Rightarrow> nat" where
  "tb_held b = 1000000 * tb_tokens b + tb_remainder b"

definition tb_capped :: "token_bucket \<Rightarrow> bool" where
  "tb_capped b \<longleftrightarrow> tb_tokens b \<le> tb_burst b \<and> tb_remainder b < 1000000"

lemma tb_refill_fields [simp]:
  "tb_rate (tb_refill now b) = tb_rate b" "tb_burst (tb_refill now b) = tb_burst b"
  "tb_last (tb_refill now b) = max (tb_last b) now"
  by (auto simp: tb_refill_def Let_def)

lemma tb_refill_capped: "tb_capped b \<Longrightarrow> tb_capped (tb_refill now b)"
  by (simp add: tb_refill_def tb_capped_def tb_gain_def Let_def)

lemma tb_refill_held: "tb_held (tb_refill now b) \<le> tb_held b + tb_rate b * ((now - tb_last b) div 1000)"
proof (cases "now - tb_last b = 0")
  case True
  then show ?thesis by (simp add: tb_refill_def)
next
  case False
  define total where "total = tb_total (now - tb_last b) b"
  define tokens where "tokens = tb_gain total b"
  have r: "tb_refill now b = b\<lparr>tb_last := now, tb_remainder := total mod 1000000, tb_tokens := tokens\<rparr>"
    using False by (simp add: tb_refill_def Let_def total_def tokens_def)
  have "total \<le> tb_remainder b + tb_rate b * ((now - tb_last b) div 1000)"
    unfolding total_def tb_total_def Let_def by (auto intro!: min.coboundedI2 add_left_mono mult_le_mono2)
  moreover have "tokens \<le> tb_tokens b + total div 1000000" by (simp add: tokens_def tb_gain_def)
  then have "1000000 * tokens \<le> 1000000 * tb_tokens b + 1000000 * (total div 1000000)"
    by (metis add_mult_distrib2 mult_le_mono2)
  ultimately have "1000000 * tokens + total mod 1000000 \<le>
      1000000 * tb_tokens b + tb_remainder b + tb_rate b * ((now - tb_last b) div 1000)"
    using mult_div_mod_eq [of 1000000 total] by linarith
  then show ?thesis by (simp add: tb_held_def r)
qed

lemma tb_refill_again [simp]: "tb_refill now (tb_refill now b) = tb_refill now b"
  by (simp add: tb_refill_def [of now "tb_refill now b"])

text \<open>
  A window from \<open>s\<close> to \<open>t\<close>: of a full bucket (with less than one token of fraction) and what the rate gives
  since \<open>s\<close>, the part \<open>spent\<close> is gone and the rest is at most what the bucket holds. Until the bucket is
  asked for the first time in the window its clock may still be before \<open>s\<close>.
\<close>

definition in_window :: "nat \<Rightarrow> nat \<Rightarrow> nat \<Rightarrow> token_bucket \<Rightarrow> bool" where
  "in_window s t spent b \<longleftrightarrow>
     tb_capped b \<and> (s \<le> tb_last b \<or> spent = 0) \<and>
     1000000 * spent + tb_held b \<le> 1000000 * tb_burst b + 999999 + tb_rate b * ((min t (tb_last b) - s) div 1000)"

lemma in_window_start: "tb_capped b \<Longrightarrow> in_window s t 0 b"
  by (auto simp: in_window_def tb_capped_def tb_held_def)

lemma div_pieces:
  assumes "(s :: nat) \<le> x" and "x \<le> y"
  shows "r * ((x - s) div 1000) + r * ((y - x) div 1000) \<le> r * ((y - s) div 1000)"
proof -
  have "(x - s) div 1000 + (y - x) div 1000 \<le> ((x - s) + (y - x)) div 1000"
    by (simp add: less_eq_div_iff_mult_less_eq add_mult_distrib add_mono)
  with assms have "(x - s) div 1000 + (y - x) div 1000 \<le> (y - s) div 1000" by simp
  then show ?thesis by (metis add_mult_distrib2 mult_le_mono2)
qed

lemma in_window_refill:
  assumes "in_window s t spent b" and "s \<le> now" and "now \<le> t"
  shows "in_window s t spent (tb_refill now b) \<and> s \<le> tb_last (tb_refill now b)"
proof -
  let ?r = "tb_refill now b"
  have cap: "tb_capped ?r" using assms(1) by (simp add: in_window_def tb_refill_capped)
  have s: "s \<le> tb_last ?r" using assms(2) by simp
  have "1000000 * spent + tb_held ?r \<le>
      1000000 * tb_burst b + 999999 + tb_rate b * ((min t (tb_last ?r) - s) div 1000)"
  proof (cases "s \<le> tb_last b")
    case False
    then have "spent = 0" using assms(1) by (simp add: in_window_def)
    then show ?thesis using cap by (simp add: tb_capped_def tb_held_def)
  next
    case True
    have "tb_rate b * ((min t (tb_last b) - s) div 1000) + tb_rate b * ((now - tb_last b) div 1000)
        \<le> tb_rate b * ((min t (max (tb_last b) now) - s) div 1000)"
    proof (cases "tb_last b \<le> now")
      case le: True
      then have "min t (tb_last b) = tb_last b" "min t (max (tb_last b) now) = now" using assms(3) by simp_all
      then show ?thesis using div_pieces [OF True le] by simp
    qed simp
    with assms(1) tb_refill_held [of now b] show ?thesis by (simp add: in_window_def)
  qed
  with cap s show ?thesis by (simp add: in_window_def)
qed

lemma in_window_step:
  assumes "in_window s t x b" and "tb_step now y b b'" and "s \<le> now" and "now \<le> t"
  shows "in_window s t (x + y) b'"
  using assms(2) unfolding tb_step_def
proof (elim disjE conjE)
  assume y: "y \<le> tb_tokens (tb_refill now b)"
    and b': "b' = (tb_refill now b)\<lparr>tb_tokens := tb_tokens (tb_refill now b) - y\<rparr>"
  from in_window_refill [OF assms(1,3,4)] y show ?thesis
    by (auto simp: b' in_window_def tb_capped_def tb_held_def diff_mult_distrib2)
qed (use assms(1) in simp)

lemma tb_take_step:
  "tb_take now cost b = (ok, b') \<Longrightarrow> tb_step now (if ok then cost else 0) b b'"
  by (auto simp: tb_take_def tb_step_def Let_def split: if_splits)

section \<open>The budget of a session\<close>

datatype ingress = In_Voice nat | In_Feedback | In_Signal

fun mb_admit :: "nat \<times> ingress \<Rightarrow> media_budget \<Rightarrow> bool \<times> media_budget" where
  "mb_admit (now, In_Voice n) b = admit_voice now n b"
| "mb_admit (now, In_Feedback) b = admit_feedback now b"
| "mb_admit (now, In_Signal) b = admit_signal now b"

text \<open>The frames of a history that were admitted.\<close>

fun mb_admitted :: "media_budget \<Rightarrow> (nat \<times> ingress) list \<Rightarrow> ingress list" where
  "mb_admitted b [] = []"
| "mb_admitted b (ev # evs) =
     (case mb_admit ev b of (ok, b') \<Rightarrow> (if ok then [snd ev] else []) @ mb_admitted b' evs)"

fun voice_cost :: "ingress \<Rightarrow> nat" where
  "voice_cost (In_Voice n) = min n U32_MAX"
| "voice_cost _ = 0"

fun voice_one :: "ingress \<Rightarrow> nat" where
  "voice_one (In_Voice n) = 1"
| "voice_one _ = 0"

fun feedback_one :: "ingress \<Rightarrow> nat" where
  "feedback_one In_Feedback = 1"
| "feedback_one _ = 0"

fun signal_one :: "ingress \<Rightarrow> nat" where
  "signal_one In_Signal = 1"
| "signal_one _ = 0"

text \<open>The budget after a history.\<close>

fun mb_after :: "media_budget \<Rightarrow> (nat \<times> ingress) list \<Rightarrow> media_budget" where
  "mb_after b [] = b"
| "mb_after b (ev # evs) = mb_after (snd (mb_admit ev b)) evs"

lemma mb_admit_step:
  assumes "mb_admit (now, i) b = (ok, b')"
  shows "tb_step now (if ok then voice_cost i else 0) (mb_voice_bytes b) (mb_voice_bytes b')"
    and "tb_step now (if ok then voice_one i else 0) (mb_voice_packets b) (mb_voice_packets b')"
    and "tb_step now (if ok then feedback_one i else 0) (mb_feedback_packets b) (mb_feedback_packets b')"
    and "tb_step now (if ok then signal_one i else 0) (mb_signal_packets b) (mb_signal_packets b')"
proof -
  have "tb_step now (if ok then voice_cost i else 0) (mb_voice_bytes b) (mb_voice_bytes b') \<and>
    tb_step now (if ok then voice_one i else 0) (mb_voice_packets b) (mb_voice_packets b') \<and>
    tb_step now (if ok then feedback_one i else 0) (mb_feedback_packets b) (mb_feedback_packets b') \<and>
    tb_step now (if ok then signal_one i else 0) (mb_signal_packets b) (mb_signal_packets b')"
  proof (cases i)
    case (In_Voice n)
    with assms show ?thesis
      by (auto simp: admit_voice_def tb_available_def tb_take_def mb_reject_def tb_step_def Let_def split: if_splits)
  next
    case In_Feedback
    obtain x t where t: "tb_take now 1 (mb_feedback_packets b) = (x, t)" by fastforce
    from assms tb_take_step [OF t] show ?thesis
      by (cases x) (auto simp: In_Feedback admit_feedback_def mb_reject_def t tb_step_def simp del: One_nat_def)
  next
    case In_Signal
    obtain x t where t: "tb_take now 1 (mb_signal_packets b) = (x, t)" by fastforce
    from assms tb_take_step [OF t] show ?thesis
      by (cases x) (auto simp: In_Signal admit_signal_def mb_reject_def t tb_step_def simp del: One_nat_def)
  qed
  then show "tb_step now (if ok then voice_cost i else 0) (mb_voice_bytes b) (mb_voice_bytes b')"
    "tb_step now (if ok then voice_one i else 0) (mb_voice_packets b) (mb_voice_packets b')"
    "tb_step now (if ok then feedback_one i else 0) (mb_feedback_packets b) (mb_feedback_packets b')"
    "tb_step now (if ok then signal_one i else 0) (mb_signal_packets b) (mb_signal_packets b')" by blast+
qed

lemma tb_step_keeps:
  "tb_step now y b b' \<Longrightarrow> tb_rate b' = tb_rate b \<and> tb_burst b' = tb_burst b \<and> (tb_capped b \<longrightarrow> tb_capped b')"
  using tb_refill_capped [of b now] by (auto simp: tb_step_def tb_capped_def)

text \<open>
  One bucket of the budget, followed through a history: \<open>get\<close> picks the bucket and \<open>cost\<close> what a frame
  takes from it.
\<close>

definition charges :: "(media_budget \<Rightarrow> token_bucket) \<Rightarrow> (ingress \<Rightarrow> nat) \<Rightarrow> bool" where
  "charges get cost \<longleftrightarrow>
     (\<forall>now i b ok b'. mb_admit (now, i) b = (ok, b') \<longrightarrow> tb_step now (if ok then cost i else 0) (get b) (get b'))"

lemma charges_all:
  "charges mb_voice_bytes voice_cost" "charges mb_voice_packets voice_one"
  "charges mb_feedback_packets feedback_one" "charges mb_signal_packets signal_one"
  unfolding charges_def using mb_admit_step by blast+

lemma charges_keeps:
  assumes "charges get cost"
  shows "tb_rate (get (mb_after b evs)) = tb_rate (get b) \<and> tb_burst (get (mb_after b evs)) = tb_burst (get b) \<and>
    (tb_capped (get b) \<longrightarrow> tb_capped (get (mb_after b evs)))"
proof (induction evs arbitrary: b)
  case (Cons ev evs)
  obtain now i where ev: "ev = (now, i)" by (cases ev)
  obtain ok b1 where a: "mb_admit (now, i) b = (ok, b1)" by fastforce
  from assms a have "tb_step now (if ok then cost i else 0) (get b) (get b1)" by (simp add: charges_def)
  from tb_step_keeps [OF this] Cons.IH [of b1] a show ?case by (simp add: ev)
qed simp

lemma charges_window:
  assumes "charges get cost" and "\<forall>ev \<in> set evs. s \<le> fst ev \<and> fst ev \<le> t" and "in_window s t x (get b)"
  shows "in_window s t (x + sum_list (map cost (mb_admitted b evs))) (get (mb_after b evs))"
  using assms(2,3)
proof (induction evs arbitrary: b x)
  case (Cons ev evs)
  obtain now i where ev: "ev = (now, i)" by (cases ev)
  obtain ok b1 where a: "mb_admit (now, i) b = (ok, b1)" by fastforce
  from assms(1) a have "tb_step now (if ok then cost i else 0) (get b) (get b1)" by (simp add: charges_def)
  from in_window_step [OF Cons.prems(2) this] Cons.prems(1) ev
  have "in_window s t (x + (if ok then cost i else 0)) (get b1)" by simp
  from Cons.IH [OF _ this] Cons.prems(1) a show ?case by (cases ok) (simp_all add: ev add.assoc)
qed simp

lemma charges_limit:
  assumes "charges get cost" and "\<forall>ev \<in> set evs. s \<le> fst ev \<and> fst ev \<le> t" and "get (mb_new t0) = tb_new rate t0"
  shows "1000000 * sum_list (map cost (mb_admitted (mb_after (mb_new t0) before) evs)) \<le>
    rate * (1000000 + (t - s) div 1000) + 999999"
proof -
  let ?b = "mb_after (mb_new t0) before"
  have k: "tb_rate (get (mb_after (mb_new t0) l)) = rate \<and> tb_burst (get (mb_after (mb_new t0) l)) = rate \<and>
      tb_capped (get (mb_after (mb_new t0) l))" for l
    using charges_keeps [OF assms(1), of "mb_new t0" l] assms(3) by (simp add: tb_new_def tb_capped_def)
  have e: "tb_rate (get (mb_after ?b evs)) = rate \<and> tb_burst (get (mb_after ?b evs)) = rate"
    using charges_keeps [OF assms(1), of ?b evs] k [of before] by simp
  have "rate * ((min t (tb_last (get (mb_after ?b evs))) - s) div 1000) \<le> rate * ((t - s) div 1000)"
    by (intro mult_le_mono2 div_le_mono) simp
  moreover have "in_window s t (sum_list (map cost (mb_admitted ?b evs))) (get (mb_after ?b evs))"
    using charges_window [OF assms(1,2) in_window_start, of ?b] k [of before] by simp
  then have "1000000 * sum_list (map cost (mb_admitted ?b evs)) \<le>
      1000000 * rate + 999999 + rate * ((min t (tb_last (get (mb_after ?b evs))) - s) div 1000)"
    using e by (simp add: in_window_def)
  ultimately show ?thesis unfolding add_mult_distrib2 by linarith
qed

text \<open>
  C0. The ingress limit holds over every window of time. Whatever a session sent before, at whatever
  times, and whatever it sends in a window from \<open>s\<close> to \<open>t\<close>, the voice bytes, voice packets, feedback packets
  and signalling packets the relay admits in the window are at most the ceiling per second times the
  length of the window, plus one second of burst and less than one more: quiet time before the window
  cannot be saved up.
\<close>

theorem media_budget_limits:
  assumes "\<forall>ev \<in> set evs. s \<le> fst ev \<and> fst ev \<le> t"
  shows "let ok = mb_admitted (mb_after (mb_new t0) before) evs; window = 1000000 + (t - s) div 1000 in
    1000000 * sum_list (map voice_cost ok) \<le> VOICE_INGRESS_BYTES_PER_SEC * window + 999999 \<and>
    1000000 * sum_list (map voice_one ok) \<le> VOICE_INGRESS_PACKETS_PER_SEC * window + 999999 \<and>
    1000000 * sum_list (map feedback_one ok) \<le> FEEDBACK_INGRESS_PACKETS_PER_SEC * window + 999999 \<and>
    1000000 * sum_list (map signal_one ok) \<le> SIGNAL_INGRESS_PACKETS_PER_SEC * window + 999999"
  unfolding Let_def
  using charges_limit [OF charges_all(1) assms] charges_limit [OF charges_all(2) assms]
    charges_limit [OF charges_all(3) assms] charges_limit [OF charges_all(4) assms]
  by (simp add: mb_new_def)

theorem media_budget_limits_witness:
  "1000000 * sum_list (map signal_one (mb_admitted (mb_after (mb_new 0) [(3, In_Signal)])
     (replicate 25 (9000000000, In_Signal)))) \<le> 20 * (1000000 + 0) + 999999"
  using media_budget_limits [of "replicate 25 (9000000000, In_Signal)" 9000000000 9000000000 0 "[(3, In_Signal)]"]
  by (simp add: Let_def SIGNAL_INGRESS_PACKETS_PER_SEC_def)

section \<open>The budget recovers\<close>

definition tb_ok :: "token_bucket \<Rightarrow> bool" where
  "tb_ok b \<longleftrightarrow> tb_burst b = tb_rate b \<and> tb_rate b \<le> U32_MAX"

lemma tb_refill_full:
  assumes "tb_ok b" and "tb_last b + 1000000000 \<le> now"
  shows "tb_tokens (tb_refill now b) = tb_burst b"
proof -
  let ?micros = "min U64_MAX ((now - tb_last b) div 1000)"
  have "1000000000 \<le> now - tb_last b" using assms(2) by simp
  from div_le_mono [OF this, of 1000] have m: "1000000 \<le> ?micros" by (simp add: U64_MAX_def)
  have r: "tb_rate b * 1000000 \<le> U64_MAX" using assms(1) by (simp add: tb_ok_def U32_MAX_def U64_MAX_def)
  have "tb_rate b * 1000000 \<le> tb_rate b * ?micros" using m by (rule mult_le_mono2)
  with r have "tb_rate b * 1000000 \<le> min U64_MAX (tb_remainder b + min U64_MAX (tb_rate b * ?micros))"
    by (intro min.boundedI trans_le_add2)
  then have "tb_rate b * 1000000 \<le> tb_total (now - tb_last b) b" by (simp only: tb_total_def Let_def)
  from div_le_mono [OF this, of 1000000] have "tb_rate b \<le> tb_total (now - tb_last b) b div 1000000" by simp
  then have "tb_gain (tb_total (now - tb_last b) b) b = tb_burst b"
    using assms(1) unfolding tb_gain_def Let_def tb_ok_def
    by (intro min.absorb2 min.boundedI trans_le_add2) simp_all
  with assms show ?thesis by (simp add: tb_refill_def Let_def)
qed

text \<open>
  A limited session recovers: one quiet second after its voice buckets were last touched, any
  voice packet up to the per-second byte ceiling is admitted, whatever was sent before.
\<close>

theorem media_budget_recovers:
  assumes "tb_ok (mb_voice_bytes b)" and "tb_ok (mb_voice_packets b)" and "0 < tb_rate (mb_voice_packets b)"
    and "tb_last (mb_voice_bytes b) + 1000000000 \<le> now" and "tb_last (mb_voice_packets b) + 1000000000 \<le> now"
    and "n \<le> tb_rate (mb_voice_bytes b)"
  shows "fst (admit_voice now n b)"
proof -
  note f = tb_refill_full [OF assms(1,4)] tb_refill_full [OF assms(2,5)]
  have "tb_burst (mb_voice_bytes b) = tb_rate (mb_voice_bytes b)" "tb_burst (mb_voice_packets b) = tb_rate (mb_voice_packets b)"
    using assms(1,2) by (simp_all add: tb_ok_def)
  with f assms(3,6) show ?thesis by (simp add: admit_voice_def tb_available_def Let_def mb_reject_def)
qed

theorem media_budget_recovers_witness: "fst (admit_voice 1000000000 1200 (mb_new 0))"
  by (rule media_budget_recovers)
    (simp_all add: mb_new_def tb_new_def tb_ok_def U32_MAX_def VOICE_INGRESS_BYTES_PER_SEC_def
      VOICE_INGRESS_PACKETS_PER_SEC_def)

end
