(* ===== verification/Slot_Bits.thy ===== *)
theory Slot_Bits
  imports Prelude
begin

text \<open>
  The slot bit sets of the voice relay (\<open>VoiceRoom\<close>, \<open>set_slot_bit\<close> and \<open>clear_slot_bit\<close> of
  \<open>crates/server/src/voice_relay.rs\<close>): arrays of 64-bit words, one bit per slot, with the loop that
  walks the set bits by counting trailing zeros and clearing the lowest one. The lemmas give them the
  meaning of sets of slots, walked in ascending order.
\<close>

unbundle bit_operations_syntax

section \<open>Definitions\<close>

type_synonym slot_words = "u64 list"

definition set_slot_bit :: "slot_words \<Rightarrow> nat \<Rightarrow> slot_words" where
  "set_slot_bit words slot = words[slot div 64 := (words ! (slot div 64)) OR push_bit (slot mod 64) 1]"

definition clear_slot_bit :: "slot_words \<Rightarrow> nat \<Rightarrow> slot_words" where
  "clear_slot_bit words slot = words[slot div 64 := (words ! (slot div 64)) AND NOT (push_bit (slot mod 64) 1)]"

definition words_empty :: "slot_words \<Rightarrow> bool" where
  "words_empty words = list_all (\<lambda>word. word = 0) words"

definition trailing_zeros :: "u64 \<Rightarrow> nat" where
  "trailing_zeros w = length (takeWhile (\<lambda>i. \<not> bit w i) [0..<64])"

section \<open>The lowest set bit\<close>

lemma trailing_zeros_spec:
  assumes "w \<noteq> 0"
  shows "trailing_zeros w < 64" and "bit w (trailing_zeros w)" and "\<And>i. i < trailing_zeros w \<Longrightarrow> \<not> bit w i"
proof -
  let ?t = "takeWhile (\<lambda>i. \<not> bit w i) [0..<64]"
  have "\<exists>i. bit w i" using assms by (metis bit_0_eq bit_eqI bot_apply bot_bool_def)
  then obtain i where i: "bit w i" by blast
  then have "i < 64" using bit_imp_le_length by fastforce
  with i have "?t \<noteq> [0..<64]" by (auto simp: takeWhile_eq_all_conv)
  then have "length ?t < length [0..<64]"
    by (metis length_takeWhile_le order_le_imp_less_or_eq takeWhile_eq_take take_all order_refl)
  then show t: "trailing_zeros w < 64" by (simp add: trailing_zeros_def)
  have "bit w ([0..<64] ! length ?t)"
    using nth_length_takeWhile [of "\<lambda>i. \<not> bit w i" "[0..<64]"] \<open>length ?t < length [0..<64]\<close> by simp
  with t show "bit w (trailing_zeros w)" by (simp add: trailing_zeros_def)
  fix j assume j: "j < trailing_zeros w"
  then have "?t ! j \<in> set ?t" by (intro nth_mem) (simp add: trailing_zeros_def)
  then have "\<not> bit w (?t ! j)" by (auto dest: set_takeWhileD)
  moreover have "?t ! j = j" using j t by (subst takeWhile_nth) (simp_all add: trailing_zeros_def)
  ultimately show "\<not> bit w j" by simp
qed

lemma bit_unat: "bit (w :: u64) i \<longleftrightarrow> odd (unat w div 2 ^ i)"
proof -
  have "bit w i \<longleftrightarrow> bit (unat w) i" by (simp add: bit_unsigned_iff)
  then show ?thesis by (simp only: bit_iff_odd)
qed

text \<open>\<open>remaining &= remaining - 1\<close> clears exactly the lowest set bit.\<close>

lemma clear_lowest:
  assumes "w \<noteq> (0 :: u64)"
  shows "bit (w AND (w - 1)) i \<longleftrightarrow> bit w i \<and> i \<noteq> trailing_zeros w"
proof -
  let ?k = "trailing_zeros w"
  note k = trailing_zeros_spec [OF assms]
  have "take_bit ?k (unat w) = 0"
  proof (rule bit_eqI)
    fix i show "bit (take_bit ?k (unat w)) i \<longleftrightarrow> bit 0 i"
      using k(3) [of i] by (auto simp: bit_take_bit_iff bit_unsigned_iff)
  qed
  then have "2 ^ ?k dvd unat w" by (simp add: take_bit_eq_0_iff)
  then obtain q where q: "unat w = 2 ^ ?k * q" by blast
  have odd: "odd q" using k(2) by (simp add: bit_unat q)
  have minus: "unat (w - 1) = unat w - 1" using assms by (simp add: unat_minus_one)
  have down: "(unat w - 1) div 2 ^ ?k = q - 1"
  proof -
    have "unat w - 1 = 2 ^ ?k * (q - 1) + (2 ^ ?k - 1)"
      using odd by (cases q) (auto simp: q algebra_simps)
    then have "(unat w - 1) div 2 ^ ?k = (q - 1) + (2 ^ ?k - 1) div 2 ^ ?k"
      by (simp only: div_mult_self4 power_not_zero zero_neq_numeral not_False_eq_True)
    also have "(2 ^ ?k - 1) div 2 ^ ?k = (0 :: nat)" by (rule div_less) simp
    finally show ?thesis by simp
  qed
  have up: "unat w div 2 ^ ?k = q" by (simp add: q)
  consider "i < ?k" | "i = ?k" | j where "i = ?k + Suc j"
    by (metis add_Suc_right less_imp_Suc_add linorder_neqE_nat)
  then show ?thesis
  proof cases
    case 1
    then show ?thesis using k(3) by (simp add: bit_and_iff)
  next
    case 2
    have "\<not> bit (w - 1) ?k" using odd by (simp only: bit_unat minus down) simp
    with 2 show ?thesis by (simp add: bit_and_iff)
  next
    case (3 j)
    have "(q - 1) div 2 = q div 2" using odd by (cases q) auto
    moreover have "(2 :: nat) ^ i = 2 ^ ?k * (2 * 2 ^ j)" by (simp add: 3 power_add)
    ultimately have "(unat w - 1) div 2 ^ i = unat w div 2 ^ i"
      by (simp only: div_mult2_eq down up)
    then have "bit (w - 1) i = bit w i" by (simp only: bit_unat minus)
    then show ?thesis by (simp add: bit_and_iff 3)
  qed
qed

lemma clear_lowest_less: "w \<noteq> (0 :: u64) \<Longrightarrow> unat (w AND (w - 1)) < unat w"
proof -
  assume w: "w \<noteq> 0"
  have "w AND (w - 1) \<le> w - 1" by (simp add: word_and_le1)
  then have "unat (w AND (w - 1)) \<le> unat (w - 1)" by (simp add: word_le_nat_alt)
  also have "unat (w - 1) = unat w - 1" using w by (rule unat_minus_one)
  also have "unat w - 1 < unat w" using w by (simp add: unat_gt_0)
  finally show "unat (w AND (w - 1)) < unat w" .
qed

function word_bits :: "u64 \<Rightarrow> nat list" where
  "word_bits remaining =
     (if remaining = 0 then []
      else trailing_zeros remaining # word_bits (remaining AND (remaining - 1)))"
  by pat_completeness auto
termination
  by (relation "measure unat") (simp_all add: clear_lowest_less)

declare word_bits.simps [simp del]

definition word_slots :: "slot_words \<Rightarrow> nat list" where
  "word_slots words = concat (map (\<lambda>(i, word). map (\<lambda>b. i * 64 + b) (word_bits word)) (enumerate 0 words))"

section \<open>The sets they stand for\<close>

lemma word_bits_filter: "word_bits w = filter (bit w) [0..<64]"
proof (induction "unat w" arbitrary: w rule: less_induct)
  case less
  show ?case
  proof (cases "w = 0")
    case True
    then show ?thesis by (simp add: word_bits.simps)
  next
    case False
    let ?k = "trailing_zeros w" and ?w = "w AND (w - 1)"
    note k = trailing_zeros_spec [OF False]
    have split: "[0..<64] = [0..<?k] @ ?k # [Suc ?k..<64]"
      using upt_add_eq_append [of 0 ?k "64 - ?k"] k(1) by (simp add: upt_conv_Cons)
    have "filter (bit w) [0..<64] = ?k # filter (bit w) [Suc ?k..<64]"
      unfolding split using k(2,3) by (auto simp: filter_empty_conv)
    moreover have "filter (bit ?w) [0..<64] = filter (bit w) [Suc ?k..<64]"
    proof -
      have "filter (bit ?w) [0..<?k] = []" "\<not> bit ?w ?k"
        using k(3) by (auto simp: filter_empty_conv clear_lowest [OF False])
      moreover have "filter (bit ?w) [Suc ?k..<64] = filter (bit w) [Suc ?k..<64]"
        by (rule filter_cong) (auto simp: clear_lowest [OF False])
      ultimately show ?thesis unfolding split by simp
    qed
    ultimately show ?thesis
      using False less.hyps [OF clear_lowest_less [OF False]] by (subst word_bits.simps) simp
  qed
qed

definition slot_mem :: "slot_words \<Rightarrow> nat \<Rightarrow> bool" where
  "slot_mem words slot \<longleftrightarrow> bit (words ! (slot div 64)) (slot mod 64)"

lemma slot_in_range: "slot < 64 * n \<Longrightarrow> slot div 64 < (n :: nat)"
  by (simp add: less_mult_imp_div_less mult.commute)

lemma bit_single: "m < 64 \<Longrightarrow> bit (2 ^ m :: u64) i \<longleftrightarrow> i = m"
  by (auto simp: bit_simps)

lemma slot_eq_iff: "(s :: nat) = t \<longleftrightarrow> s div 64 = t div 64 \<and> s mod 64 = t mod 64"
  by (metis mult_div_mod_eq)

lemma slot_mem_set:
  assumes "slot < 64 * length words"
  shows "slot_mem (set_slot_bit words slot) s \<longleftrightarrow> s = slot \<or> slot_mem words s"
  using slot_in_range [OF assms]
  by (auto simp: slot_mem_def set_slot_bit_def nth_list_update bit_or_iff bit_single slot_eq_iff [of s])

lemma slot_mem_clear:
  assumes "slot < 64 * length words"
  shows "slot_mem (clear_slot_bit words slot) s \<longleftrightarrow> s \<noteq> slot \<and> slot_mem words s"
proof (cases "s div 64 = slot div 64")
  case True
  have "bit (NOT (push_bit (slot mod 64) 1 :: u64)) (s mod 64) \<longleftrightarrow> s mod 64 \<noteq> slot mod 64"
    by (auto simp: bit_not_iff bit_single)
  then show ?thesis
    using slot_in_range [OF assms] True
    by (auto simp: slot_mem_def clear_slot_bit_def bit_and_iff slot_eq_iff [of s])
next
  case False
  then show ?thesis by (auto simp: slot_mem_def clear_slot_bit_def slot_eq_iff [of s])
qed

lemma length_slot_words [simp]:
  "length (set_slot_bit words slot) = length words" "length (clear_slot_bit words slot) = length words"
  by (simp_all add: set_slot_bit_def clear_slot_bit_def)

lemma slot_mem_zero [simp]: "s < 64 * n \<Longrightarrow> \<not> slot_mem (replicate n 0) s"
  using slot_in_range by (simp add: slot_mem_def)

lemma words_empty_iff: "words_empty words \<longleftrightarrow> (\<forall>s < 64 * length words. \<not> slot_mem words s)"
proof
  assume "words_empty words"
  then show "\<forall>s < 64 * length words. \<not> slot_mem words s"
    using slot_in_range by (auto simp: words_empty_def list_all_length slot_mem_def)
next
  assume none: "\<forall>s < 64 * length words. \<not> slot_mem words s"
  have "words ! i = 0" if i: "i < length words" for i
  proof (rule bit_eqI)
    fix n show "bit (words ! i) n \<longleftrightarrow> bit 0 n"
    proof (cases "n < 64")
      case True
      with i have "i * 64 + n < 64 * length words" by simp
      with none True show ?thesis by (auto simp: slot_mem_def)
    qed (auto dest!: bit_imp_le_length)
  qed
  then show "words_empty words" by (simp add: words_empty_def list_all_length)
qed

text \<open>Walking the words yields the members in ascending order, each once.\<close>

lemma word_slots_filter: "word_slots words = filter (slot_mem words) [0..<64 * length words]"
proof (induction words rule: rev_induct)
  case Nil
  then show ?case by (simp add: word_slots_def)
next
  case (snoc w ws)
  let ?n = "64 * length ws"
  have old: "filter (slot_mem (ws @ [w])) [0..<?n] = filter (slot_mem ws) [0..<?n]"
    using slot_in_range by (intro filter_cong) (auto simp: slot_mem_def nth_append)
  have shift: "[?n..<?n + 64] = map (\<lambda>b. ?n + b) [0..<64]"
    using map_add_upt [of ?n 64] by (simp add: add.commute)
  have "filter (slot_mem (ws @ [w])) [?n..<?n + 64] = map (\<lambda>b. length ws * 64 + b) (filter (bit w) [0..<64])"
    unfolding shift filter_map by (auto simp: slot_mem_def mult.commute intro!: map_cong filter_cong)
  then have "filter (slot_mem (ws @ [w])) [0..<64 * length (ws @ [w])]
      = filter (slot_mem ws) [0..<?n] @ map (\<lambda>b. length ws * 64 + b) (filter (bit w) [0..<64])"
    using old upt_add_eq_append [of 0 ?n 64] by (simp add: add.commute [of 64])
  then show ?case using snoc by (simp add: word_slots_def enumerate_append_eq word_bits_filter)
qed

lemma set_word_slots: "set (word_slots words) = {s. s < 64 * length words \<and> slot_mem words s}"
  by (auto simp: word_slots_filter)

lemma distinct_word_slots: "distinct (word_slots words)"
  by (simp add: word_slots_filter)

end
