(* ===== verification/Net.thy ===== *)
theory Net
  imports Prelude
begin

text \<open>Internet addresses as \<open>std::net\<close> has them, for the components that keep or compare them.\<close>

datatype ip_addr = IpV4 u32 | IpV6 "128 word"

text \<open>A \<open>SocketAddrV6\<close> has a flow label and a scope besides its address and port.\<close>

datatype socket_addr = SockV4 u32 u16 | SockV6 "128 word" u16 u32 u32

fun sock_ip :: "socket_addr \<Rightarrow> ip_addr" where
  "sock_ip (SockV4 a p) = IpV4 a"
| "sock_ip (SockV6 a p f s) = IpV6 a"

fun sock_port :: "socket_addr \<Rightarrow> u16" where
  "sock_port (SockV4 a p) = p"
| "sock_port (SockV6 a p f s) = p"

text \<open>\<open>SocketAddr::new(ip, port)\<close>: no flow label, no scope.\<close>

fun sock_new :: "ip_addr \<Rightarrow> u16 \<Rightarrow> socket_addr" where
  "sock_new (IpV4 a) p = SockV4 a p"
| "sock_new (IpV6 a) p = SockV6 a p 0 0"

end
