(* ===== verification/Voice_Relay.thy ===== *)
theory Voice_Relay
  imports Voice_Lane Token_Bucket Slot_Bits Net
begin

text \<open>
  The media event loop of the server (\<open>crates/server/src/voice_relay.rs\<close>): sessions and their routes,
  the rooms as bit sets of slots, the UDP side, the TCP voice lanes with their admission permits, and
  the whole packet handler with its relaying.

  The relay's fields are one record. What the code reads from outside is the parameter \<open>io\<close>, over an
  environment that is threaded through: the clock, the receive and write calls of a lane's socket
  (named by a number), and the registration with the poll. A datagram that is sent is appended to
  \<open>udp_sent\<close>; the code ignores the outcome of that send apart from a log line. The contents of the send
  buffer after a failed seal are never read and are not modelled. Bytes in a slice index, log lines,
  thread priority, quality of service and the poll itself have no counterpart.
\<close>

section \<open>Definitions\<close>

definition MAX_SESSIONS :: nat where "MAX_SESSIONS = 1024"
definition SESSION_WORDS :: nat where "SESSION_WORDS = 16"
definition MAX_TCP_VOICE_CONNS :: nat where "MAX_TCP_VOICE_CONNS = MAX_SESSIONS"
definition MAX_PENDING_TCP_VOICE :: nat where "MAX_PENDING_TCP_VOICE = 32"
definition VOICE_TCP_AUTH_TIMEOUT :: nat where "VOICE_TCP_AUTH_TIMEOUT = 5000000000"
definition VOICE_TCP_READ_BUDGET_BYTES :: nat where "VOICE_TCP_READ_BUDGET_BYTES = 16 * 1024"
definition VOICE_TCP_WRITE_ATTEMPTS :: nat where "VOICE_TCP_WRITE_ATTEMPTS = 32"
definition VOICE_TCP_WRITE_CAP_BYTES :: nat where "VOICE_TCP_WRITE_CAP_BYTES = 32 * 1024"
definition VOICE_TCP_MAX_WIRE_FRAME_BYTES :: nat where
  "VOICE_TCP_MAX_WIRE_FRAME_BYTES = LENGTH_PREFIX_LEN + VOICE_TCP_MAX_FRAME_BYTES"
definition VOICE_TCP_STALE_BACKLOG :: nat where "VOICE_TCP_STALE_BACKLOG = 250000000"
definition MAX_UDP_DATAGRAM_BYTES :: nat where "MAX_UDP_DATAGRAM_BYTES = 2048"
definition UDP_DRAIN_BUDGET :: nat where "UDP_DRAIN_BUDGET = 64"
definition MAX_BIND_ADDRS :: nat where "MAX_BIND_ADDRS = 32"
definition PROBE_BIT :: nat where "PROBE_BIT = MAX_BIND_ADDRS"
definition UDP_PROBE :: nat where "UDP_PROBE = MAX_BIND_ADDRS"
definition TCP_CONN_BASE :: nat where "TCP_CONN_BASE = MAX_BIND_ADDRS + 2"
definition POLL_TIMEOUT :: nat where "POLL_TIMEOUT = 100000000"
definition ACTIVITY_FLUSH_INTERVAL :: nat where "ACTIVITY_FLUSH_INTERVAL = 1000000000"

type_synonym session_id = u64
type_synonym room_id = u32

record session_route =
  sr_room_id :: room_id
  sr_stream_id :: u32

record tcp_voice_conn =
  vc_socket :: nat
  vc_addr :: socket_addr
  vc_read_buf :: recv_buffer
  vc_readiness :: bool
  vc_write_queue :: write_queue
  vc_write_blocked :: bool
  vc_session :: "session_id option"
  vc_permit :: bool
  vc_attached_at :: nat
  vc_backlog_since :: "nat option"

record voice_session =
  vs_slot :: nat
  vs_user_id :: u64
  vs_protection :: media_protection
  vs_recv_replay :: anti_replay
  vs_send_counter :: u64
  vs_udp_addr :: "socket_addr option"
  vs_udp_bind_index :: nat
  vs_tcp_conn :: "nat option"
  vs_route :: "session_route option"
  vs_budget :: media_budget
  vs_last_activity :: nat
  vs_reported_rtt_ms :: "u16 option"
  vs_rtt_reported_at :: "nat option"
  vs_activity_dirty :: bool

datatype packet_origin = Udp byte nat socket_addr | Tcp nat

datatype packet_error =
    Packet_Media media_error | UnknownRoute | UnknownSession | NatProbeUnavailable | UnboundSource
  | UnknownNatProbe | UnauthenticatedConn | SessionMismatch

record voice_activity =
  va_last_activity :: nat
  va_reported_rtt_ms :: "u16 option"
  va_rtt_reported_at :: "nat option"

record voice_event_batch =
  ev_udp_bound :: "session_id \<Rightarrow> socket_addr option"
  ev_nat_probe :: "session_id \<times> byte \<Rightarrow> socket_addr option"
  ev_activity :: "session_id \<Rightarrow> voice_activity option"
  ev_failure :: "string option"

datatype voice_command =
    RegisterSession session_id u64 media_protection
  | SetRoute session_id "session_route option"
  | RemoveSession session_id
  | AttachTcp nat socket_addr recv_buffer
  | Shutdown

record 'env voice_relay =
  udp_count :: nat
  has_probe :: bool
  commands :: "voice_command list"
  events :: voice_event_batch
  p2p_enabled :: bool
  sessions :: "session_id \<Rightarrow> voice_session option"
  route_to_session :: "u32 \<Rightarrow> session_id option"
  rooms :: "room_id \<Rightarrow> slot_words option"
  stream_owners :: "room_id \<times> u32 \<Rightarrow> session_id option"
  session_slots :: "session_id option list"
  next_activity_flush :: nat
  event_buf :: voice_event_batch
  udp_send_packet :: bytes
  udp_sent :: "(nat \<times> bytes \<times> socket_addr) list"
  udp_work :: u64
  tcp_conns :: "tcp_voice_conn option list"
  handoff_held :: nat
  tcp_read_work :: slot_words
  tcp_write_work :: slot_words
  shutting_down :: bool
  relay_env :: 'env

datatype control_act = Submit voice_command | Handoff nat socket_addr recv_buffer | TakeEvents

record 'env relay_io =
  io_now :: "'env \<Rightarrow> nat \<times> 'env"
  io_recv :: "nat \<Rightarrow> 'env recv_fun"
  io_send :: "nat \<Rightarrow> 'env send_fun"
  io_register :: "nat \<Rightarrow> 'env \<Rightarrow> bool \<times> 'env"
  io_recv_from :: "nat \<Rightarrow> 'env \<Rightarrow> (io_error, bytes \<times> socket_addr) result \<times> 'env"
  io_is_datagram_error :: "io_error \<Rightarrow> bool"
  io_control :: "'env \<Rightarrow> control_act list \<times> 'env"
  io_poll :: "nat \<Rightarrow> 'env \<Rightarrow> (io_error, (nat \<times> mio_ready) list) result \<times> 'env"

subsection \<open>The batch of events for the control loop\<close>

definition ev_with_capacity :: voice_event_batch where
  "ev_with_capacity = \<lparr>ev_udp_bound = Map.empty, ev_nat_probe = Map.empty, ev_activity = Map.empty, ev_failure = None\<rparr>"

definition ev_is_empty :: "voice_event_batch \<Rightarrow> bool" where
  "ev_is_empty b \<longleftrightarrow> ev_udp_bound b = Map.empty \<and> ev_nat_probe b = Map.empty \<and> ev_activity b = Map.empty
     \<and> ev_failure b = None"

text \<open>The submitted batch and what is left in the producer's one.\<close>

definition submit_all :: "voice_event_batch \<Rightarrow> voice_event_batch \<Rightarrow> voice_event_batch \<times> voice_event_batch" where
  "submit_all pending evs =
     (if ev_is_empty evs then (pending, evs)
      else if ev_is_empty pending then (evs, pending)
      else (\<lparr>ev_udp_bound = ev_udp_bound pending ++ ev_udp_bound evs,
             ev_nat_probe = ev_nat_probe pending ++ ev_nat_probe evs,
             ev_activity = ev_activity pending ++ ev_activity evs,
             ev_failure = (if ev_failure evs \<noteq> None then ev_failure evs else ev_failure pending)\<rparr>,
            ev_with_capacity))"

definition submit_failure :: "string \<Rightarrow> voice_event_batch \<Rightarrow> voice_event_batch" where
  "submit_failure failure pending = pending\<lparr>ev_failure := Some failure\<rparr>"

definition relay_new :: "nat \<Rightarrow> bool \<Rightarrow> bool \<Rightarrow> nat \<Rightarrow> 'env \<Rightarrow> 'env voice_relay" where
  "relay_new udp probe p2p now env =
     \<lparr>udp_count = udp, has_probe = probe, commands = [], events = ev_with_capacity, p2p_enabled = p2p,
      sessions = Map.empty, route_to_session = Map.empty, rooms = Map.empty, stream_owners = Map.empty,
      session_slots = replicate MAX_SESSIONS None, next_activity_flush = now + ACTIVITY_FLUSH_INTERVAL,
      event_buf = ev_with_capacity, udp_send_packet = [], udp_sent = [], udp_work = 0,
      tcp_conns = replicate MAX_TCP_VOICE_CONNS None, handoff_held = 0,
      tcp_read_work = replicate SESSION_WORDS 0, tcp_write_work = replicate SESSION_WORDS 0,
      shutting_down = False, relay_env = env\<rparr>"

definition now_of :: "'env relay_io \<Rightarrow> 'env voice_relay \<Rightarrow> nat \<times> 'env voice_relay" where
  "now_of io r = (case io_now io (relay_env r) of (t, e) \<Rightarrow> (t, r\<lparr>relay_env := e\<rparr>))"

text \<open>\<open>iter().position(Option::is_none)\<close>.\<close>

definition first_free :: "'a option list \<Rightarrow> nat option" where
  "first_free xs = (let n = length (takeWhile (\<lambda>x. x \<noteq> None) xs) in if n < length xs then Some n else None)"

subsection \<open>Admission permits\<close>

definition reserve_handoff :: "'env voice_relay \<Rightarrow> bool \<times> 'env voice_relay" where
  "reserve_handoff r =
     (if handoff_held r \<ge> MAX_PENDING_TCP_VOICE then (False, r)
      else (True, r\<lparr>handoff_held := handoff_held r + 1\<rparr>))"

definition drop_permit :: "bool \<Rightarrow> 'env voice_relay \<Rightarrow> 'env voice_relay" where
  "drop_permit held r = (if held then r\<lparr>handoff_held := handoff_held r - 1\<rparr> else r)"

subsection \<open>Lanes and sessions\<close>

definition detach_tcp_conn :: "nat \<Rightarrow> 'env voice_relay \<Rightarrow> 'env voice_relay" where
  "detach_tcp_conn slot r =
     (case tcp_conns r ! slot of
        None \<Rightarrow> r
      | Some conn \<Rightarrow>
          let r1 = r\<lparr>tcp_conns := (tcp_conns r)[slot := None],
                     tcp_read_work := clear_slot_bit (tcp_read_work r) slot,
                     tcp_write_work := clear_slot_bit (tcp_write_work r) slot\<rparr>;
              r2 = (case vc_session conn of
                      None \<Rightarrow> r1
                    | Some sid \<Rightarrow>
                        (case sessions r1 sid of
                           None \<Rightarrow> r1
                         | Some s \<Rightarrow>
                             if vs_tcp_conn s = Some slot
                             then r1\<lparr>sessions := (sessions r1)(sid \<mapsto> s\<lparr>vs_tcp_conn := None\<rparr>)\<rparr>
                             else r1))
          in drop_permit (vc_permit conn) r2)"

definition leave_room :: "session_id \<Rightarrow> nat \<Rightarrow> session_route \<Rightarrow> 'env voice_relay \<Rightarrow> 'env voice_relay" where
  "leave_room sid slot old r =
     (let room' = map_option (\<lambda>room. clear_slot_bit room slot) (rooms r (sr_room_id old));
          remove_room = (case room' of None \<Rightarrow> False | Some room \<Rightarrow> words_empty room);
          r1 = r\<lparr>rooms := (rooms r)(sr_room_id old := room')\<rparr>;
          r2 = (if stream_owners r1 (sr_room_id old, sr_stream_id old) = Some sid
                then r1\<lparr>stream_owners := (stream_owners r1)((sr_room_id old, sr_stream_id old) := None)\<rparr> else r1)
      in if remove_room then r2\<lparr>rooms := (rooms r2)(sr_room_id old := None)\<rparr> else r2)"

definition enter_room :: "session_id \<Rightarrow> nat \<Rightarrow> session_route \<Rightarrow> 'env voice_relay \<Rightarrow> 'env voice_relay" where
  "enter_room sid slot new r =
     (let room = (case rooms r (sr_room_id new) of None \<Rightarrow> replicate SESSION_WORDS 0 | Some room \<Rightarrow> room)
      in r\<lparr>rooms := (rooms r)(sr_room_id new \<mapsto> set_slot_bit room slot),
           stream_owners := (stream_owners r)((sr_room_id new, sr_stream_id new) \<mapsto> sid)\<rparr>)"

definition set_route :: "session_id \<Rightarrow> session_route option \<Rightarrow> 'env voice_relay \<Rightarrow> 'env voice_relay" where
  "set_route sid route r =
     (case sessions r sid of
        None \<Rightarrow> r
      | Some session \<Rightarrow>
          if vs_route session = route then r
          else
            let r1 = (case vs_route session of None \<Rightarrow> r | Some old \<Rightarrow> leave_room sid (vs_slot session) old r);
                r2 = r1\<lparr>sessions := (sessions r1)(sid \<mapsto> session\<lparr>vs_route := route\<rparr>)\<rparr>
            in (case route of None \<Rightarrow> r2 | Some new \<Rightarrow> enter_room sid (vs_slot session) new r2))"

definition remove_session :: "session_id \<Rightarrow> 'env voice_relay \<Rightarrow> 'env voice_relay" where
  "remove_session sid r0 =
     (let r = set_route sid None r0 in
      case sessions r sid of
        None \<Rightarrow> r
      | Some session \<Rightarrow>
          let r1 = r\<lparr>sessions := (sessions r)(sid := None),
                     session_slots := (session_slots r)[vs_slot session := None],
                     route_to_session := (route_to_session r)(protection_route_id (vs_protection session) := None)\<rparr>
          in (case vs_tcp_conn session of None \<Rightarrow> r1 | Some slot \<Rightarrow> detach_tcp_conn slot r1))"

definition register_session ::
  "'env relay_io \<Rightarrow> session_id \<Rightarrow> u64 \<Rightarrow> media_protection \<Rightarrow> 'env voice_relay \<Rightarrow> 'env voice_relay" where
  "register_session io sid user protection r0 =
     (let route_id = protection_route_id protection in
      if (case route_to_session r0 route_id of None \<Rightarrow> False | Some existing \<Rightarrow> existing \<noteq> sid) then r0
      else
        let r = (if sessions r0 sid \<noteq> None then remove_session sid r0 else r0) in
        case first_free (session_slots r) of
          None \<Rightarrow> r
        | Some slot \<Rightarrow>
            (case now_of io r of (now, r) \<Rightarrow>
               r\<lparr>session_slots := (session_slots r)[slot := Some sid],
                 route_to_session := (route_to_session r)(route_id \<mapsto> sid),
                 sessions := (sessions r)(sid \<mapsto>
                   \<lparr>vs_slot = slot, vs_user_id = user, vs_protection = protection, vs_recv_replay = ar_new,
                    vs_send_counter = 0, vs_udp_addr = None, vs_udp_bind_index = 0, vs_tcp_conn = None,
                    vs_route = None, vs_budget = mb_new now, vs_last_activity = now, vs_reported_rtt_ms = None,
                    vs_rtt_reported_at = None, vs_activity_dirty = False\<rparr>)\<rparr>))"

definition attach_tcp_conn ::
  "'env relay_io \<Rightarrow> nat \<Rightarrow> socket_addr \<Rightarrow> recv_buffer \<Rightarrow> 'env voice_relay \<Rightarrow> 'env voice_relay" where
  "attach_tcp_conn io socket addr read_buf r =
     (case first_free (tcp_conns r) of
        None \<Rightarrow> drop_permit True r
      | Some slot \<Rightarrow>
          (case io_register io socket (relay_env r) of
             (False, e) \<Rightarrow> drop_permit True (r\<lparr>relay_env := e\<rparr>)
           | (True, e) \<Rightarrow>
               (case now_of io (r\<lparr>relay_env := e\<rparr>) of (now, r) \<Rightarrow>
                  r\<lparr>tcp_conns := (tcp_conns r)[slot :=
                      Some \<lparr>vc_socket = socket, vc_addr = addr, vc_read_buf = read_buf, vc_readiness = True,
                            vc_write_queue = wq_new, vc_write_blocked = False, vc_session = None,
                            vc_permit = True, vc_attached_at = now, vc_backlog_since = None\<rparr>],
                    tcp_read_work := set_slot_bit (tcp_read_work r) slot\<rparr>)))"

definition bind_tcp_conn :: "nat \<Rightarrow> session_id \<Rightarrow> 'env voice_relay \<Rightarrow> 'env voice_relay" where
  "bind_tcp_conn slot sid r =
     (case tcp_conns r ! slot of
        None \<Rightarrow> r
      | Some conn \<Rightarrow>
          if vc_session conn \<noteq> None then r
          else
            let r1 = drop_permit (vc_permit conn)
                       (r\<lparr>tcp_conns := (tcp_conns r)[slot := Some (conn\<lparr>vc_session := Some sid, vc_permit := False\<rparr>)]\<rparr>)
            in case sessions r1 sid of
                 None \<Rightarrow> r1
               | Some session \<Rightarrow>
                   let r2 = r1\<lparr>sessions := (sessions r1)(sid \<mapsto> session\<lparr>vs_tcp_conn := Some slot\<rparr>)\<rparr>
                   in (case vs_tcp_conn session of
                         None \<Rightarrow> r2
                       | Some previous \<Rightarrow> if previous \<noteq> slot then detach_tcp_conn previous r2 else r2))"

definition run_command :: "'env relay_io \<Rightarrow> voice_command \<Rightarrow> 'env voice_relay \<Rightarrow> 'env voice_relay" where
  "run_command io cmd r =
     (case cmd of
        RegisterSession sid user protection \<Rightarrow> register_session io sid user protection r
      | SetRoute sid route \<Rightarrow> set_route sid route r
      | RemoveSession sid \<Rightarrow> remove_session sid r
      | AttachTcp socket addr read_buf \<Rightarrow> attach_tcp_conn io socket addr read_buf r
      | Shutdown \<Rightarrow> r\<lparr>shutting_down := True\<rparr>)"

text \<open>
  What the control loop does to the shared parts: it submits a command, hands a lane over under a permit
  it reserves first, or takes the pending events.
\<close>

definition control_step :: "control_act \<Rightarrow> 'env voice_relay \<Rightarrow> 'env voice_relay" where
  "control_step act r =
     (case act of
        Submit cmd \<Rightarrow> (case cmd of AttachTcp _ _ _ \<Rightarrow> r | _ \<Rightarrow> r\<lparr>commands := commands r @ [cmd]\<rparr>)
      | Handoff socket addr read_buf \<Rightarrow>
          (case reserve_handoff r of
             (False, r) \<Rightarrow> r
           | (True, r) \<Rightarrow> r\<lparr>commands := commands r @ [AttachTcp socket addr read_buf]\<rparr>)
      | TakeEvents \<Rightarrow> r\<lparr>events := ev_with_capacity\<rparr>)"

definition control_loop :: "'env relay_io \<Rightarrow> 'env voice_relay \<Rightarrow> 'env voice_relay" where
  "control_loop io r =
     (case io_control io (relay_env r) of (acts, e) \<Rightarrow> fold control_step acts (r\<lparr>relay_env := e\<rparr>))"

definition drain_commands :: "'env relay_io \<Rightarrow> 'env voice_relay \<Rightarrow> 'env voice_relay" where
  "drain_commands io r0 =
     (let r = control_loop io r0 in fold (run_command io) (commands r) (r\<lparr>commands := []\<rparr>))"

subsection \<open>Sending\<close>

definition detach_stale_tcp_backlog :: "nat \<Rightarrow> nat \<Rightarrow> 'env voice_relay \<Rightarrow> bool \<times> 'env voice_relay" where
  "detach_stale_tcp_backlog slot now r =
     (let stale = (case tcp_conns r ! slot of
                     None \<Rightarrow> False
                   | Some conn \<Rightarrow>
                       (case vc_backlog_since conn of
                          None \<Rightarrow> False
                        | Some since \<Rightarrow> now - since \<ge> VOICE_TCP_STALE_BACKLOG))
      in (stale, if stale then detach_tcp_conn slot r else r))"

definition upd_conn :: "nat \<Rightarrow> (tcp_voice_conn \<Rightarrow> tcp_voice_conn) \<Rightarrow> 'env voice_relay \<Rightarrow> 'env voice_relay" where
  "upd_conn slot g r =
     (case tcp_conns r ! slot of
        None \<Rightarrow> r
      | Some conn \<Rightarrow> r\<lparr>tcp_conns := (tcp_conns r)[slot := Some (g conn)]\<rparr>)"

definition flush_tcp :: "'env relay_io \<Rightarrow> nat \<Rightarrow> 'env voice_relay \<Rightarrow> 'env voice_relay" where
  "flush_tcp io slot r =
     (case tcp_conns r ! slot of
        None \<Rightarrow> r
      | Some conn \<Rightarrow>
          if vc_write_blocked conn \<or> wq_is_empty (vc_write_queue conn) then r
          else
            (case write_queue_to (io_send io (vc_socket conn)) (relay_env r) (vc_write_queue conn) VOICE_TCP_WRITE_ATTEMPTS of
               (Inl e, q, env) \<Rightarrow>
                 detach_tcp_conn slot (upd_conn slot (\<lambda>c. c\<lparr>vc_write_queue := q\<rparr>) (r\<lparr>relay_env := env\<rparr>))
             | (Inr outcome, q, env) \<Rightarrow>
                 (case now_of io (r\<lparr>relay_env := env\<rparr>) of (now, r1) \<Rightarrow>
                    let r2 = upd_conn slot (\<lambda>c. c\<lparr>vc_write_queue := q,
                               vc_backlog_since := (if wq_is_empty q then None else vc_backlog_since c),
                               vc_write_blocked := (vc_write_blocked c \<or> blocked outcome)\<rparr>) r1;
                        r3 = (if \<not> blocked outcome \<and> wp_hit_limit outcome
                              then r2\<lparr>tcp_write_work := set_slot_bit (tcp_write_work r2) slot\<rparr> else r2)
                    in if wrote_zero outcome then detach_tcp_conn slot r3
                       else snd (detach_stale_tcp_backlog slot now r3))))"

definition admit_tcp_send :: "'env relay_io \<Rightarrow> nat \<Rightarrow> 'env voice_relay \<Rightarrow> bool \<times> 'env voice_relay" where
  "admit_tcp_send io slot r0 =
     (case now_of io r0 of (now, r1) \<Rightarrow>
        (case detach_stale_tcp_backlog slot now r1 of
           (True, r) \<Rightarrow> (False, r)
         | (False, r) \<Rightarrow>
             (case tcp_conns r ! slot of
                None \<Rightarrow> (False, r)
              | Some conn \<Rightarrow>
                  if wq_len (vc_write_queue conn) \<le> VOICE_TCP_WRITE_CAP_BYTES - VOICE_TCP_MAX_WIRE_FRAME_BYTES
                  then (True, r)
                  else (False, detach_tcp_conn slot r))))"

definition seal_for_session ::
  "crypto_fns \<Rightarrow> session_id \<Rightarrow> media_payload_ref \<Rightarrow> 'env voice_relay \<Rightarrow> bool \<times> 'env voice_relay" where
  "seal_for_session F sid payload r =
     (case sessions r sid of
        None \<Rightarrow> (False, r)
      | Some session \<Rightarrow>
          let counter = vs_send_counter session;
              r1 = r\<lparr>sessions := (sessions r)(sid \<mapsto> session\<lparr>vs_send_counter := counter + 1\<rparr>)\<rparr>
          in case seal_media_ref_into F (vs_protection session) counter payload of
               Inl e \<Rightarrow> (False, r1)
             | Inr packet \<Rightarrow> (True, r1\<lparr>udp_send_packet := packet\<rparr>))"

definition send_udp_sealed :: "nat \<Rightarrow> socket_addr \<Rightarrow> 'env voice_relay \<Rightarrow> 'env voice_relay" where
  "send_udp_sealed bind_index addr r =
     r\<lparr>udp_sent := udp_sent r @ [(bind_index, udp_send_packet r, addr)]\<rparr>"

definition send_tcp_sealed :: "'env relay_io \<Rightarrow> nat \<Rightarrow> 'env voice_relay \<Rightarrow> 'env voice_relay" where
  "send_tcp_sealed io slot r =
     (case tcp_conns r ! slot of
        None \<Rightarrow> r
      | Some conn \<Rightarrow>
          (case encode_frame (udp_send_packet r) [] of
             Inl e \<Rightarrow> r
           | Inr framed \<Rightarrow>
               let r1 = upd_conn slot (\<lambda>c. c\<lparr>vc_write_queue := wq_tail_append framed (vc_write_queue c)\<rparr>) r;
                   r2 = (if vc_backlog_since conn = None
                         then (case now_of io r1 of (now, r') \<Rightarrow> upd_conn slot (\<lambda>c. c\<lparr>vc_backlog_since := Some now\<rparr>) r')
                         else r1)
               in flush_tcp io slot r2))"

definition send_lane ::
  "'env relay_io \<Rightarrow> crypto_fns \<Rightarrow> nat \<Rightarrow> session_id \<Rightarrow> media_payload_ref \<Rightarrow> 'env voice_relay \<Rightarrow> 'env voice_relay" where
  "send_lane io F slot sid payload r =
     (case admit_tcp_send io slot r of
        (False, r1) \<Rightarrow> r1
      | (True, r1) \<Rightarrow>
          (case seal_for_session F sid payload r1 of
             (False, r2) \<Rightarrow> r2
           | (True, r2) \<Rightarrow> send_tcp_sealed io slot r2))"

definition send_payload ::
  "'env relay_io \<Rightarrow> crypto_fns \<Rightarrow> session_id \<Rightarrow> media_payload_ref \<Rightarrow> 'env voice_relay \<Rightarrow> 'env voice_relay" where
  "send_payload io F sid payload r =
     (case sessions r sid of
        None \<Rightarrow> r
      | Some session \<Rightarrow>
          (case vs_tcp_conn session of
             Some slot \<Rightarrow> send_lane io F slot sid payload r
           | None \<Rightarrow>
               (case vs_udp_addr session of
                  None \<Rightarrow> r
                | Some addr \<Rightarrow>
                    (case seal_for_session F sid payload r of
                       (False, r1) \<Rightarrow> r1
                     | (True, r1) \<Rightarrow> send_udp_sealed (vs_udp_bind_index session) addr r1))))"

definition send_pong ::
  "'env relay_io \<Rightarrow> crypto_fns \<Rightarrow> session_id \<Rightarrow> packet_origin \<Rightarrow> u64 \<Rightarrow> 'env voice_relay \<Rightarrow> 'env voice_relay" where
  "send_pong io F sid origin nonce r =
     (case origin of
        Udp probe bind_index src \<Rightarrow>
          if probe = 0 then
            (case seal_for_session F sid (PongRef nonce) r of
               (False, r1) \<Rightarrow> r1
             | (True, r1) \<Rightarrow> send_udp_sealed bind_index src r1)
          else send_payload io F sid (PongRef nonce) r
      | Tcp slot \<Rightarrow> send_lane io F slot sid (PongRef nonce) r)"

subsection \<open>Relaying\<close>

definition voice_recipients :: "session_id \<Rightarrow> room_id \<Rightarrow> 'env voice_relay \<Rightarrow> session_id list" where
  "voice_recipients sender room_id r =
     (case rooms r room_id of
        None \<Rightarrow> []
      | Some members \<Rightarrow>
          concat (map (\<lambda>slot. case session_slots r ! slot of
                                None \<Rightarrow> []
                              | Some recipient \<Rightarrow> if recipient \<noteq> sender then [recipient] else [])
                      (word_slots members)))"

definition session_route_of :: "session_id \<Rightarrow> 'env voice_relay \<Rightarrow> session_route option" where
  "session_route_of sid r = Option.bind (sessions r sid) vs_route"

definition relay_voice ::
  "'env relay_io \<Rightarrow> crypto_fns \<Rightarrow> session_id \<Rightarrow> u32 \<Rightarrow> u32 \<Rightarrow> u32 \<Rightarrow> byte \<Rightarrow> voice_payload_ref
     \<Rightarrow> 'env voice_relay \<Rightarrow> 'env voice_relay" where
  "relay_voice io F sender stream_id sequence timestamp flags voice r =
     (case session_route_of sender r of
        None \<Rightarrow> r
      | Some route \<Rightarrow>
          if sr_stream_id route \<noteq> stream_id then r
          else fold (\<lambda>recipient. send_payload io F recipient (VoiceRef stream_id sequence timestamp flags voice))
                 (voice_recipients sender (sr_room_id route) r) r)"

definition relay_feedback ::
  "'env relay_io \<Rightarrow> crypto_fns \<Rightarrow> session_id \<Rightarrow> u32 \<Rightarrow> voice_feedback \<Rightarrow> 'env voice_relay \<Rightarrow> 'env voice_relay" where
  "relay_feedback io F reporter_session stream_id feedback r =
     (case session_route_of reporter_session r of
        None \<Rightarrow> r
      | Some route \<Rightarrow>
          (case stream_owners r (sr_room_id route, stream_id) of
             None \<Rightarrow> r
           | Some owner \<Rightarrow>
               if owner = reporter_session then r
               else
                 (case sessions r reporter_session of
                    None \<Rightarrow> r
                  | Some reporter \<Rightarrow>
                      send_payload io F owner (VoiceFeedbackFromRef (vs_user_id reporter) stream_id feedback) r)))"

subsection \<open>The packet handler\<close>

text \<open>The gate a packet passes before it is opened: the route's session and its transport rules.\<close>

definition origin_gate :: "packet_origin \<Rightarrow> byte \<Rightarrow> session_id \<Rightarrow> voice_session \<Rightarrow> 'env voice_relay
    \<Rightarrow> (packet_error, unit) result" where
  "origin_gate origin kind sid session r =
     (case origin of
        Udp _ _ src \<Rightarrow>
          if (case vs_protection session of MediaClear _ _ \<Rightarrow> True | MediaAead _ _ _ \<Rightarrow> False)
             \<and> kind \<noteq> KIND_BIND \<and> vs_udp_addr session \<noteq> Some src
          then Inl UnboundSource else Inr ()
      | Tcp slot \<Rightarrow>
          (case tcp_conns r ! slot of
             None \<Rightarrow> Inl UnknownSession
           | Some conn \<Rightarrow>
               (case vc_session conn of
                  Some bound \<Rightarrow> if bound \<noteq> sid then Inl SessionMismatch else Inr ()
                | None \<Rightarrow> if kind \<noteq> KIND_BIND then Inl UnauthenticatedConn else Inr ())))"

definition note_address :: "packet_origin \<Rightarrow> address_proof \<Rightarrow> voice_session \<Rightarrow> bool \<times> voice_session" where
  "note_address origin proven session =
     (case origin of
        Tcp _ \<Rightarrow> (False, session)
      | Udp probe bind_index src \<Rightarrow>
          if proven = NoAddressProof \<or> probe \<noteq> 0 then (False, session)
          else
            let changed = (case vs_udp_addr session of None \<Rightarrow> False | Some old \<Rightarrow> old \<noteq> src);
                s1 = session\<lparr>vs_udp_addr := Some src, vs_udp_bind_index := bind_index\<rparr>
            in (changed, if changed then s1\<lparr>vs_reported_rtt_ms := None, vs_rtt_reported_at := None\<rparr> else s1))"

definition admit_kind :: "byte \<Rightarrow> nat \<Rightarrow> nat \<Rightarrow> media_budget \<Rightarrow> bool \<times> media_budget" where
  "admit_kind kind now wire_bytes b =
     (if kind = KIND_VOICE then admit_voice now wire_bytes b
      else if kind = KIND_VOICE_FEEDBACK then admit_feedback now b
      else admit_signal now b)"

definition dispatch_payload ::
  "'env relay_io \<Rightarrow> crypto_fns \<Rightarrow> packet_origin \<Rightarrow> session_id \<Rightarrow> bool \<Rightarrow> media_payload_ref \<Rightarrow> 'env voice_relay
     \<Rightarrow> (packet_error, unit) result \<times> 'env voice_relay" where
  "dispatch_payload io F origin sid udp_addr_changed payload r =
     (case payload of
        BindRef \<Rightarrow>
          (case origin of
             Udp probe _ src \<Rightarrow>
               if probe = 0
               then (Inr (), r\<lparr>event_buf := (event_buf r)\<lparr>ev_udp_bound := (ev_udp_bound (event_buf r))(sid \<mapsto> src)\<rparr>\<rparr>)
               else (Inr (), r)
           | Tcp _ \<Rightarrow> (Inr (), r))
      | NatProbeRef probe_id \<Rightarrow>
          (case origin of
             Tcp _ \<Rightarrow> (Inr (), r)
           | Udp server_probe_id _ src \<Rightarrow>
               if \<not> p2p_enabled r then (Inr (), r)
               else
                 let probe = max probe_id server_probe_id in
                 if probe > 1 then (Inl UnknownNatProbe, r)
                 else (Inr (), r\<lparr>event_buf := (event_buf r)\<lparr>ev_nat_probe := (ev_nat_probe (event_buf r))((sid, probe) \<mapsto> src)\<rparr>\<rparr>))
      | VoiceRef stream_id sequence timestamp flags voice \<Rightarrow>
          (Inr (), relay_voice io F sid stream_id sequence timestamp flags voice r)
      | VoiceFeedbackRef stream_id feedback \<Rightarrow> (Inr (), relay_feedback io F sid stream_id feedback r)
      | PingRef nonce observed_rtt_ms \<Rightarrow>
          let r1 = (case sessions r sid of
                      None \<Rightarrow> r
                    | Some session \<Rightarrow>
                        (case now_of io r of (now, r') \<Rightarrow>
                           r'\<lparr>sessions := (sessions r')(sid \<mapsto> session\<lparr>
                              vs_reported_rtt_ms := (if udp_addr_changed then None else observed_rtt_ms),
                              vs_rtt_reported_at := Some now\<rparr>)\<rparr>))
          in (Inr (), send_pong io F sid origin nonce r1)
      | _ \<Rightarrow> (Inr (), r))"

definition handle_media_packet ::
  "'env relay_io \<Rightarrow> crypto_fns \<Rightarrow> packet_origin \<Rightarrow> 'env voice_relay \<Rightarrow> bytes
     \<Rightarrow> (packet_error, unit) result \<times> 'env voice_relay" where
  "handle_media_packet io F origin r packet =
     (case parse_header packet of
        Inl e \<Rightarrow> (Inl (Packet_Media e), r)
      | Inr (header, _) \<Rightarrow>
          if \<not> p2p_enabled r \<and> uh_kind header = KIND_NAT_PROBE \<and> (case origin of Udp _ _ _ \<Rightarrow> True | Tcp _ \<Rightarrow> False) then
            (case route_to_session r (uh_route_id header) of
               None \<Rightarrow> (Inl UnknownRoute, r)
             | Some sid \<Rightarrow>
                 (case sessions r sid of
                    None \<Rightarrow> (Inl UnknownSession, r)
                  | Some session \<Rightarrow>
                      (case vs_protection session of
                         MediaClear _ _ \<Rightarrow> (Inl NatProbeUnavailable, r)
                       | MediaAead _ _ _ \<Rightarrow> (Inr (), r))))
          else
            (case route_to_session r (uh_route_id header) of
               None \<Rightarrow> (Inl UnknownRoute, r)
             | Some sid \<Rightarrow>
                 (case sessions r sid of
                    None \<Rightarrow> (Inl UnknownSession, r)
                  | Some session \<Rightarrow>
                      (case origin_gate origin (uh_kind header) sid session r of
                         Inl e \<Rightarrow> (Inl e, r)
                       | Inr _ \<Rightarrow>
                           (case open_media_in_place F (vs_protection session) (vs_recv_replay session) packet of
                              (Inl e, replay) \<Rightarrow>
                                (Inl (Packet_Media e), r\<lparr>sessions := (sessions r)(sid \<mapsto> session\<lparr>vs_recv_replay := replay\<rparr>)\<rparr>)
                            | (Inr opened, replay) \<Rightarrow>
                                (case note_address origin (or_address_proof opened) (session\<lparr>vs_recv_replay := replay\<rparr>) of
                                   (udp_addr_changed, s1) \<Rightarrow>
                                     (case now_of io r of (now, r1) \<Rightarrow>
                                        (case admit_kind (uh_kind header) now (length packet) (vs_budget s1) of
                                           (admitted, budget) \<Rightarrow>
                                             let s2 = s1\<lparr>vs_budget := budget, vs_last_activity := now, vs_activity_dirty := True\<rparr>;
                                                 r2 = r1\<lparr>sessions := (sessions r1)(sid \<mapsto> s2)\<rparr>;
                                                 r3 = (case origin of Tcp slot \<Rightarrow> bind_tcp_conn slot sid r2 | Udp _ _ _ \<Rightarrow> r2)
                                             in if \<not> admitted then (Inr (), r3)
                                                else dispatch_payload io F origin sid udp_addr_changed (or_payload opened) r3))))))))"

subsection \<open>Receiving\<close>

definition handle_packet ::
  "'env relay_io \<Rightarrow> crypto_fns \<Rightarrow> byte \<Rightarrow> nat \<Rightarrow> socket_addr \<Rightarrow> 'env voice_relay \<Rightarrow> bytes
     \<Rightarrow> (packet_error, unit) result \<times> 'env voice_relay" where
  "handle_packet io F server_probe_id main_bind_index src r packet =
     handle_media_packet io F (Udp server_probe_id main_bind_index src) r packet"

fun receive_loop :: "nat \<Rightarrow> 'env relay_io \<Rightarrow> crypto_fns \<Rightarrow> nat \<Rightarrow> 'env voice_relay \<Rightarrow> 'env voice_relay option" where
  "receive_loop 0 io F bit_no r = Some (r\<lparr>udp_work := udp_work r OR push_bit bit_no 1\<rparr>)"
| "receive_loop (Suc left) io F bit_no r =
     (let probe = (bit_no = PROBE_BIT) in
      case recv_datagram_with (io_recv_from io bit_no) (relay_env r) of
        None \<Rightarrow> None
      | Some (Inr (Some (packet, src)), e) \<Rightarrow>
          receive_loop left io F bit_no
            (snd (handle_packet io F (if probe then 1 else 0) (if probe then 0 else bit_no) src (r\<lparr>relay_env := e\<rparr>) packet))
      | Some (Inr None, e) \<Rightarrow> Some (r\<lparr>relay_env := e\<rparr>)
      | Some (Inl err, e) \<Rightarrow>
          if io_is_datagram_error io err then receive_loop left io F bit_no (r\<lparr>relay_env := e\<rparr>)
          else Some (r\<lparr>relay_env := e\<rparr>))"

definition receive :: "'env relay_io \<Rightarrow> crypto_fns \<Rightarrow> nat \<Rightarrow> 'env voice_relay \<Rightarrow> 'env voice_relay option" where
  "receive io F bit_no r =
     (if bit_no = PROBE_BIT \<and> \<not> has_probe r then Some r
      else receive_loop UDP_DRAIN_BUDGET io F bit_no r)"

definition receive_tcp :: "'env relay_io \<Rightarrow> crypto_fns \<Rightarrow> nat \<Rightarrow> 'env voice_relay \<Rightarrow> 'env voice_relay option" where
  "receive_tcp io F slot r =
     (case tcp_conns r ! slot of
        None \<Rightarrow> Some r
      | Some conn \<Rightarrow>
          (case read_into_buffer (io_recv io (vc_socket conn)) (relay_env r) (vc_read_buf conn) (vc_readiness conn)
                  MAX_UDP_DATAGRAM_BYTES (ByteBudget VOICE_TCP_READ_BUDGET_BYTES) of
             None \<Rightarrow> None
           | Some (Inl err, rb, ready, e) \<Rightarrow>
               Some (detach_tcp_conn slot (upd_conn slot (\<lambda>c. c\<lparr>vc_read_buf := rb, vc_readiness := ready\<rparr>) (r\<lparr>relay_env := e\<rparr>)))
           | Some (Inr outcome, rb, ready, e) \<Rightarrow>
               let r1 = upd_conn slot (\<lambda>c. c\<lparr>vc_read_buf := rb_new, vc_readiness := ready\<rparr>) (r\<lparr>relay_env := e\<rparr>);
                   r2 = (if hit_limit outcome then r1\<lparr>tcp_read_work := set_slot_bit (tcp_read_work r1) slot\<rparr> else r1)
               in case receive_tcp_frames (handle_media_packet io F (Tcp slot)) r2 rb of
                    (Inl err, r3) \<Rightarrow> Some (detach_tcp_conn slot r3)
                  | (Inr rb', r3) \<Rightarrow>
                      (if tcp_conns r3 ! slot = None then Some r3
                       else
                         let r4 = upd_conn slot (\<lambda>c. c\<lparr>vc_read_buf := rb'\<rparr>) r3
                         in Some (if disconnected outcome then detach_tcp_conn slot r4 else r4))))"

subsection \<open>The periodic tick\<close>

definition sweep_slot :: "nat \<Rightarrow> nat \<Rightarrow> 'env voice_relay \<Rightarrow> 'env voice_relay" where
  "sweep_slot now slot r =
     (case tcp_conns r ! slot of
        None \<Rightarrow> r
      | Some conn \<Rightarrow>
          if vc_session conn = None \<and> now - vc_attached_at conn \<ge> VOICE_TCP_AUTH_TIMEOUT
          then detach_tcp_conn slot r else r)"

definition sweep_unbound_tcp_conns :: "nat \<Rightarrow> 'env voice_relay \<Rightarrow> 'env voice_relay" where
  "sweep_unbound_tcp_conns now r =
     (if handoff_held r = 0 then r else fold (sweep_slot now) [0..<length (tcp_conns r)] r)"

definition settle_session :: "voice_session \<Rightarrow> voice_session" where
  "settle_session s = s\<lparr>vs_budget := (vs_budget s)\<lparr>mb_dropped := 0\<rparr>, vs_activity_dirty := False\<rparr>"

definition activity_of :: "voice_session \<Rightarrow> voice_activity" where
  "activity_of s = \<lparr>va_last_activity = vs_last_activity s, va_reported_rtt_ms = vs_reported_rtt_ms s,
     va_rtt_reported_at = vs_rtt_reported_at s\<rparr>"

definition flush_activity :: "nat \<Rightarrow> 'env voice_relay \<Rightarrow> 'env voice_relay" where
  "flush_activity now r0 =
     (if now < next_activity_flush r0 then r0
      else
        let r = sweep_unbound_tcp_conns now (r0\<lparr>next_activity_flush := now + ACTIVITY_FLUSH_INTERVAL\<rparr>);
            dirty = (\<lambda>sid. case sessions r sid of
                             None \<Rightarrow> None
                           | Some s \<Rightarrow> if vs_activity_dirty s then Some (activity_of s) else None)
        in r\<lparr>sessions := (\<lambda>sid. map_option settle_session (sessions r sid)),
             event_buf := (event_buf r)\<lparr>ev_activity := ev_activity (event_buf r) ++ dirty\<rparr>\<rparr>)"

subsection \<open>The event loop\<close>

definition tcp_work_pending :: "'env voice_relay \<Rightarrow> bool" where
  "tcp_work_pending r \<longleftrightarrow> \<not> words_empty (tcp_read_work r) \<or> \<not> words_empty (tcp_write_work r)"

text \<open>A loop over set bits that handles each bit, drains the commands and leaves once the relay shuts down.\<close>

fun drain_each :: "'env relay_io \<Rightarrow> (nat \<Rightarrow> 'env voice_relay \<Rightarrow> 'env voice_relay option) \<Rightarrow> nat list
    \<Rightarrow> 'env voice_relay \<Rightarrow> 'env voice_relay option" where
  "drain_each io handle [] r = Some r"
| "drain_each io handle (n # ns) r =
     (case handle n r of
        None \<Rightarrow> None
      | Some r1 \<Rightarrow>
          let r2 = drain_commands io r1 in
          if shutting_down r2 then Some r2 else drain_each io handle ns r2)"

fun read_words :: "'env relay_io \<Rightarrow> crypto_fns \<Rightarrow> nat list \<Rightarrow> 'env voice_relay \<Rightarrow> 'env voice_relay option" where
  "read_words io F [] r = Some r"
| "read_words io F (w # ws) r =
     (if shutting_down r then Some r
      else
        let word = tcp_read_work r ! w;
            r1 = r\<lparr>tcp_read_work := (tcp_read_work r)[w := 0]\<rparr>
        in case drain_each io (receive_tcp io F) (map (\<lambda>b. w * 64 + b) (word_bits word)) r1 of
             None \<Rightarrow> None
           | Some r2 \<Rightarrow> read_words io F ws r2)"

fun write_words :: "'env relay_io \<Rightarrow> nat list \<Rightarrow> 'env voice_relay \<Rightarrow> 'env voice_relay" where
  "write_words io [] r = r"
| "write_words io (w # ws) r =
     (if shutting_down r then r
      else
        let word = tcp_write_work r ! w;
            r1 = r\<lparr>tcp_write_work := (tcp_write_work r)[w := 0]\<rparr>
        in write_words io ws (fold (flush_tcp io) (map (\<lambda>b. w * 64 + b) (word_bits word)) r1))"

definition poll_event :: "nat \<times> mio_ready \<Rightarrow> 'env voice_relay \<Rightarrow> 'env voice_relay" where
  "poll_event ev r =
     (case ev of (token, ready) \<Rightarrow>
        if token \<ge> TCP_CONN_BASE \<and> token - TCP_CONN_BASE < MAX_TCP_VOICE_CONNS then
          (let slot = token - TCP_CONN_BASE in
           case tcp_conns r ! slot of
             None \<Rightarrow> r
           | Some _ \<Rightarrow>
               let r1 = (if readable_like ready
                         then (upd_conn slot (\<lambda>c. c\<lparr>vc_readiness := True\<rparr>) r)
                                \<lparr>tcp_read_work := set_slot_bit (tcp_read_work r) slot\<rparr>
                         else r)
               in if writable_like ready
                  then
                    let r2 = upd_conn slot (\<lambda>c. c\<lparr>vc_write_blocked := False\<rparr>) r1
                    in (case tcp_conns r2 ! slot of
                          None \<Rightarrow> r2
                        | Some conn \<Rightarrow>
                            if wq_is_empty (vc_write_queue conn) then r2
                            else r2\<lparr>tcp_write_work := set_slot_bit (tcp_write_work r2) slot\<rparr>)
                  else r1)
        else if \<not> readable_like ready then r
        else if token < udp_count r \<or> token = UDP_PROBE \<and> has_probe r
        then r\<lparr>udp_work := udp_work r OR push_bit token 1\<rparr>
        else r)"

definition poll_timeout :: "'env relay_io \<Rightarrow> 'env voice_relay \<Rightarrow> nat \<times> 'env voice_relay" where
  "poll_timeout io r =
     (if udp_work r \<noteq> 0 \<or> tcp_work_pending r then (0, r)
      else (case now_of io r of (now, r1) \<Rightarrow> (min POLL_TIMEOUT (next_activity_flush r1 - now), r1)))"

definition run_pass :: "'env relay_io \<Rightarrow> crypto_fns \<Rightarrow> 'env voice_relay
    \<Rightarrow> ((io_error, unit) result \<times> 'env voice_relay) option" where
  "run_pass io F r0 =
     (let r1 = drain_commands io r0 in
      if shutting_down r1 then Some (Inr (), r1)
      else
        case drain_each io (receive io F) (word_bits (udp_work r1)) (r1\<lparr>udp_work := 0\<rparr>) of
          None \<Rightarrow> None
        | Some r2 \<Rightarrow>
            (case read_words io F [0..<SESSION_WORDS] r2 of
               None \<Rightarrow> None
             | Some r3 \<Rightarrow>
                 let r4 = write_words io [0..<SESSION_WORDS] r3 in
                 (case now_of io r4 of (now, r5) \<Rightarrow>
                    let r6 = flush_activity now r5;
                        r7 = (case submit_all (events r6) (event_buf r6) of
                                (pending, evs) \<Rightarrow> r6\<lparr>events := pending, event_buf := evs\<rparr>)
                    in if shutting_down r7 then Some (Inr (), r7)
                       else
                         (case poll_timeout io r7 of (timeout, r8) \<Rightarrow>
                            (case io_poll io timeout (relay_env r8) of
                               (Inl err, e) \<Rightarrow>
                                 if err = Interrupted then Some (Inr (), r8\<lparr>relay_env := e\<rparr>)
                                 else Some (Inl err, r8\<lparr>relay_env := e\<rparr>)
                             | (Inr evs, e) \<Rightarrow> Some (Inr (), fold poll_event evs (r8\<lparr>relay_env := e\<rparr>)))))))"

partial_function (option) run_relay :: "'env relay_io \<Rightarrow> crypto_fns \<Rightarrow> 'env voice_relay
    \<Rightarrow> ((io_error, unit) result \<times> 'env voice_relay) option" where
  "run_relay io F r =
     (if shutting_down r then Some (Inr (), r)
      else
        case run_pass io F r of
          None \<Rightarrow> None
        | Some (Inl err, r1) \<Rightarrow> Some (Inl err, r1)
        | Some (Inr _, r1) \<Rightarrow> run_relay io F r1)"

end
