(* ===== verification/Relay_Invariants.thy ===== *)
theory Relay_Invariants
  imports Voice_Relay
begin

text \<open>
  The bookkeeping of the relay stays consistent: sessions, slots, routes, rooms, stream owners, lanes
  and permits refer to each other without a dangling or a missing link, and no lane's backlog exceeds
  its cap. The first part is stated on a view that keeps just those links; every operation acts on the
  view as one of six transitions, and most leave it alone or only detach lanes.
\<close>

section \<open>Definitions\<close>

record session_view =
  w_slot :: nat
  w_rid :: u32
  w_route :: "session_route option"
  w_lane :: "nat option"

record relay_view =
  v_sessions :: "session_id \<Rightarrow> session_view option"
  v_routes :: "u32 \<Rightarrow> session_id option"
  v_rooms :: "room_id \<Rightarrow> slot_words option"
  v_owners :: "room_id \<times> u32 \<Rightarrow> session_id option"
  v_slots :: "session_id option list"
  v_lanes :: "(session_id option \<times> bool) option list"
  v_held :: nat

definition session_view_of :: "voice_session \<Rightarrow> session_view" where
  "session_view_of s = \<lparr>w_slot = vs_slot s, w_rid = protection_route_id (vs_protection s), w_route = vs_route s,
     w_lane = vs_tcp_conn s\<rparr>"

fun is_attach :: "voice_command \<Rightarrow> bool" where
  "is_attach (AttachTcp _ _ _) = True"
| "is_attach _ = False"

definition lane_view_of :: "tcp_voice_conn \<Rightarrow> session_id option \<times> bool" where
  "lane_view_of c = (vc_session c, vc_permit c)"

definition view :: "'env voice_relay \<Rightarrow> relay_view" where
  "view r = \<lparr>v_sessions = map_option session_view_of \<circ> sessions r, v_routes = route_to_session r,
     v_rooms = rooms r, v_owners = stream_owners r, v_slots = session_slots r,
     v_lanes = map (map_option lane_view_of) (tcp_conns r), v_held = handoff_held r\<rparr>"

definition sessions_ok :: "relay_view \<Rightarrow> bool" where
  "sessions_ok v \<longleftrightarrow> length (v_slots v) = MAX_SESSIONS
     \<and> (\<forall>sid s. v_sessions v sid = Some s \<longrightarrow>
          w_slot s < MAX_SESSIONS \<and> v_slots v ! w_slot s = Some sid \<and> v_routes v (w_rid s) = Some sid)
     \<and> (\<forall>slot < MAX_SESSIONS. \<forall>sid. v_slots v ! slot = Some sid \<longrightarrow>
          (\<exists>s. v_sessions v sid = Some s \<and> w_slot s = slot))
     \<and> (\<forall>rid sid. v_routes v rid = Some sid \<longrightarrow> (\<exists>s. v_sessions v sid = Some s \<and> w_rid s = rid))"

definition in_room :: "relay_view \<Rightarrow> room_id \<Rightarrow> nat \<Rightarrow> bool" where
  "in_room v room slot \<longleftrightarrow>
     (\<exists>sid s rt. v_sessions v sid = Some s \<and> w_slot s = slot \<and> w_route s = Some rt \<and> sr_room_id rt = room)"

definition rooms_rep :: "(room_id \<Rightarrow> slot_words option) \<Rightarrow> (room_id \<Rightarrow> nat \<Rightarrow> bool) \<Rightarrow> bool" where
  "rooms_rep rs M \<longleftrightarrow>
     (\<forall>room. case rs room of
               None \<Rightarrow> (\<forall>slot < MAX_SESSIONS. \<not> M room slot)
             | Some words \<Rightarrow> length words = SESSION_WORDS \<and> \<not> words_empty words
                 \<and> (\<forall>slot < MAX_SESSIONS. slot_mem words slot \<longleftrightarrow> M room slot))"

definition rooms_ok :: "relay_view \<Rightarrow> bool" where
  "rooms_ok v \<longleftrightarrow> rooms_rep (v_rooms v) (in_room v)"

definition owners_ok :: "relay_view \<Rightarrow> bool" where
  "owners_ok v \<longleftrightarrow>
     (\<forall>room stream sid. v_owners v (room, stream) = Some sid \<longrightarrow>
        (\<exists>s. v_sessions v sid = Some s \<and> w_route s = Some \<lparr>sr_room_id = room, sr_stream_id = stream\<rparr>))"

definition lanes_ok :: "relay_view \<Rightarrow> bool" where
  "lanes_ok v \<longleftrightarrow> length (v_lanes v) = MAX_TCP_VOICE_CONNS
     \<and> (\<forall>slot < MAX_TCP_VOICE_CONNS. \<forall>bound permit. v_lanes v ! slot = Some (bound, permit) \<longrightarrow>
          permit = (bound = None)
          \<and> (\<forall>sid. bound = Some sid \<longrightarrow> (\<exists>s. v_sessions v sid = Some s \<and> w_lane s = Some slot)))
     \<and> (\<forall>sid s slot. v_sessions v sid = Some s \<longrightarrow> w_lane s = Some slot \<longrightarrow>
          slot < MAX_TCP_VOICE_CONNS \<and> v_lanes v ! slot = Some (Some sid, False))"

fun holds_permit :: "(session_id option \<times> bool) option \<Rightarrow> bool" where
  "holds_permit (Some (_, permit)) = permit"
| "holds_permit None = False"

text \<open>The number is that of the permits that travel with queued commands.\<close>

definition permits_ok :: "nat \<Rightarrow> relay_view \<Rightarrow> bool" where
  "permits_ok queued v \<longleftrightarrow> v_held v = length (filter holds_permit (v_lanes v)) + queued
     \<and> v_held v \<le> MAX_PENDING_TCP_VOICE"

definition view_inv :: "nat \<Rightarrow> relay_view \<Rightarrow> bool" where
  "view_inv queued v \<longleftrightarrow> sessions_ok v \<and> rooms_ok v \<and> owners_ok v \<and> lanes_ok v \<and> permits_ok queued v"

section \<open>Transitions of the view\<close>

definition v_detach :: "nat \<Rightarrow> relay_view \<Rightarrow> relay_view" where
  "v_detach slot v =
     (case v_lanes v ! slot of
        None \<Rightarrow> v
      | Some (bound, permit) \<Rightarrow>
          v\<lparr>v_lanes := (v_lanes v)[slot := None],
            v_sessions := (case bound of
                None \<Rightarrow> v_sessions v
              | Some sid \<Rightarrow>
                  (case v_sessions v sid of
                     None \<Rightarrow> v_sessions v
                   | Some s \<Rightarrow> if w_lane s = Some slot then (v_sessions v)(sid \<mapsto> s\<lparr>w_lane := None\<rparr>) else v_sessions v)),
            v_held := (if permit then v_held v - 1 else v_held v)\<rparr>)"

lemma view_update:
  "view (r\<lparr>sessions := m\<rparr>) = (view r)\<lparr>v_sessions := map_option session_view_of \<circ> m\<rparr>"
  "view (r\<lparr>route_to_session := m1\<rparr>) = (view r)\<lparr>v_routes := m1\<rparr>"
  "view (r\<lparr>rooms := m2\<rparr>) = (view r)\<lparr>v_rooms := m2\<rparr>"
  "view (r\<lparr>stream_owners := m3\<rparr>) = (view r)\<lparr>v_owners := m3\<rparr>"
  "view (r\<lparr>session_slots := xs\<rparr>) = (view r)\<lparr>v_slots := xs\<rparr>"
  "view (r\<lparr>tcp_conns := cs\<rparr>) = (view r)\<lparr>v_lanes := map (map_option lane_view_of) cs\<rparr>"
  "view (r\<lparr>handoff_held := n\<rparr>) = (view r)\<lparr>v_held := n\<rparr>"
  by (simp_all add: view_def)

lemma view_select:
  "v_sessions (view r) = map_option session_view_of \<circ> sessions r"
  "v_routes (view r) = route_to_session r" "v_rooms (view r) = rooms r" "v_owners (view r) = stream_owners r"
  "v_slots (view r) = session_slots r" "v_lanes (view r) = map (map_option lane_view_of) (tcp_conns r)"
  "v_held (view r) = handoff_held r"
  by (simp_all add: view_def)

lemma view_inert [simp]:
  "view (r\<lparr>relay_env := e\<rparr>) = view r"
  "view (r\<lparr>commands := q\<rparr>) = view r"
  "view (r\<lparr>tcp_read_work := w1\<rparr>) = view r"
  "view (r\<lparr>tcp_write_work := w2\<rparr>) = view r"
  "view (r\<lparr>udp_send_packet := p\<rparr>) = view r"
  "view (r\<lparr>udp_sent := us\<rparr>) = view r"
  "view (r\<lparr>udp_work := uw\<rparr>) = view r"
  "view (r\<lparr>event_buf := ev\<rparr>) = view r"
  "view (r\<lparr>events := ev2\<rparr>) = view r"
  "view (r\<lparr>shutting_down := b\<rparr>) = view r"
  "view (r\<lparr>next_activity_flush := n\<rparr>) = view r"
  by (simp_all add: view_def)

lemma view_detach:
  assumes "slot < length (tcp_conns r)"
  shows "view (detach_tcp_conn slot r) = v_detach slot (view r)"
proof (cases "tcp_conns r ! slot")
  case None
  with assms show ?thesis by (simp add: detach_tcp_conn_def v_detach_def view_select)
next
  case (Some conn)
  with assms show ?thesis
    by (auto simp: detach_tcp_conn_def v_detach_def drop_permit_def Let_def view_def map_update fun_upd_comp
        lane_view_of_def session_view_of_def fun_eq_iff split: option.splits)
qed

lemma length_filter_update:
  assumes "i < length xs"
  shows "length (filter P (xs[i := x])) + (if P (xs ! i) then 1 else 0)
     = length (filter P xs) + (if P x then (1 :: nat) else 0)"
  using assms
proof (induction xs arbitrary: i)
  case (Cons y ys)
  then show ?case by (cases i) auto
qed simp

text \<open>Detaching a lane changes nothing of a session but its lane.\<close>

definition unbind_lane :: "nat \<Rightarrow> relay_view \<Rightarrow> session_id \<Rightarrow> session_view \<Rightarrow> session_view" where
  "unbind_lane slot v sid s =
     s\<lparr>w_lane := (if map_option fst (v_lanes v ! slot) = Some (Some sid) \<and> w_lane s = Some slot then None
                  else w_lane s)\<rparr>"

lemma unbind_lane_simps [simp]:
  "w_slot (unbind_lane slot v sid s) = w_slot s" "w_rid (unbind_lane slot v sid s) = w_rid s"
  "w_route (unbind_lane slot v sid s) = w_route s"
  by (simp_all add: unbind_lane_def)

lemma lanes_detach: "v_lanes (v_detach slot v) = (v_lanes v)[slot := None]"
proof (cases "v_lanes v ! slot")
  case None
  then show ?thesis using list_update_id [of "v_lanes v" slot] by (simp add: v_detach_def)
qed (auto simp: v_detach_def)

lemma v_detach_simps [simp]:
  "v_routes (v_detach slot v) = v_routes v" "v_rooms (v_detach slot v) = v_rooms v"
  "v_owners (v_detach slot v) = v_owners v" "v_slots (v_detach slot v) = v_slots v"
  "v_sessions (v_detach slot v) sid = map_option (unbind_lane slot v sid) (v_sessions v sid)"
  "v_held (v_detach slot v) = (if holds_permit (v_lanes v ! slot) then v_held v - 1 else v_held v)"
  by (auto simp: v_detach_def unbind_lane_def map_option_case split: option.splits prod.splits)

lemma in_room_alt:
  "in_room v room n \<longleftrightarrow>
     (\<exists>sid rt. (\<exists>s. v_sessions v sid = Some s \<and> w_slot s = n \<and> w_route s = Some rt) \<and> sr_room_id rt = room)"
  unfolding in_room_def by blast

lemma in_room_detach [simp]: "in_room (v_detach slot v) room n = in_room v room n"
proof -
  have "(\<exists>s. v_sessions (v_detach slot v) sid = Some s \<and> w_slot s = n \<and> w_route s = Some rt)
      = (\<exists>s. v_sessions v sid = Some s \<and> w_slot s = n \<and> w_route s = Some rt)" for sid rt
    by (cases "v_sessions v sid") auto
  then show ?thesis by (simp only: in_room_alt)
qed

lemma sessions_okD:
  assumes "sessions_ok v"
  shows "length (v_slots v) = MAX_SESSIONS"
    and "v_sessions v sid = Some s \<Longrightarrow> w_slot s < MAX_SESSIONS"
    and "v_sessions v sid = Some s \<Longrightarrow> v_slots v ! w_slot s = Some sid"
    and "v_sessions v sid = Some s \<Longrightarrow> v_routes v (w_rid s) = Some sid"
    and "slot < MAX_SESSIONS \<Longrightarrow> v_slots v ! slot = Some sid \<Longrightarrow> \<exists>s. v_sessions v sid = Some s \<and> w_slot s = slot"
    and "v_routes v rid = Some sid \<Longrightarrow> \<exists>s. v_sessions v sid = Some s \<and> w_rid s = rid"
  using assms unfolding sessions_ok_def by blast+

text \<open>Whatever keeps the slot and the route id of every session keeps this part of the invariant.\<close>

lemma sessions_ok_cong:
  assumes ok: "sessions_ok v" and "v_slots w = v_slots v" and "v_routes w = v_routes v"
    and same: "\<And>sid. map_option (\<lambda>s. (w_slot s, w_rid s)) (v_sessions w sid)
      = map_option (\<lambda>s. (w_slot s, w_rid s)) (v_sessions v sid)"
  shows "sessions_ok w"
proof -
  have was: "\<exists>t. v_sessions v sid = Some t \<and> w_slot t = w_slot s \<and> w_rid t = w_rid s" if "v_sessions w sid = Some s" for sid s
    using same [of sid] that by (cases "v_sessions v sid"; cases "v_sessions w sid") auto
  have stays: "\<exists>s. v_sessions w sid = Some s \<and> w_slot s = w_slot t \<and> w_rid s = w_rid t" if "v_sessions v sid = Some t" for sid t
    using same [of sid] that by (cases "v_sessions v sid"; cases "v_sessions w sid") auto
  show ?thesis
    unfolding sessions_ok_def assms(2,3)
  proof (intro conjI allI impI)
    show "length (v_slots v) = MAX_SESSIONS" by (rule sessions_okD(1) [OF ok])
  next
    fix sid s
    assume "v_sessions w sid = Some s"
    from was [OF this] obtain t where "v_sessions v sid = Some t" "w_slot t = w_slot s" "w_rid t = w_rid s" by blast
    with sessions_okD(2-4) [OF ok] show "w_slot s < MAX_SESSIONS" "v_slots v ! w_slot s = Some sid"
      "v_routes v (w_rid s) = Some sid" by metis+
  next
    fix n sid
    assume "n < MAX_SESSIONS" "v_slots v ! n = Some sid"
    from sessions_okD(5) [OF ok this] stays [of sid]
    show "\<exists>s. v_sessions w sid = Some s \<and> w_slot s = n" by blast
  next
    fix rid sid
    assume "v_routes v rid = Some sid"
    from sessions_okD(6) [OF ok this] stays [of sid]
    show "\<exists>s. v_sessions w sid = Some s \<and> w_rid s = rid" by blast
  qed
qed

lemma sessions_ok_detach: "sessions_ok v \<Longrightarrow> sessions_ok (v_detach slot v)"
  by (erule sessions_ok_cong) (simp_all add: option.map_comp comp_def)

lemma rooms_ok_detach: "rooms_ok v \<Longrightarrow> rooms_ok (v_detach slot v)"
  unfolding rooms_ok_def rooms_rep_def v_detach_simps in_room_detach .

lemma owners_okD:
  "owners_ok v \<Longrightarrow> v_owners v (room, stream) = Some sid \<Longrightarrow>
     \<exists>s. v_sessions v sid = Some s \<and> w_route s = Some \<lparr>sr_room_id = room, sr_stream_id = stream\<rparr>"
  unfolding owners_ok_def by blast

lemma owners_ok_detach:
  assumes "owners_ok v"
  shows "owners_ok (v_detach slot v)"
  unfolding owners_ok_def
proof (intro allI impI)
  fix room stream sid
  assume "v_owners (v_detach slot v) (room, stream) = Some sid"
  with assms obtain s where "v_sessions v sid = Some s" "w_route s = Some \<lparr>sr_room_id = room, sr_stream_id = stream\<rparr>"
    unfolding owners_ok_def v_detach_simps by blast
  then show "\<exists>s. v_sessions (v_detach slot v) sid = Some s \<and> w_route s = Some \<lparr>sr_room_id = room, sr_stream_id = stream\<rparr>"
    by simp
qed

lemma lanes_okD:
  assumes "lanes_ok v"
  shows "length (v_lanes v) = MAX_TCP_VOICE_CONNS"
    and "slot < MAX_TCP_VOICE_CONNS \<Longrightarrow> v_lanes v ! slot = Some (bound, permit) \<Longrightarrow> permit = (bound = None)"
    and "slot < MAX_TCP_VOICE_CONNS \<Longrightarrow> v_lanes v ! slot = Some (Some sid, permit) \<Longrightarrow>
      \<exists>s. v_sessions v sid = Some s \<and> w_lane s = Some slot"
    and "v_sessions v sid = Some s \<Longrightarrow> w_lane s = Some slot \<Longrightarrow> slot < MAX_TCP_VOICE_CONNS"
    and "v_sessions v sid = Some s \<Longrightarrow> w_lane s = Some slot \<Longrightarrow> v_lanes v ! slot = Some (Some sid, False)"
  using assms unfolding lanes_ok_def by (blast, blast, blast, blast, blast)

lemma lanes_ok_detach:
  assumes "lanes_ok v" and "slot < MAX_TCP_VOICE_CONNS"
  shows "lanes_ok (v_detach slot v)"
  unfolding lanes_ok_def
proof (intro conjI allI impI)
  show "length (v_lanes (v_detach slot v)) = MAX_TCP_VOICE_CONNS"
    using assms by (simp add: lanes_ok_def lanes_detach)
next
  fix n bound permit
  assume n: "n < MAX_TCP_VOICE_CONNS" and "v_lanes (v_detach slot v) ! n = Some (bound, permit)"
  with assms have old: "v_lanes v ! n = Some (bound, permit)" "n \<noteq> slot"
    by (auto simp: lanes_detach lanes_ok_def nth_list_update split: if_splits)
  with assms n show "permit = (bound = None)" by (simp add: lanes_ok_def)
  fix sid
  assume "bound = Some sid"
  with lanes_okD(3) [OF assms(1) n] old(1) obtain s where "v_sessions v sid = Some s" "w_lane s = Some n" by blast
  with old(2) show "\<exists>s. v_sessions (v_detach slot v) sid = Some s \<and> w_lane s = Some n"
    by (simp add: unbind_lane_def)
next
  fix sid s n
  assume "v_sessions (v_detach slot v) sid = Some s" and lane: "w_lane s = Some n"
  then obtain t where t: "v_sessions v sid = Some t" "s = unbind_lane slot v sid t" by auto
  with lane have "w_lane t = Some n" by (simp add: unbind_lane_def split: if_splits)
  with assms t have old: "n < MAX_TCP_VOICE_CONNS" "v_lanes v ! n = Some (Some sid, False)"
    by (auto simp: lanes_ok_def)
  with lane t have "n \<noteq> slot" by (auto simp: unbind_lane_def split: if_splits)
  with old show "n < MAX_TCP_VOICE_CONNS" "v_lanes (v_detach slot v) ! n = Some (Some sid, False)"
    by (simp_all add: lanes_detach)
qed

lemma permits_ok_detach:
  assumes "lanes_ok v" and "permits_ok q v" and "slot < MAX_TCP_VOICE_CONNS"
  shows "permits_ok q (v_detach slot v)"
proof -
  have "length (filter holds_permit ((v_lanes v)[slot := None])) + (if holds_permit (v_lanes v ! slot) then 1 else 0)
      = length (filter holds_permit (v_lanes v))"
    using length_filter_update [of slot "v_lanes v" holds_permit None] assms(3) lanes_okD(1) [OF assms(1)] by simp
  with assms(2) show ?thesis by (auto simp: permits_ok_def lanes_detach split: if_splits)
qed

lemma view_inv_detach: "view_inv q v \<Longrightarrow> slot < MAX_TCP_VOICE_CONNS \<Longrightarrow> view_inv q (v_detach slot v)"
  by (simp add: view_inv_def sessions_ok_detach rooms_ok_detach owners_ok_detach lanes_ok_detach permits_ok_detach)

subsection \<open>Routes\<close>

definition room_leave :: "room_id \<Rightarrow> nat \<Rightarrow> (room_id \<Rightarrow> slot_words option) \<Rightarrow> room_id \<Rightarrow> slot_words option" where
  "room_leave room slot rs = rs(room :=
     (case rs room of
        None \<Rightarrow> None
      | Some words \<Rightarrow> if words_empty (clear_slot_bit words slot) then None else Some (clear_slot_bit words slot)))"

definition room_enter :: "room_id \<Rightarrow> nat \<Rightarrow> (room_id \<Rightarrow> slot_words option) \<Rightarrow> room_id \<Rightarrow> slot_words option" where
  "room_enter room slot rs = rs(room \<mapsto>
     set_slot_bit (case rs room of None \<Rightarrow> replicate SESSION_WORDS 0 | Some words \<Rightarrow> words) slot)"

lemma session_bits: "MAX_SESSIONS = 64 * SESSION_WORDS"
  by (simp add: MAX_SESSIONS_def SESSION_WORDS_def)

lemma rooms_repD:
  "rooms_rep rs M \<Longrightarrow>
     case rs room of
       None \<Rightarrow> (\<forall>slot < MAX_SESSIONS. \<not> M room slot)
     | Some words \<Rightarrow> length words = SESSION_WORDS \<and> \<not> words_empty words
         \<and> (\<forall>slot < MAX_SESSIONS. slot_mem words slot \<longleftrightarrow> M room slot)"
  by (simp add: rooms_rep_def)

lemma rooms_rep_leave:
  assumes rep: "rooms_rep rs M" and slot: "slot < MAX_SESSIONS"
  shows "rooms_rep (room_leave room slot rs) (\<lambda>r n. M r n \<and> \<not> (r = room \<and> n = slot))"
  unfolding rooms_rep_def
proof
  fix r
  show "case room_leave room slot rs r of
      None \<Rightarrow> \<forall>n<MAX_SESSIONS. \<not> (M r n \<and> \<not> (r = room \<and> n = slot))
    | Some words \<Rightarrow> length words = SESSION_WORDS \<and> \<not> words_empty words
        \<and> (\<forall>n<MAX_SESSIONS. slot_mem words n = (M r n \<and> \<not> (r = room \<and> n = slot)))"
  proof (cases "r = room")
    case False
    then show ?thesis using rooms_repD [OF rep, of r] by (auto simp: room_leave_def split: option.splits)
  next
    case True
    show ?thesis
    proof (cases "rs room")
      case None
      then show ?thesis using rooms_repD [OF rep, of room] True by (simp add: room_leave_def)
    next
      case (Some words)
      then have w: "length words = SESSION_WORDS" "\<forall>n < MAX_SESSIONS. slot_mem words n = M room n"
        using rooms_repD [OF rep, of room] by simp_all
      then have "slot_mem (clear_slot_bit words slot) n = (M room n \<and> n \<noteq> slot)" if "n < MAX_SESSIONS" for n
        using that slot by (auto simp: slot_mem_clear session_bits)
      then show ?thesis
        using Some True w(1) by (auto simp: room_leave_def words_empty_iff session_bits)
    qed
  qed
qed

lemma rooms_rep_enter:
  assumes rep: "rooms_rep rs M" and slot: "slot < MAX_SESSIONS"
  shows "rooms_rep (room_enter room slot rs) (\<lambda>r n. M r n \<or> r = room \<and> n = slot)"
  unfolding rooms_rep_def
proof
  fix r
  show "case room_enter room slot rs r of
      None \<Rightarrow> \<forall>n<MAX_SESSIONS. \<not> (M r n \<or> r = room \<and> n = slot)
    | Some words \<Rightarrow> length words = SESSION_WORDS \<and> \<not> words_empty words
        \<and> (\<forall>n<MAX_SESSIONS. slot_mem words n = (M r n \<or> r = room \<and> n = slot))"
  proof (cases "r = room")
    case False
    then show ?thesis using rooms_repD [OF rep, of r] by (auto simp: room_enter_def split: option.splits)
  next
    case True
    define words where "words = (case rs room of None \<Rightarrow> replicate SESSION_WORDS 0 | Some words \<Rightarrow> words)"
    have w: "length words = SESSION_WORDS" "\<forall>n < MAX_SESSIONS. slot_mem words n = M room n"
      using rooms_repD [OF rep, of room] slot_mem_zero [of _ SESSION_WORDS]
      by (auto simp: words_def session_bits split: option.splits)
    then have mem: "slot_mem (set_slot_bit words slot) n = (M room n \<or> n = slot)" if "n < MAX_SESSIONS" for n
      using that slot by (auto simp: slot_mem_set session_bits)
    then have "\<not> words_empty (set_slot_bit words slot)"
      using slot w(1) by (auto simp: words_empty_iff session_bits)
    with mem w(1) True show ?thesis by (simp add: room_enter_def words_def [symmetric])
  qed
qed

definition route_key :: "session_route \<Rightarrow> room_id \<times> u32" where
  "route_key rt = (sr_room_id rt, sr_stream_id rt)"

definition v_leave :: "session_id \<Rightarrow> nat \<Rightarrow> session_route option \<Rightarrow> relay_view \<Rightarrow> relay_view" where
  "v_leave sid slot route v =
     (case route of
        None \<Rightarrow> v
      | Some old \<Rightarrow> v\<lparr>v_rooms := room_leave (sr_room_id old) slot (v_rooms v),
          v_owners := (if v_owners v (route_key old) = Some sid then (v_owners v)(route_key old := None) else v_owners v)\<rparr>)"

definition v_enter :: "session_id \<Rightarrow> nat \<Rightarrow> session_route option \<Rightarrow> relay_view \<Rightarrow> relay_view" where
  "v_enter sid slot route v =
     (case route of
        None \<Rightarrow> v
      | Some new \<Rightarrow> v\<lparr>v_rooms := room_enter (sr_room_id new) slot (v_rooms v),
          v_owners := (v_owners v)(route_key new \<mapsto> sid)\<rparr>)"

definition v_set_route :: "session_id \<Rightarrow> session_route option \<Rightarrow> relay_view \<Rightarrow> relay_view" where
  "v_set_route sid route v =
     (case v_sessions v sid of
        None \<Rightarrow> v
      | Some s \<Rightarrow>
          if w_route s = route then v
          else v_enter sid (w_slot s) route
                 ((v_leave sid (w_slot s) (w_route s) v)\<lparr>v_sessions := (v_sessions v)(sid \<mapsto> s\<lparr>w_route := route\<rparr>)\<rparr>))"

lemma view_leave_room: "view (leave_room sid slot old r) = v_leave sid slot (Some old) (view r)"
  by (auto simp: leave_room_def v_leave_def view_update view_select room_leave_def route_key_def Let_def fun_eq_iff
      split: option.splits)

lemma view_set_route: "view (set_route sid route r) = v_set_route sid route (view r)"
proof (cases "sessions r sid")
  case None
  then show ?thesis by (simp add: set_route_def v_set_route_def view_select)
next
  case (Some s)
  define r1 where "r1 = (case vs_route s of None \<Rightarrow> r | Some old \<Rightarrow> leave_room sid (vs_slot s) old r)"
  have r1: "view r1 = v_leave sid (vs_slot s) (vs_route s) (view r)" "sessions r1 = sessions r"
    by (cases "vs_route s"; simp add: r1_def view_leave_room v_leave_def; simp add: leave_room_def Let_def)+
  have enter: "view (case route of None \<Rightarrow> r2 | Some new \<Rightarrow> enter_room sid slot new r2) = v_enter sid slot route (view r2)"
    for r2 :: "'a voice_relay" and slot
    by (auto simp: v_enter_def enter_room_def view_update view_select room_enter_def route_key_def Let_def
        split: option.splits)
  have "set_route sid route r =
    (if vs_route s = route then r
     else (case route of None \<Rightarrow> r1\<lparr>sessions := (sessions r1)(sid \<mapsto> s\<lparr>vs_route := route\<rparr>)\<rparr>
           | Some new \<Rightarrow> enter_room sid (vs_slot s) new (r1\<lparr>sessions := (sessions r1)(sid \<mapsto> s\<lparr>vs_route := route\<rparr>)\<rparr>)))"
    unfolding set_route_def r1_def by (simp add: Some Let_def)
  then show ?thesis
    using Some
    by (simp add: v_set_route_def enter view_update r1 view_select fun_upd_comp session_view_of_def)
qed

lemma v_set_route_simps [simp]:
  "v_routes (v_set_route sid route v) = v_routes v" "v_slots (v_set_route sid route v) = v_slots v"
  "v_lanes (v_set_route sid route v) = v_lanes v" "v_held (v_set_route sid route v) = v_held v"
  by (auto simp: v_set_route_def v_enter_def v_leave_def split: option.splits)

lemma v_sessions_set_route:
  "v_sessions (v_set_route sid route v) n =
     (if n = sid then map_option (\<lambda>s. s\<lparr>w_route := route\<rparr>) (v_sessions v sid) else v_sessions v n)"
  by (auto simp: v_set_route_def v_enter_def v_leave_def split: option.splits)

lemma lanes_ok_cong:
  assumes ok: "lanes_ok v" and "v_lanes w = v_lanes v"
    and same: "\<And>sid. map_option w_lane (v_sessions w sid) = map_option w_lane (v_sessions v sid)"
  shows "lanes_ok w"
proof -
  have was: "\<exists>t. v_sessions v sid = Some t \<and> w_lane t = w_lane s" if "v_sessions w sid = Some s" for sid s
    using same [of sid] that by (cases "v_sessions v sid"; cases "v_sessions w sid") auto
  have stays: "\<exists>s. v_sessions w sid = Some s \<and> w_lane s = w_lane t" if "v_sessions v sid = Some t" for sid t
    using same [of sid] that by (cases "v_sessions v sid"; cases "v_sessions w sid") auto
  show ?thesis
    unfolding lanes_ok_def assms(2)
  proof (intro conjI allI impI)
    show "length (v_lanes v) = MAX_TCP_VOICE_CONNS" by (rule lanes_okD(1) [OF ok])
  next
    fix slot bound permit sid
    assume n: "slot < MAX_TCP_VOICE_CONNS" and l: "v_lanes v ! slot = Some (bound, permit)"
    show "permit = (bound = None)" by (rule lanes_okD(2) [OF ok n l])
    assume "bound = Some sid"
    with lanes_okD(3) [OF ok n] l stays [of sid] show "\<exists>s. v_sessions w sid = Some s \<and> w_lane s = Some slot" by metis
  next
    fix sid s slot
    assume s: "v_sessions w sid = Some s" "w_lane s = Some slot"
    from was [OF s(1)] s(2) obtain t where t: "v_sessions v sid = Some t" "w_lane t = Some slot" by auto
    from lanes_okD(4,5) [OF ok t] show "slot < MAX_TCP_VOICE_CONNS" "v_lanes v ! slot = Some (Some sid, False)"
      by blast+
  qed
qed

lemma slot_unique:
  assumes "sessions_ok v" and "v_sessions v sid = Some s" and "v_sessions v sid' = Some s'" and "w_slot s = w_slot s'"
  shows "sid = sid'"
  using sessions_okD(3) [OF assms(1,2)] sessions_okD(3) [OF assms(1,3)] assms(4) by simp

lemma in_room_set_route:
  assumes ok: "sessions_ok v" and s: "v_sessions v sid = Some s"
    and w: "\<And>n. v_sessions w n = (if n = sid then Some (s\<lparr>w_route := route\<rparr>) else v_sessions v n)"
  shows "in_room w room n \<longleftrightarrow>
     (if n = w_slot s then (\<exists>rt. route = Some rt \<and> sr_room_id rt = room) else in_room v room n)"
proof (cases "n = w_slot s")
  case True
  have "u = sid" if "v_sessions w u = Some t" "w_slot t = w_slot s" for u t
    using that w [of u] slot_unique [OF ok s, of u t] by (auto split: if_splits)
  with True show ?thesis unfolding in_room_def using w [of sid] by fastforce
next
  case False
  then have "(\<exists>t. v_sessions w u = Some t \<and> w_slot t = n \<and> w_route t = Some rt)
      = (\<exists>t. v_sessions v u = Some t \<and> w_slot t = n \<and> w_route t = Some rt)" for u rt
    using w [of u] s by (cases "u = sid") auto
  with False show ?thesis by (simp only: in_room_alt if_False)
qed

lemma rooms_rep_cong:
  assumes "rooms_rep rs M" and "\<And>room n. n < MAX_SESSIONS \<Longrightarrow> M room n = M' room n"
  shows "rooms_rep rs M'"
  unfolding rooms_rep_def
proof
  fix room
  show "case rs room of None \<Rightarrow> \<forall>slot<MAX_SESSIONS. \<not> M' room slot
    | Some words \<Rightarrow> length words = SESSION_WORDS \<and> \<not> words_empty words
        \<and> (\<forall>slot<MAX_SESSIONS. slot_mem words slot = M' room slot)"
    using rooms_repD [OF assms(1), of room] assms(2) by (auto split: option.splits)
qed

lemma rooms_ok_set_route:
  assumes ok: "sessions_ok v" and rooms: "rooms_ok v"
  shows "rooms_ok (v_set_route sid route v)"
proof (cases "v_sessions v sid")
  case None
  then show ?thesis using rooms by (simp add: v_set_route_def)
next
  case s: (Some s)
  show ?thesis
  proof (cases "w_route s = route")
    case True
    then show ?thesis using s rooms by (simp add: v_set_route_def)
  next
    case ne: False
    let ?w = "v_set_route sid route v" and ?n = "w_slot s"
    have n: "?n < MAX_SESSIONS" by (rule sessions_okD(2) [OF ok s])
    have sess: "v_sessions ?w k = (if k = sid then Some (s\<lparr>w_route := route\<rparr>) else v_sessions v k)" for k
      by (simp add: v_sessions_set_route s)
    note mem = in_room_set_route [OF ok s sess]
    have self: "in_room v room ?n \<longleftrightarrow> (\<exists>rt. w_route s = Some rt \<and> sr_room_id rt = room)" for room
      using in_room_set_route [OF ok s, of v "w_route s" room ?n] s by auto
    define left where "left = (case w_route s of None \<Rightarrow> v_rooms v | Some old \<Rightarrow> room_leave (sr_room_id old) ?n (v_rooms v))"
    have left: "rooms_rep left (\<lambda>room k. in_room v room k \<and> k \<noteq> ?n)"
    proof (cases "w_route s")
      case None
      then show ?thesis
        using rooms self by (auto simp: left_def rooms_ok_def elim!: rooms_rep_cong)
    next
      case (Some old)
      then show ?thesis
        using rooms_rep_leave [OF rooms [unfolded rooms_ok_def] n, of "sr_room_id old"] self
        by (auto simp: left_def elim!: rooms_rep_cong)
    qed
    have rooms': "v_rooms ?w = (case route of None \<Rightarrow> left | Some new \<Rightarrow> room_enter (sr_room_id new) ?n left)"
      using s ne by (auto simp: v_set_route_def v_enter_def v_leave_def left_def split: option.splits)
    show ?thesis
    proof (cases route)
      case None
      have "in_room ?w room k = (in_room v room k \<and> k \<noteq> ?n)" for room k
        using mem [of room k] None by auto
      then show ?thesis
        unfolding rooms_ok_def rooms' using rooms_rep_cong [OF left] None by auto
    next
      case (Some new)
      have "in_room ?w room k = (in_room v room k \<and> k \<noteq> ?n \<or> room = sr_room_id new \<and> k = ?n)" for room k
        using mem [of room k] Some by auto
      then show ?thesis
        unfolding rooms_ok_def rooms' using rooms_rep_cong [OF rooms_rep_enter [OF left n]] Some by auto
    qed
  qed
qed

lemma owners_ok_set_route:
  assumes owners: "owners_ok v"
  shows "owners_ok (v_set_route sid route v)"
proof (cases "v_sessions v sid")
  case None
  then show ?thesis using owners by (simp add: v_set_route_def)
next
  case s: (Some s)
  show ?thesis
  proof (cases "w_route s = route")
    case True
    then show ?thesis using s owners by (simp add: v_set_route_def)
  next
    case ne: False
    let ?w = "v_set_route sid route v"
    have o: "v_owners ?w k = (if map_option route_key route = Some k then Some sid
        else if map_option route_key (w_route s) = Some k \<and> v_owners v k = Some sid then None else v_owners v k)" for k
      using s ne by (auto simp: v_set_route_def v_enter_def v_leave_def split: option.splits)
    show ?thesis
      unfolding owners_ok_def
    proof (intro allI impI)
      fix room stream u
      assume u: "v_owners ?w (room, stream) = Some u"
      show "\<exists>t. v_sessions ?w u = Some t \<and> w_route t = Some \<lparr>sr_room_id = room, sr_stream_id = stream\<rparr>"
      proof (cases "map_option route_key route = Some (room, stream)")
        case True
        with u o have "u = sid" by simp
        with True s show ?thesis by (auto simp: v_sessions_set_route route_key_def)
      next
        case False
        with u o have old: "v_owners v (room, stream) = Some u"
          and no: "\<not> (map_option route_key (w_route s) = Some (room, stream) \<and> u = sid)"
          by (auto split: if_splits)
        from owners old obtain t where t: "v_sessions v u = Some t" "w_route t = Some \<lparr>sr_room_id = room, sr_stream_id = stream\<rparr>"
          unfolding owners_ok_def by blast
        with no s have "u \<noteq> sid" by (auto simp: route_key_def)
        with t show ?thesis by (simp add: v_sessions_set_route)
      qed
    qed
  qed
qed

lemma view_inv_set_route: "view_inv q v \<Longrightarrow> view_inv q (v_set_route sid route v)"
  unfolding view_inv_def
proof (elim conjE, intro conjI)
  assume v: "sessions_ok v" "rooms_ok v" "owners_ok v" "lanes_ok v" "permits_ok q v"
  show "sessions_ok (v_set_route sid route v)"
    by (rule sessions_ok_cong [OF v(1)]) (simp_all add: v_sessions_set_route option.map_comp comp_def)
  show "lanes_ok (v_set_route sid route v)"
    by (rule lanes_ok_cong [OF v(4)]) (simp_all add: v_sessions_set_route option.map_comp comp_def)
  show "rooms_ok (v_set_route sid route v)" by (rule rooms_ok_set_route [OF v(1,2)])
  show "owners_ok (v_set_route sid route v)" by (rule owners_ok_set_route [OF v(3)])
  show "permits_ok q (v_set_route sid route v)" using v(5) by (simp add: permits_ok_def)
qed

subsection \<open>Sessions\<close>

definition v_drop :: "session_id \<Rightarrow> session_view \<Rightarrow> relay_view \<Rightarrow> relay_view" where
  "v_drop sid s v = v\<lparr>v_sessions := (v_sessions v)(sid := None), v_slots := (v_slots v)[w_slot s := None],
     v_routes := (v_routes v)(w_rid s := None)\<rparr>"

lemma view_inv_drop:
  assumes inv: "view_inv q v" and s: "v_sessions v sid = Some s" and bare: "w_route s = None" "w_lane s = None"
  shows "view_inv q (v_drop sid s v)"
  unfolding view_inv_def
proof (intro conjI)
  note ok = inv [unfolded view_inv_def]
  note sok = sessions_okD [OF conjunct1 [OF ok]]
  show "sessions_ok (v_drop sid s v)"
    unfolding sessions_ok_def
  proof (intro conjI allI impI)
    show "length (v_slots (v_drop sid s v)) = MAX_SESSIONS" using sok(1) by (simp add: v_drop_def)
  next
    fix u t
    assume "v_sessions (v_drop sid s v) u = Some t"
    then have t: "v_sessions v u = Some t" "u \<noteq> sid" by (auto simp: v_drop_def split: if_splits)
    have "w_slot t \<noteq> w_slot s" "w_rid t \<noteq> w_rid s"
      using slot_unique [OF conjunct1 [OF ok] s t(1)] sok(4) [OF s] sok(4) [OF t(1)] t(2) by auto
    with t sok(2-4) show "w_slot t < MAX_SESSIONS" "v_slots (v_drop sid s v) ! w_slot t = Some u"
      "v_routes (v_drop sid s v) (w_rid t) = Some u" by (simp_all add: v_drop_def)
  next
    fix n u
    assume n: "n < MAX_SESSIONS" and "v_slots (v_drop sid s v) ! n = Some u"
    then have u: "v_slots v ! n = Some u" "n \<noteq> w_slot s"
      using sok(1) sok(2) [OF s] by (auto simp: v_drop_def nth_list_update split: if_splits)
    from sok(5) [OF n u(1)] obtain t where t: "v_sessions v u = Some t" "w_slot t = n" by blast
    with u(2) s have "u \<noteq> sid" by auto
    with t show "\<exists>t. v_sessions (v_drop sid s v) u = Some t \<and> w_slot t = n" by (simp add: v_drop_def)
  next
    fix rid u
    assume "v_routes (v_drop sid s v) rid = Some u"
    then have u: "v_routes v rid = Some u" "rid \<noteq> w_rid s" by (auto simp: v_drop_def split: if_splits)
    from sok(6) [OF u(1)] obtain t where t: "v_sessions v u = Some t" "w_rid t = rid" by blast
    with u(2) s have "u \<noteq> sid" by auto
    with t show "\<exists>t. v_sessions (v_drop sid s v) u = Some t \<and> w_rid t = rid" by (simp add: v_drop_def)
  qed
  have "(\<exists>t. v_sessions (v_drop sid s v) u = Some t \<and> w_slot t = n \<and> w_route t = Some rt)
      = (\<exists>t. v_sessions v u = Some t \<and> w_slot t = n \<and> w_route t = Some rt)" for u n rt
    using s bare by (cases "u = sid") (auto simp: v_drop_def)
  then have "in_room (v_drop sid s v) = in_room v" by (simp only: in_room_alt fun_eq_iff) simp
  then show "rooms_ok (v_drop sid s v)" using ok by (simp add: rooms_ok_def v_drop_def)
  show "owners_ok (v_drop sid s v)"
    unfolding owners_ok_def
  proof (intro allI impI)
    fix room stream u
    assume "v_owners (v_drop sid s v) (room, stream) = Some u"
    then have "v_owners v (room, stream) = Some u" by (simp add: v_drop_def)
    from owners_okD [OF _ this] ok obtain t where t: "v_sessions v u = Some t"
      "w_route t = Some \<lparr>sr_room_id = room, sr_stream_id = stream\<rparr>" by blast
    with s bare have "u \<noteq> sid" by auto
    with t show "\<exists>t. v_sessions (v_drop sid s v) u = Some t \<and> w_route t = Some \<lparr>sr_room_id = room, sr_stream_id = stream\<rparr>"
      by (simp add: v_drop_def)
  qed
  have l: "lanes_ok v" using ok by blast
  show "lanes_ok (v_drop sid s v)"
    unfolding lanes_ok_def
  proof (intro conjI allI impI)
    show "length (v_lanes (v_drop sid s v)) = MAX_TCP_VOICE_CONNS" using lanes_okD(1) [OF l] by (simp add: v_drop_def)
  next
    fix slot bound permit
    assume n: "slot < MAX_TCP_VOICE_CONNS" and "v_lanes (v_drop sid s v) ! slot = Some (bound, permit)"
    then have b: "v_lanes v ! slot = Some (bound, permit)" by (simp add: v_drop_def)
    show "permit = (bound = None)" by (rule lanes_okD(2) [OF l n b])
    fix u
    assume "bound = Some u"
    with b lanes_okD(3) [OF l n] obtain t where t: "v_sessions v u = Some t" "w_lane t = Some slot" by blast
    with s bare have "u \<noteq> sid" by auto
    with t show "\<exists>t. v_sessions (v_drop sid s v) u = Some t \<and> w_lane t = Some slot" by (simp add: v_drop_def)
  next
    fix u t slot
    assume "v_sessions (v_drop sid s v) u = Some t" and lane: "w_lane t = Some slot"
    then have t: "v_sessions v u = Some t" by (auto simp: v_drop_def split: if_splits)
    from lanes_okD(4,5) [OF l t lane] show "slot < MAX_TCP_VOICE_CONNS" "v_lanes (v_drop sid s v) ! slot = Some (Some u, False)"
      by (simp_all add: v_drop_def)
  qed
  show "permits_ok q (v_drop sid s v)" using ok by (simp add: permits_ok_def v_drop_def)
qed

definition v_remove :: "session_id \<Rightarrow> relay_view \<Rightarrow> relay_view" where
  "v_remove sid v =
     (let w = v_set_route sid None v in
      case v_sessions w sid of
        None \<Rightarrow> w
      | Some s \<Rightarrow> v_drop sid s (case w_lane s of None \<Rightarrow> w | Some slot \<Rightarrow> v_detach slot w))"

lemma detach_drop:
  assumes "v_sessions v sid = Some s" and "w_lane s = Some slot" and "v_lanes v ! slot = Some (Some sid, False)"
  shows "v_detach slot (v_drop sid s v) = v_drop sid s (v_detach slot v)"
  using assms by (simp add: v_detach_def v_drop_def)

lemma length_lanes_set_route [simp]: "length (tcp_conns (set_route sid route r)) = length (tcp_conns r)"
  using arg_cong [OF view_set_route [of sid route r], of "\<lambda>v. length (v_lanes v)"] by (simp add: view_select)

lemma view_remove:
  assumes "view_inv q (view r)"
  shows "view (remove_session sid r) = v_remove sid (view r)"
proof -
  let ?r = "set_route sid None r"
  have v: "view ?r = v_set_route sid None (view r)" by (rule view_set_route)
  have l: "lanes_ok (view ?r)" using view_inv_set_route [OF assms] by (simp add: v view_inv_def)
  show ?thesis
  proof (cases "sessions ?r sid")
    case None
    then show ?thesis by (simp add: remove_session_def v_remove_def v [symmetric] view_select)
  next
    case (Some s)
    define r1 where "r1 = ?r\<lparr>sessions := (sessions ?r)(sid := None), session_slots := (session_slots ?r)[vs_slot s := None],
        route_to_session := (route_to_session ?r)(protection_route_id (vs_protection s) := None)\<rparr>"
    have r1: "view r1 = v_drop sid (session_view_of s) (view ?r)"
      by (simp add: r1_def view_update view_select v_drop_def session_view_of_def fun_upd_comp)
    have sv: "v_sessions (view ?r) sid = Some (session_view_of s)" using Some by (simp add: view_select)
    have rem: "remove_session sid r = (case vs_tcp_conn s of None \<Rightarrow> r1 | Some slot \<Rightarrow> detach_tcp_conn slot r1)"
      unfolding remove_session_def Let_def r1_def by (simp add: Some)
    show ?thesis
    proof (cases "vs_tcp_conn s")
      case None
      then show ?thesis by (simp add: rem r1 v_remove_def v [symmetric] sv) (simp add: session_view_of_def)
    next
      case lane: (Some slot)
      then have w: "w_lane (session_view_of s) = Some slot" by (simp add: session_view_of_def)
      note facts = lanes_okD(1,4,5) [OF l]
      have "slot < length (tcp_conns r1)"
        using facts(1) facts(2) [OF sv w] by (simp add: view_select r1_def)
      then show ?thesis
        using detach_drop [OF sv w facts(3) [OF sv w]]
        by (simp add: rem lane view_detach r1 v_remove_def v [symmetric] sv w)
    qed
  qed
qed

lemma view_inv_remove:
  assumes inv: "view_inv q v"
  shows "view_inv q (v_remove sid v)"
proof -
  let ?w = "v_set_route sid None v"
  have w: "view_inv q ?w" by (rule view_inv_set_route [OF inv])
  show ?thesis
  proof (cases "v_sessions ?w sid")
    case None
    then show ?thesis using w by (simp add: v_remove_def)
  next
    case (Some s)
    then have route: "w_route s = None" by (auto simp: v_sessions_set_route)
    show ?thesis
    proof (cases "w_lane s")
      case None
      then show ?thesis using view_inv_drop [OF w Some route] Some by (simp add: v_remove_def)
    next
      case lane: (Some slot)
      have l: "lanes_ok ?w" using w by (simp add: view_inv_def)
      let ?x = "v_detach slot ?w" and ?s = "unbind_lane slot ?w sid s"
      have "view_inv q ?x" by (rule view_inv_detach [OF w lanes_okD(4) [OF l Some lane]])
      moreover have "v_sessions ?x sid = Some ?s" using Some by simp
      moreover have "w_lane ?s = None" using lane lanes_okD(5) [OF l Some lane] by (simp add: unbind_lane_def)
      ultimately have "view_inv q (v_drop sid ?s ?x)" using route by (intro view_inv_drop) auto
      then show ?thesis using Some lane by (simp add: v_remove_def v_drop_def Let_def)
    qed
  qed
qed

lemma v_remove_gone:
  assumes "view_inv q v"
  shows "v_sessions (v_remove sid v) sid = None" and "v_routes (v_remove sid v) rid \<noteq> Some sid"
    and "v_routes v rid = None \<Longrightarrow> v_routes (v_remove sid v) rid = None"
    and "v_routes v rid = Some sid \<Longrightarrow> v_routes (v_remove sid v) rid = None"
proof -
  show gone: "v_sessions (v_remove sid v) sid = None"
    by (auto simp: v_remove_def v_drop_def Let_def split: option.splits)
  have sub: "v_routes (v_remove sid v) rid = None \<or> v_routes (v_remove sid v) rid = v_routes v rid"
    by (auto simp: v_remove_def v_drop_def Let_def split: option.splits)
  have "sessions_ok (v_remove sid v)" using view_inv_remove [OF assms] by (simp add: view_inv_def)
  from sessions_okD(6) [OF this, of rid sid] gone show no: "v_routes (v_remove sid v) rid \<noteq> Some sid" by auto
  from sub no show "v_routes v rid = None \<Longrightarrow> v_routes (v_remove sid v) rid = None"
    "v_routes v rid = Some sid \<Longrightarrow> v_routes (v_remove sid v) rid = None" by auto
qed

lemma first_free_Some:
  assumes "first_free xs = Some n"
  shows "n < length xs" and "xs ! n = None"
proof -
  let ?P = "\<lambda>x. x \<noteq> None"
  from assms have n: "n = length (takeWhile ?P xs)" "n < length xs" by (auto simp: first_free_def Let_def split: if_splits)
  then show "n < length xs" by simp
  from n show "xs ! n = None" using nth_length_takeWhile [of ?P xs] by simp
qed

definition v_insert :: "session_id \<Rightarrow> nat \<Rightarrow> u32 \<Rightarrow> relay_view \<Rightarrow> relay_view" where
  "v_insert sid slot rid v = v\<lparr>v_sessions := (v_sessions v)(sid \<mapsto> \<lparr>w_slot = slot, w_rid = rid, w_route = None, w_lane = None\<rparr>),
     v_slots := (v_slots v)[slot := Some sid], v_routes := (v_routes v)(rid \<mapsto> sid)\<rparr>"

lemma view_inv_insert:
  assumes inv: "view_inv q v" and slot: "slot < MAX_SESSIONS" "v_slots v ! slot = None"
    and new: "v_sessions v sid = None" "v_routes v rid = None"
  shows "view_inv q (v_insert sid slot rid v)"
  unfolding view_inv_def
proof (intro conjI)
  note ok = inv [unfolded view_inv_def]
  let ?w = "v_insert sid slot rid v"
  note sok = sessions_okD [OF conjunct1 [OF ok]]
  show "sessions_ok ?w"
    unfolding sessions_ok_def
  proof (intro conjI allI impI)
    show "length (v_slots ?w) = MAX_SESSIONS" using sok(1) by (simp add: v_insert_def)
  next
    fix u t
    assume t: "v_sessions ?w u = Some t"
    show "w_slot t < MAX_SESSIONS" "v_slots ?w ! w_slot t = Some u" "v_routes ?w (w_rid t) = Some u"
    proof -
      have "w_slot t < MAX_SESSIONS \<and> v_slots ?w ! w_slot t = Some u \<and> v_routes ?w (w_rid t) = Some u"
      proof (cases "u = sid")
        case True
        with t slot(1) sok(1) show ?thesis by (auto simp: v_insert_def)
      next
        case False
        with t have t: "v_sessions v u = Some t" by (simp add: v_insert_def)
        with sok(3,4) slot(2) new(2) have "w_slot t \<noteq> slot" "w_rid t \<noteq> rid" by force+
        with sok(2-4) [OF t] show ?thesis by (simp add: v_insert_def)
      qed
      then show "w_slot t < MAX_SESSIONS" "v_slots ?w ! w_slot t = Some u" "v_routes ?w (w_rid t) = Some u" by blast+
    qed
  next
    fix n u
    assume n: "n < MAX_SESSIONS" and u: "v_slots ?w ! n = Some u"
    show "\<exists>t. v_sessions ?w u = Some t \<and> w_slot t = n"
    proof (cases "n = slot")
      case True
      with u slot(1) sok(1) show ?thesis by (simp add: v_insert_def)
    next
      case False
      with u have u: "v_slots v ! n = Some u" by (simp add: v_insert_def)
      from sok(5) [OF n u] new(1) show ?thesis by (auto simp: v_insert_def)
    qed
  next
    fix rid' u
    assume u: "v_routes ?w rid' = Some u"
    show "\<exists>t. v_sessions ?w u = Some t \<and> w_rid t = rid'"
    proof (cases "rid' = rid")
      case True
      with u show ?thesis by (simp add: v_insert_def)
    next
      case False
      with u have u: "v_routes v rid' = Some u" by (simp add: v_insert_def)
      from sok(6) [OF u] new(1) show ?thesis by (auto simp: v_insert_def)
    qed
  qed
  have "(\<exists>t. v_sessions ?w u = Some t \<and> w_slot t = n \<and> w_route t = Some rt)
      = (\<exists>t. v_sessions v u = Some t \<and> w_slot t = n \<and> w_route t = Some rt)" for u n rt
    using new by (cases "u = sid") (auto simp: v_insert_def)
  then have "in_room ?w = in_room v" by (simp only: in_room_alt fun_eq_iff) simp
  then show "rooms_ok ?w" using ok by (simp add: rooms_ok_def v_insert_def)
  show "owners_ok ?w"
    unfolding owners_ok_def
  proof (intro allI impI)
    fix room stream u
    assume "v_owners ?w (room, stream) = Some u"
    then have "v_owners v (room, stream) = Some u" by (simp add: v_insert_def)
    from owners_okD [OF _ this] ok new show "\<exists>t. v_sessions ?w u = Some t
      \<and> w_route t = Some \<lparr>sr_room_id = room, sr_stream_id = stream\<rparr>" by (auto simp: v_insert_def)
  qed
  have l: "lanes_ok v" using ok by blast
  show "lanes_ok ?w"
    unfolding lanes_ok_def
  proof (intro conjI allI impI)
    show "length (v_lanes ?w) = MAX_TCP_VOICE_CONNS" using lanes_okD(1) [OF l] by (simp add: v_insert_def)
  next
    fix n bound permit
    assume n: "n < MAX_TCP_VOICE_CONNS" and "v_lanes ?w ! n = Some (bound, permit)"
    then have b: "v_lanes v ! n = Some (bound, permit)" by (simp add: v_insert_def)
    show "permit = (bound = None)" by (rule lanes_okD(2) [OF l n b])
    fix u
    assume "bound = Some u"
    with b lanes_okD(3) [OF l n] obtain t where t: "v_sessions v u = Some t" "w_lane t = Some n" by blast
    with new have "u \<noteq> sid" by auto
    with t show "\<exists>t. v_sessions ?w u = Some t \<and> w_lane t = Some n" by (simp add: v_insert_def)
  next
    fix u t n
    assume "v_sessions ?w u = Some t" and lane: "w_lane t = Some n"
    then have t: "v_sessions v u = Some t" by (auto simp: v_insert_def split: if_splits)
    from lanes_okD(4,5) [OF l t lane] show "n < MAX_TCP_VOICE_CONNS" "v_lanes ?w ! n = Some (Some u, False)"
      by (simp_all add: v_insert_def)
  qed
  show "permits_ok q ?w" using ok by (simp add: permits_ok_def v_insert_def)
qed

lemma now_of_view [simp]: "now_of io r = (t, r') \<Longrightarrow> view r' = view r"
  by (auto simp: now_of_def split: prod.splits)

lemma view_inv_register:
  assumes inv: "view_inv q (view r)"
  shows "view_inv q (view (register_session io sid user protection r))"
proof (cases "case route_to_session r (protection_route_id protection) of None \<Rightarrow> False | Some existing \<Rightarrow> existing \<noteq> sid")
  case True
  then show ?thesis using inv by (simp add: register_session_def)
next
  case False
  let ?rid = "protection_route_id protection"
  define r1 where "r1 = (if sessions r sid \<noteq> None then remove_session sid r else r)"
  have v1: "view r1 = (if v_sessions (view r) sid \<noteq> None then v_remove sid (view r) else view r)"
    by (simp add: r1_def view_remove [OF inv] view_select)
  have inv1: "view_inv q (view r1)" using inv by (simp add: v1 view_inv_remove)
  have route: "v_routes (view r) ?rid = None \<or> v_routes (view r) ?rid = Some sid"
    using False by (auto simp: view_select split: option.splits)
  have gone: "v_sessions (view r1) sid = None"
    using v_remove_gone(1) [OF inv] by (simp add: v1)
  have free: "v_routes (view r1) ?rid = None"
  proof (cases "v_sessions (view r) sid = None")
    case True
    have "sessions_ok (view r)" using inv by (simp add: view_inv_def)
    from sessions_okD(6) [OF this, of ?rid sid] True route show ?thesis by (auto simp: v1)
  next
    case False
    then show ?thesis using v_remove_gone(3,4) [OF inv] route by (auto simp: v1)
  qed
  show ?thesis
  proof (cases "first_free (session_slots r1)")
    case None
    then show ?thesis using False inv1 unfolding register_session_def Let_def r1_def [symmetric] by simp
  next
    case (Some slot)
    obtain t r2 where r2: "now_of io r1 = (t, r2)" by fastforce
    then have same: "view r2 = view r1" by simp
    have len: "length (session_slots r1) = MAX_SESSIONS"
      using inv1 by (simp add: view_inv_def sessions_ok_def view_select)
    note ff = first_free_Some [OF Some]
    have "view (register_session io sid user protection r) = v_insert sid slot ?rid (view r1)"
      using False unfolding register_session_def Let_def r1_def [symmetric] same [symmetric]
      by (simp add: Some r2 view_update view_select v_insert_def fun_upd_comp session_view_of_def)
    moreover have "v_slots (view r1) ! slot = None" using ff(2) by (simp add: view_select)
    ultimately show ?thesis
      using view_inv_insert [OF inv1 _ _ gone free] ff(1) len by simp
  qed
qed

subsection \<open>Lanes\<close>

definition v_lane :: "nat \<Rightarrow> (session_id option \<times> bool) option \<Rightarrow> relay_view \<Rightarrow> relay_view" where
  "v_lane slot l v = v\<lparr>v_lanes := (v_lanes v)[slot := l]\<rparr>"

lemma view_inv_attach:
  assumes inv: "view_inv (Suc q) v" and slot: "slot < MAX_TCP_VOICE_CONNS" "v_lanes v ! slot = None"
  shows "view_inv q (v_lane slot (Some (None, True)) v)"
  unfolding view_inv_def
proof (intro conjI)
  note ok = inv [unfolded view_inv_def]
  let ?w = "v_lane slot (Some (None, True)) v"
  have l: "lanes_ok v" using ok by blast
  have "in_room ?w = in_room v" by (simp add: in_room_def v_lane_def fun_eq_iff)
  with ok show "sessions_ok ?w" "rooms_ok ?w" "owners_ok ?w"
    by (simp_all add: sessions_ok_def rooms_ok_def owners_ok_def v_lane_def)
  show "lanes_ok ?w"
    unfolding lanes_ok_def
  proof (intro conjI allI impI)
    show "length (v_lanes ?w) = MAX_TCP_VOICE_CONNS" using lanes_okD(1) [OF l] by (simp add: v_lane_def)
  next
    fix n bound permit
    assume n: "n < MAX_TCP_VOICE_CONNS" and b: "v_lanes ?w ! n = Some (bound, permit)"
    have b: "n = slot \<and> bound = None \<and> permit \<or> v_lanes v ! n = Some (bound, permit)"
      using b lanes_okD(1) [OF l] slot(1) by (auto simp: v_lane_def nth_list_update split: if_splits)
    then show "permit = (bound = None)" using lanes_okD(2) [OF l n] by blast
    fix u
    assume "bound = Some u"
    with b lanes_okD(3) [OF l n] show "\<exists>t. v_sessions ?w u = Some t \<and> w_lane t = Some n"
      unfolding v_lane_def by auto
  next
    fix u t n
    assume "v_sessions ?w u = Some t" and lane: "w_lane t = Some n"
    then have t: "v_sessions v u = Some t" by (simp add: v_lane_def)
    note old = lanes_okD(4,5) [OF l t lane]
    with slot(2) have "n \<noteq> slot" by auto
    with old show "n < MAX_TCP_VOICE_CONNS" "v_lanes ?w ! n = Some (Some u, False)" by (simp_all add: v_lane_def)
  qed
  show "permits_ok q ?w"
    using ok length_filter_update [of slot "v_lanes v" holds_permit "Some (None, True)"] slot lanes_okD(1) [OF l]
    by (simp add: permits_ok_def v_lane_def)
qed

lemma view_inv_forfeit:
  assumes "view_inv (Suc q) v"
  shows "view_inv q (v\<lparr>v_held := v_held v - 1\<rparr>)"
proof -
  have "in_room (v\<lparr>v_held := v_held v - 1\<rparr>) = in_room v" by (simp add: in_room_def fun_eq_iff)
  with assms show ?thesis
    by (simp add: view_inv_def sessions_ok_def rooms_ok_def owners_ok_def lanes_ok_def permits_ok_def)
qed

lemma view_inv_attach_tcp:
  assumes inv: "view_inv (Suc q) (view r)"
  shows "view_inv q (view (attach_tcp_conn io socket addr read_buf r))"
proof -
  have drop: "view_inv q (view (drop_permit True r'))" if "view r' = view r" for r' :: "'a voice_relay"
    using view_inv_forfeit [OF inv] that by (simp add: drop_permit_def view_update) (metis view_select(7))
  show ?thesis
  proof (cases "first_free (tcp_conns r)")
    case None
    then show ?thesis by (simp add: attach_tcp_conn_def drop)
  next
    case (Some slot)
    obtain ok e where reg: "io_register io socket (relay_env r) = (ok, e)" by fastforce
    obtain t r' where now: "now_of io (r\<lparr>relay_env := e\<rparr>) = (t, r')" by fastforce
    have r': "view r' = view r" using now_of_view [OF now] by simp
    show ?thesis
    proof (cases ok)
      case False
      then show ?thesis by (simp add: attach_tcp_conn_def Some reg drop)
    next
      case True
      note ff = first_free_Some [OF Some]
      have len: "length (tcp_conns r) = MAX_TCP_VOICE_CONNS"
        using inv by (simp add: view_inv_def lanes_ok_def view_select)
      have "view (attach_tcp_conn io socket addr read_buf r) = v_lane slot (Some (None, True)) (view r)"
        using True r' [symmetric]
        by (simp add: attach_tcp_conn_def Some reg now view_update view_select v_lane_def map_update lane_view_of_def)
      then show ?thesis
        using view_inv_attach [OF inv] ff len by (simp add: view_select)
    qed
  qed
qed

definition v_bind :: "nat \<Rightarrow> session_id \<Rightarrow> session_view \<Rightarrow> relay_view \<Rightarrow> relay_view" where
  "v_bind slot sid s v = v\<lparr>v_lanes := (v_lanes v)[slot := Some (Some sid, False)],
     v_sessions := (v_sessions v)(sid \<mapsto> s\<lparr>w_lane := Some slot\<rparr>), v_held := v_held v - 1\<rparr>"

lemma view_inv_bind:
  assumes inv: "view_inv q v" and slot: "slot < MAX_TCP_VOICE_CONNS" "v_lanes v ! slot = Some (None, True)"
    and s: "v_sessions v sid = Some s" "w_lane s = None"
  shows "view_inv q (v_bind slot sid s v)"
  unfolding view_inv_def
proof (intro conjI)
  note ok = inv [unfolded view_inv_def]
  let ?w = "v_bind slot sid s v"
  have l: "lanes_ok v" using ok by blast
  have "map_option (\<lambda>t. (w_slot t, w_rid t)) (v_sessions ?w u) = map_option (\<lambda>t. (w_slot t, w_rid t)) (v_sessions v u)" for u
    using s by (simp add: v_bind_def)
  then show "sessions_ok ?w" by (rule sessions_ok_cong [OF conjunct1 [OF ok], rotated 2]) (simp_all add: v_bind_def)
  have "(\<exists>t. v_sessions ?w u = Some t \<and> w_slot t = n \<and> w_route t = Some rt)
      = (\<exists>t. v_sessions v u = Some t \<and> w_slot t = n \<and> w_route t = Some rt)" for u n rt
    using s by (cases "u = sid") (auto simp: v_bind_def)
  then have "in_room ?w = in_room v" by (simp only: in_room_alt fun_eq_iff) simp
  then show "rooms_ok ?w" using ok by (simp add: rooms_ok_def v_bind_def)
  show "owners_ok ?w"
    unfolding owners_ok_def
  proof (intro allI impI)
    fix room stream u
    assume "v_owners ?w (room, stream) = Some u"
    then have "v_owners v (room, stream) = Some u" by (simp add: v_bind_def)
    from owners_okD [OF _ this] ok obtain t where "v_sessions v u = Some t"
      "w_route t = Some \<lparr>sr_room_id = room, sr_stream_id = stream\<rparr>" by blast
    with s show "\<exists>t. v_sessions ?w u = Some t \<and> w_route t = Some \<lparr>sr_room_id = room, sr_stream_id = stream\<rparr>"
      by (cases "u = sid") (simp_all add: v_bind_def)
  qed
  show "lanes_ok ?w"
    unfolding lanes_ok_def
  proof (intro conjI allI impI)
    show "length (v_lanes ?w) = MAX_TCP_VOICE_CONNS" using lanes_okD(1) [OF l] by (simp add: v_bind_def)
  next
    fix n bound permit
    assume n: "n < MAX_TCP_VOICE_CONNS" and b: "v_lanes ?w ! n = Some (bound, permit)"
    have b: "n = slot \<and> bound = Some sid \<and> \<not> permit \<or> n \<noteq> slot \<and> v_lanes v ! n = Some (bound, permit)"
      using b lanes_okD(1) [OF l] slot(1) by (auto simp: v_bind_def nth_list_update split: if_splits)
    then show "permit = (bound = None)" using lanes_okD(2) [OF l n] by blast
    fix u
    assume u: "bound = Some u"
    show "\<exists>t. v_sessions ?w u = Some t \<and> w_lane t = Some n"
    proof (cases "n = slot")
      case True
      with b u show ?thesis by (simp add: v_bind_def)
    next
      case False
      with b u lanes_okD(3) [OF l n] obtain t where t: "v_sessions v u = Some t" "w_lane t = Some n" by blast
      with s have "u \<noteq> sid" by auto
      with t show ?thesis by (simp add: v_bind_def)
    qed
  next
    fix u t n
    assume t: "v_sessions ?w u = Some t" "w_lane t = Some n"
    have "n < MAX_TCP_VOICE_CONNS \<and> v_lanes ?w ! n = Some (Some u, False)"
    proof (cases "u = sid")
      case True
      with t slot(1) lanes_okD(1) [OF l] show ?thesis by (auto simp: v_bind_def)
    next
      case False
      with t have "v_sessions v u = Some t" by (simp add: v_bind_def)
      note old = lanes_okD(4,5) [OF l this t(2)]
      with slot(2) have "n \<noteq> slot" by auto
      with old show ?thesis by (simp add: v_bind_def)
    qed
    then show "n < MAX_TCP_VOICE_CONNS" "v_lanes ?w ! n = Some (Some u, False)" by blast+
  qed
  show "permits_ok q ?w"
    using ok length_filter_update [of slot "v_lanes v" holds_permit "Some (Some sid, False)"] slot lanes_okD(1) [OF l]
    by (auto simp: permits_ok_def v_bind_def)
qed

lemma v_bind_detach:
  assumes l: "lanes_ok v" and slot: "v_lanes v ! slot = Some (None, True)"
    and s: "v_sessions v sid = Some s" "w_lane s = Some previous"
  shows "v_detach previous (v_bind slot sid s v) = v_bind slot sid (s\<lparr>w_lane := None\<rparr>) (v_detach previous v)"
    and "v_sessions (v_detach previous v) sid = Some (s\<lparr>w_lane := None\<rparr>)" and "previous \<noteq> slot"
proof -
  note old = lanes_okD(4,5) [OF l s]
  from old(2) slot show ne: "previous \<noteq> slot" by auto
  show "v_sessions (v_detach previous v) sid = Some (s\<lparr>w_lane := None\<rparr>)"
    using s old by (simp add: unbind_lane_def)
  show "v_detach previous (v_bind slot sid s v) = v_bind slot sid (s\<lparr>w_lane := None\<rparr>) (v_detach previous v)"
    using s old ne by (simp add: v_detach_def v_bind_def list_update_swap)
qed

lemma view_inv_bind_tcp:
  assumes inv: "view_inv q (view r)" and slot: "slot < MAX_TCP_VOICE_CONNS" and sid: "sessions r sid \<noteq> None"
  shows "view_inv q (view (bind_tcp_conn slot sid r))"
proof (cases "tcp_conns r ! slot")
  case None
  then show ?thesis using inv by (simp add: bind_tcp_conn_def)
next
  case (Some conn)
  show ?thesis
  proof (cases "vc_session conn")
    case bound: (Some b)
    then show ?thesis using inv Some by (simp add: bind_tcp_conn_def)
  next
    case None
    have l: "lanes_ok (view r)" using inv by (simp add: view_inv_def)
    have len: "length (tcp_conns r) = MAX_TCP_VOICE_CONNS" using lanes_okD(1) [OF l] by (simp add: view_select)
    have vl: "v_lanes (view r) ! slot = Some (vc_session conn, vc_permit conn)"
      using Some slot len by (simp add: view_select lane_view_of_def)
    with lanes_okD(2) [OF l slot] None have permit: "vc_permit conn" by auto
    with vl None have free: "v_lanes (view r) ! slot = Some (None, True)" by simp
    from sid obtain s where s: "sessions r sid = Some s" by blast
    then have sv: "v_sessions (view r) sid = Some (session_view_of s)" by (simp add: view_select)
    define r2 where "r2 = r\<lparr>tcp_conns := (tcp_conns r)[slot := Some (conn\<lparr>vc_session := Some sid, vc_permit := False\<rparr>)],
        handoff_held := handoff_held r - 1, sessions := (sessions r)(sid \<mapsto> s\<lparr>vs_tcp_conn := Some slot\<rparr>)\<rparr>"
    have r2: "view r2 = v_bind slot sid (session_view_of s) (view r)"
      by (simp add: r2_def view_update view_select v_bind_def map_update lane_view_of_def fun_upd_comp session_view_of_def)
    have bind: "bind_tcp_conn slot sid r = (case vs_tcp_conn s of None \<Rightarrow> r2
        | Some previous \<Rightarrow> if previous \<noteq> slot then detach_tcp_conn previous r2 else r2)"
      using Some None s permit unfolding bind_tcp_conn_def r2_def by (simp add: drop_permit_def Let_def del: One_nat_def)
    show ?thesis
    proof (cases "vs_tcp_conn s")
      case None
      then show ?thesis
        using view_inv_bind [OF inv slot free sv] by (simp add: bind r2 session_view_of_def)
    next
      case prev: (Some previous)
      then have w: "w_lane (session_view_of s) = Some previous" by (simp add: session_view_of_def)
      note facts = v_bind_detach [OF l free sv w]
      have p: "previous < MAX_TCP_VOICE_CONNS" by (rule lanes_okD(4) [OF l sv w])
      have d: "view_inv q (v_detach previous (view r))" by (rule view_inv_detach [OF inv p])
      have "v_lanes (v_detach previous (view r)) ! slot = Some (None, True)"
        using free facts(3) by (simp add: lanes_detach)
      from view_inv_bind [OF d slot this facts(2)] have
        "view_inv q (v_detach previous (view r2))" by (simp add: r2 facts(1))
      moreover have "previous < length (tcp_conns r2)" using p len by (simp add: r2_def)
      ultimately show ?thesis using facts(3) by (simp add: bind prev view_detach)
    qed
  qed
qed

end
