(* ===== verification/Relay_Run.thy ===== *)
theory Relay_Run
  imports Relay_Invariants
begin

text \<open>
  Every operation of the relay keeps the invariant: the links of its tables, and that the backlog of
  each voice lane stays within its cap. The event loop is a composition of these operations, so the
  invariant holds at every point of a run.
\<close>

section \<open>Definitions\<close>

definition queue_ok :: "tcp_voice_conn \<Rightarrow> bool" where
  "queue_ok c \<longleftrightarrow> wq_inv (vc_write_queue c) \<and> wq_len (vc_write_queue c) \<le> VOICE_TCP_WRITE_CAP_BYTES"

definition queues_ok :: "'env voice_relay \<Rightarrow> bool" where
  "queues_ok r \<longleftrightarrow> list_all (\<lambda>c. case c of None \<Rightarrow> True | Some conn \<Rightarrow> queue_ok conn) (tcp_conns r)"

text \<open>The invariant with the permits that travel outside the lanes and the queued commands.\<close>

definition rinv :: "nat \<Rightarrow> voice_command list \<Rightarrow> 'env voice_relay \<Rightarrow> bool" where
  "rinv queued cs r \<longleftrightarrow> view_inv queued (view r) \<and> queues_ok r \<and> commands r = cs"

definition relay_inv :: "'env voice_relay \<Rightarrow> bool" where
  "relay_inv r \<longleftrightarrow> rinv (length (filter is_attach (commands r))) (commands r) r"

definition relay_env_ok :: "'env relay_io \<Rightarrow> crypto_fns \<Rightarrow> bool" where
  "relay_env_ok io F \<longleftrightarrow> (\<forall>socket. send_bounded (io_send io socket)) \<and> aead_correct (aead_fns.truncate F) \<and> hmac_is_32 F"

fun origin_ok :: "packet_origin \<Rightarrow> bool" where
  "origin_ok (Tcp slot) = (slot < MAX_TCP_VOICE_CONNS)"
| "origin_ok (Udp _ _ _) = True"

section \<open>Primitive updates\<close>

lemma inv_inert [simp]:
  "rinv q cs (r\<lparr>relay_env := e\<rparr>) = rinv q cs r"
  "rinv q cs (r\<lparr>tcp_read_work := w1\<rparr>) = rinv q cs r"
  "rinv q cs (r\<lparr>tcp_write_work := w2\<rparr>) = rinv q cs r"
  "rinv q cs (r\<lparr>udp_send_packet := p\<rparr>) = rinv q cs r"
  "rinv q cs (r\<lparr>udp_sent := us\<rparr>) = rinv q cs r"
  "rinv q cs (r\<lparr>udp_work := uw\<rparr>) = rinv q cs r"
  "rinv q cs (r\<lparr>event_buf := ev\<rparr>) = rinv q cs r"
  "rinv q cs (r\<lparr>events := ev2\<rparr>) = rinv q cs r"
  "rinv q cs (r\<lparr>shutting_down := b\<rparr>) = rinv q cs r"
  "rinv q cs (r\<lparr>next_activity_flush := n\<rparr>) = rinv q cs r"
  by (simp_all add: rinv_def queues_ok_def)

lemma inv_lanes: "rinv q cs r \<Longrightarrow> length (tcp_conns r) = MAX_TCP_VOICE_CONNS"
  by (simp add: rinv_def view_inv_def lanes_ok_def view_select)

lemma inv_queue:
  assumes "rinv q cs r" and "slot < MAX_TCP_VOICE_CONNS" and "tcp_conns r ! slot = Some conn"
  shows "queue_ok conn"
proof -
  have "list_all (\<lambda>c. case c of None \<Rightarrow> True | Some conn \<Rightarrow> queue_ok conn) (tcp_conns r)"
    using assms(1) by (simp add: rinv_def queues_ok_def)
  with assms inv_lanes [OF assms(1)] show ?thesis by (metis list_all_length option.simps(5))
qed

lemma inv_session_lane:
  assumes "rinv q cs r" and "sessions r sid = Some s" and "vs_tcp_conn s = Some slot"
  shows "slot < MAX_TCP_VOICE_CONNS"
proof -
  have "lanes_ok (view r)" using assms(1) by (simp add: rinv_def view_inv_def)
  from lanes_okD(4) [OF this, of sid "session_view_of s" slot] assms(2,3) show ?thesis
    by (simp add: view_select session_view_of_def)
qed

lemma inv_session:
  assumes "rinv q cs r" and "sessions r sid = Some s" and "session_view_of s' = session_view_of s"
  shows "rinv q cs (r\<lparr>sessions := (sessions r)(sid \<mapsto> s')\<rparr>)"
proof -
  have "view (r\<lparr>sessions := (sessions r)(sid \<mapsto> s')\<rparr>) = view r"
    using assms(2,3) by (auto simp: view_def fun_eq_iff)
  with assms(1) show ?thesis by (simp add: rinv_def queues_ok_def)
qed

lemma inv_now: "now_of io r = (t, r') \<Longrightarrow> rinv q cs r' = rinv q cs r"
  by (auto simp: now_of_def split: prod.splits)

lemma queues_update:
  assumes "queues_ok r" and "\<And>conn. c = Some conn \<Longrightarrow> queue_ok conn" and "tcp_conns r' = (tcp_conns r)[slot := c]"
  shows "queues_ok r'"
  using assms unfolding queues_ok_def list_all_iff
  by (auto dest!: set_update_subset_insert [THEN subsetD] split: option.splits)

lemma detach_fields:
  "tcp_conns (detach_tcp_conn slot r) = (tcp_conns r)[slot := None]" "commands (detach_tcp_conn slot r) = commands r"
proof -
  show "tcp_conns (detach_tcp_conn slot r) = (tcp_conns r)[slot := None]"
  proof (cases "tcp_conns r ! slot")
    case None
    then show ?thesis using list_update_id [of "tcp_conns r" slot] by (simp add: detach_tcp_conn_def)
  qed (auto simp: detach_tcp_conn_def Let_def drop_permit_def split: option.splits)
  show "commands (detach_tcp_conn slot r) = commands r"
    by (auto simp: detach_tcp_conn_def Let_def drop_permit_def split: option.splits)
qed

lemma queues_detach: "queues_ok r \<Longrightarrow> queues_ok (detach_tcp_conn slot r)"
  by (erule queues_update) (simp_all add: detach_fields)

lemma inv_detach:
  assumes "rinv q cs r" and "slot < MAX_TCP_VOICE_CONNS"
  shows "rinv q cs (detach_tcp_conn slot r)"
  using assms view_inv_detach view_detach [of slot r] inv_lanes [OF assms(1)]
  by (simp add: rinv_def detach_fields queues_detach)

definition link_keeping :: "(tcp_voice_conn \<Rightarrow> tcp_voice_conn) \<Rightarrow> bool" where
  "link_keeping g \<longleftrightarrow> (\<forall>c. vc_session (g c) = vc_session c \<and> vc_permit (g c) = vc_permit c)"

lemma inv_upd_conn:
  assumes "rinv q cs r" and "link_keeping g"
    and "\<And>conn. tcp_conns r ! slot = Some conn \<Longrightarrow> slot < MAX_TCP_VOICE_CONNS \<Longrightarrow> queue_ok (g conn)"
  shows "rinv q cs (upd_conn slot g r)"
proof (cases "tcp_conns r ! slot")
  case None
  then show ?thesis using assms(1) by (simp add: upd_conn_def)
next
  case (Some conn)
  show ?thesis
  proof (cases "slot < MAX_TCP_VOICE_CONNS")
    case True
    have "map (map_option lane_view_of) ((tcp_conns r)[slot := Some (g conn)]) = map (map_option lane_view_of) (tcp_conns r)"
      using Some assms(2) True inv_lanes [OF assms(1)]
      by (intro nth_equalityI) (auto simp: nth_list_update lane_view_of_def link_keeping_def)
    then have "view (upd_conn slot g r) = view r" using Some by (simp add: upd_conn_def view_def)
    moreover have "queues_ok (upd_conn slot g r)"
      using assms(1) assms(3) [OF Some True] Some unfolding rinv_def queues_ok_def list_all_iff upd_conn_def
      by (auto dest!: set_update_subset_insert [THEN subsetD])
    ultimately show ?thesis using assms(1) Some by (simp add: rinv_def upd_conn_def)
  next
    case False
    then show ?thesis
      using assms(1) Some inv_lanes [OF assms(1)] by (simp add: upd_conn_def list_update_beyond)
  qed
qed

lemma detach_upd_conn:
  assumes "slot < length (tcp_conns r)" and "link_keeping g"
  shows "detach_tcp_conn slot (upd_conn slot g r) = detach_tcp_conn slot r"
  using assms by (cases "tcp_conns r ! slot") (auto simp: detach_tcp_conn_def upd_conn_def link_keeping_def Let_def)

section \<open>Sending\<close>

lemma wq_len_pending: "wq_inv q \<Longrightarrow> wq_len q = length (wq_pending q)"
  by (simp add: wq_len_def wq_pending_def)

lemma write_queue_to_shrinks:
  assumes "send_bounded send" and "wq_inv q" and "write_queue_to send env q n = (Inr out, q', env')"
  shows "wq_inv q'" and "wq_len q' \<le> wq_len q"
proof -
  let ?o = "\<lparr>bytes_written = 0, attempts = 0, wp_hit_limit = False, blocked = False, wrote_zero = False\<rparr>"
  from assms(3) obtain out0 where l: "write_loop n send env q ?o = (Inr out0, q', env')"
    by (auto simp: write_queue_to_def split: prod.splits sum.splits)
  from write_loop_ok [OF assms(1,2) l] show "wq_inv q'" "wq_len q' \<le> wq_len q"
    by (auto simp: wq_len_def wq_pending_def dest: arg_cong [of _ _ length])
qed

lemma inv_detach_stale:
  "rinv q cs r \<Longrightarrow> slot < MAX_TCP_VOICE_CONNS \<Longrightarrow> rinv q cs (snd (detach_stale_tcp_backlog slot now r))"
  by (simp add: detach_stale_tcp_backlog_def Let_def inv_detach)

lemma inv_flush_tcp:
  assumes env: "relay_env_ok io F" and inv: "rinv q cs r" and slot: "slot < MAX_TCP_VOICE_CONNS"
  shows "rinv q cs (flush_tcp io slot r)"
proof (cases "tcp_conns r ! slot")
  case None
  then show ?thesis using inv by (simp add: flush_tcp_def)
next
  case (Some conn)
  note ok = inv_queue [OF inv slot Some]
  show ?thesis
  proof (cases "vc_write_blocked conn \<or> wq_is_empty (vc_write_queue conn)")
    case True
    then show ?thesis using inv Some by (simp add: flush_tcp_def)
  next
    case False
    obtain res wq e where w: "write_queue_to (io_send io (vc_socket conn)) (relay_env r) (vc_write_queue conn)
        VOICE_TCP_WRITE_ATTEMPTS = (res, wq, e)" by (metis prod.exhaust)
    show ?thesis
    proof (cases res)
      case (Inl err)
      have link: "link_keeping (\<lambda>c. c\<lparr>vc_write_queue := wq\<rparr>)" by (simp add: link_keeping_def)
      have "slot < length (tcp_conns (r\<lparr>relay_env := e\<rparr>))" using slot inv_lanes [OF inv] by simp
      then have "flush_tcp io slot r = detach_tcp_conn slot (r\<lparr>relay_env := e\<rparr>)"
        using Some False w Inl detach_upd_conn [OF _ link, of slot "r\<lparr>relay_env := e\<rparr>"] by (simp add: flush_tcp_def)
      then show ?thesis using inv slot by (simp add: inv_detach)
    next
      case (Inr out)
      obtain now r1 where now: "now_of io (r\<lparr>relay_env := e\<rparr>) = (now, r1)" by fastforce
      have i1: "rinv q cs r1" using inv_now [OF now] inv by simp
      have c1: "tcp_conns r1 = tcp_conns r" using now by (auto simp: now_of_def split: prod.splits)
      define g where "g = (\<lambda>c :: tcp_voice_conn. c\<lparr>vc_write_queue := wq,
          vc_backlog_since := (if wq_is_empty wq then None else vc_backlog_since c),
          vc_write_blocked := (vc_write_blocked c \<or> blocked out)\<rparr>)"
      have "queue_ok (g conn)"
        using ok write_queue_to_shrinks [OF _ _ w [unfolded Inr]] env
        by (simp add: queue_ok_def g_def relay_env_ok_def le_trans)
      then have i2: "rinv q cs (upd_conn slot g r1)"
        using Some c1 by (intro inv_upd_conn [OF i1]) (auto simp: link_keeping_def g_def)
      define r3 where "r3 = (let r2 = upd_conn slot g r1 in if \<not> blocked out \<and> wp_hit_limit out
          then r2\<lparr>tcp_write_work := set_slot_bit (tcp_write_work r2) slot\<rparr> else r2)"
      have i3: "rinv q cs r3" using i2 by (simp add: r3_def Let_def)
      have "flush_tcp io slot r = (if wrote_zero out then detach_tcp_conn slot r3
          else snd (detach_stale_tcp_backlog slot now r3))"
        using Some False w Inr now unfolding flush_tcp_def r3_def g_def by (simp add: Let_def)
      then show ?thesis using inv_detach [OF i3 slot] inv_detach_stale [OF i3 slot] by simp
    qed
  qed
qed

lemma seal_media_ref_length:
  assumes "aead_correct (aead_fns.truncate F)" and "hmac_is_32 F" and "seal_media_ref_into F P counter payload = Inr bs"
  shows "length bs \<le> MAX_SEALED_MEDIA_BYTES"
proof -
  obtain scratch where scratch: "length scratch \<le> SAFE_UDP_PAYLOAD_BYTES"
    and cases: "(\<exists>c t. (\<exists>k n a. aead_seal (aead_fns.truncate F) k n a scratch = Some (c, t)) \<and> length bs = 14 + length c + length t)
      \<or> (\<exists>k m. length bs \<le> 14 + length scratch + length (auth_proof F k m))"
    using assms(3)
    by (auto simp: seal_media_ref_into_def Let_def rbind_Inr_iff seal_in_place_append_tag_def not_less
        split: media_protection.splits if_splits option.splits prod.splits; fastforce)
  show ?thesis
    using cases
  proof (elim disjE exE conjE)
    fix c t k n a
    assume "aead_seal (aead_fns.truncate F) k n a scratch = Some (c, t)" and bs: "length bs = 14 + length c + length t"
    with assms(1) have "length c = length scratch" "length t = TAG_LEN" by (auto simp: aead_correct_def)
    with bs scratch show ?thesis
      by (simp add: MAX_SEALED_MEDIA_BYTES_def UDP_HEADER_LEN_def)
  next
    fix k m
    assume "length bs \<le> 14 + length scratch + length (auth_proof F k m)"
    with scratch length_auth_proof [OF assms(2), of k m] show ?thesis
      by (simp add: MAX_SEALED_MEDIA_BYTES_def UDP_HEADER_LEN_def TAG_LEN_def AUTH_PROOF_LEN_def)
  qed
qed

lemma inv_admit_tcp_send:
  assumes inv: "rinv q cs r" and slot: "slot < MAX_TCP_VOICE_CONNS" and a: "admit_tcp_send io slot r = (ok, r')"
  shows "rinv q cs r'"
    and "ok \<Longrightarrow> \<exists>conn. tcp_conns r' ! slot = Some conn
           \<and> wq_len (vc_write_queue conn) + VOICE_TCP_MAX_WIRE_FRAME_BYTES \<le> VOICE_TCP_WRITE_CAP_BYTES"
proof -
  obtain now r1 where now: "now_of io r = (now, r1)" by fastforce
  have i1: "rinv q cs r1" using inv_now [OF now] inv by simp
  obtain stale r2 where st: "detach_stale_tcp_backlog slot now r1 = (stale, r2)" by fastforce
  have i2: "rinv q cs r2" using inv_detach_stale [OF i1 slot, of now] st by simp
  have cap: "VOICE_TCP_MAX_WIRE_FRAME_BYTES \<le> VOICE_TCP_WRITE_CAP_BYTES"
    by (simp add: VOICE_TCP_MAX_WIRE_FRAME_BYTES_def VOICE_TCP_WRITE_CAP_BYTES_def LENGTH_PREFIX_LEN_def
        VOICE_TCP_MAX_FRAME_BYTES_def MAX_SEALED_MEDIA_BYTES_def UDP_HEADER_LEN_def SAFE_UDP_PAYLOAD_BYTES_def TAG_LEN_def)
  have r': "(ok, r') = (if stale then (False, r2)
      else (case tcp_conns r2 ! slot of None \<Rightarrow> (False, r2)
            | Some conn \<Rightarrow> if wq_len (vc_write_queue conn) \<le> VOICE_TCP_WRITE_CAP_BYTES - VOICE_TCP_MAX_WIRE_FRAME_BYTES
                then (True, r2) else (False, detach_tcp_conn slot r2)))"
    using a now st by (auto simp: admit_tcp_send_def split: bool.splits)
  then show "rinv q cs r'" using i2 inv_detach [OF i2 slot] by (auto split: if_splits option.splits)
  show "\<exists>conn. tcp_conns r' ! slot = Some conn
      \<and> wq_len (vc_write_queue conn) + VOICE_TCP_MAX_WIRE_FRAME_BYTES \<le> VOICE_TCP_WRITE_CAP_BYTES" if ok
    using r' that cap by (auto simp: le_diff_conv2 split: if_splits option.splits)
qed

lemma inv_seal_for_session:
  assumes env: "relay_env_ok io F" and inv: "rinv q cs r" and s: "seal_for_session F sid payload r = (ok, r')"
  shows "rinv q cs r'" and "tcp_conns r' = tcp_conns r"
    and "ok \<Longrightarrow> length (udp_send_packet r') \<le> MAX_SEALED_MEDIA_BYTES"
proof -
  have "rinv q cs r' \<and> tcp_conns r' = tcp_conns r \<and> (ok \<longrightarrow> length (udp_send_packet r') \<le> MAX_SEALED_MEDIA_BYTES)"
  proof (cases "sessions r sid")
    case None
    with s inv show ?thesis by (simp add: seal_for_session_def)
  next
    case (Some session)
    have "rinv q cs (r\<lparr>sessions := (sessions r)(sid \<mapsto> session\<lparr>vs_send_counter := vs_send_counter session + 1\<rparr>)\<rparr>)"
      by (rule inv_session [OF inv Some]) (simp add: session_view_of_def)
    with s Some env show ?thesis
      by (auto simp: seal_for_session_def Let_def relay_env_ok_def seal_media_ref_length split: sum.splits)
  qed
  then show "rinv q cs r'" "tcp_conns r' = tcp_conns r" "ok \<Longrightarrow> length (udp_send_packet r') \<le> MAX_SEALED_MEDIA_BYTES"
    by blast+
qed

lemma inv_send_tcp_sealed:
  assumes env: "relay_env_ok io F" and inv: "rinv q cs r" and slot: "slot < MAX_TCP_VOICE_CONNS"
    and conn: "tcp_conns r ! slot = Some conn"
    and room: "wq_len (vc_write_queue conn) + VOICE_TCP_MAX_WIRE_FRAME_BYTES \<le> VOICE_TCP_WRITE_CAP_BYTES"
    and fits: "length (udp_send_packet r) \<le> MAX_SEALED_MEDIA_BYTES"
  shows "rinv q cs (send_tcp_sealed io slot r)"
proof (cases "encode_frame (udp_send_packet r) []")
  case (Inl e)
  then show ?thesis using inv conn by (simp add: send_tcp_sealed_def)
next
  case (Inr framed)
  then have len: "length framed \<le> VOICE_TCP_MAX_WIRE_FRAME_BYTES"
    using fits by (auto simp: encode_frame_def VOICE_TCP_MAX_WIRE_FRAME_BYTES_def VOICE_TCP_MAX_FRAME_BYTES_def
        LENGTH_PREFIX_LEN_def split: if_splits)
  define g where "g = (\<lambda>c :: tcp_voice_conn. c\<lparr>vc_write_queue := wq_tail_append framed (vc_write_queue c)\<rparr>)"
  define r1 where "r1 = upd_conn slot g r"
  have wq: "wq_inv (vc_write_queue conn)" using inv_queue [OF inv slot conn] by (simp add: queue_ok_def)
  have "wq_inv (wq_tail_append framed (vc_write_queue conn))"
    "wq_len (wq_tail_append framed (vc_write_queue conn)) = wq_len (vc_write_queue conn) + length framed"
    using wq wq.invar_push [OF wq, of framed] by (auto simp: wq_len_def wq_tail_append_def wq_inv_def)
  then have "queue_ok (g conn)" using room len by (simp add: queue_ok_def g_def)
  then have i1: "rinv q cs r1"
    using conn unfolding r1_def by (intro inv_upd_conn [OF inv]) (auto simp: link_keeping_def g_def)
  obtain now r2 where now: "now_of io r1 = (now, r2)" by fastforce
  have i2: "rinv q cs r2" using inv_now [OF now] i1 by simp
  have i3: "rinv q cs (upd_conn slot (\<lambda>c. c\<lparr>vc_backlog_since := Some now\<rparr>) r2)"
    by (rule inv_upd_conn [OF i2]) (auto simp: link_keeping_def queue_ok_def dest: inv_queue [OF i2])
  have "send_tcp_sealed io slot r = flush_tcp io slot
      (if vc_backlog_since conn = None then upd_conn slot (\<lambda>c. c\<lparr>vc_backlog_since := Some now\<rparr>) r2 else r1)"
    using conn Inr now by (simp add: send_tcp_sealed_def Let_def r1_def g_def)
  then show ?thesis using inv_flush_tcp [OF env _ slot] i1 i3 by simp
qed

lemma inv_send_lane:
  assumes env: "relay_env_ok io F" and inv: "rinv q cs r" and slot: "slot < MAX_TCP_VOICE_CONNS"
  shows "rinv q cs (send_lane io F slot sid payload r)"
proof -
  obtain ok r1 where a: "admit_tcp_send io slot r = (ok, r1)" by fastforce
  obtain sealed r2 where s: "seal_for_session F sid payload r1 = (sealed, r2)" by fastforce
  note a' = inv_admit_tcp_send [OF inv slot a]
  note s' = inv_seal_for_session [OF env a'(1) s]
  show ?thesis
  proof (cases "ok \<and> sealed")
    case True
    with a'(2) s'(2) obtain conn where c: "tcp_conns r2 ! slot = Some conn"
      "wq_len (vc_write_queue conn) + VOICE_TCP_MAX_WIRE_FRAME_BYTES \<le> VOICE_TCP_WRITE_CAP_BYTES" by metis
    from inv_send_tcp_sealed [OF env s'(1) slot c] s'(3) True a s show ?thesis by (simp add: send_lane_def)
  next
    case False
    with a s a'(1) s'(1) show ?thesis by (auto simp: send_lane_def split: bool.splits)
  qed
qed

lemma inv_send_udp:
  assumes env: "relay_env_ok io F" and inv: "rinv q cs r"
  shows "rinv q cs (case seal_for_session F sid payload r of (False, r1) \<Rightarrow> r1 | (True, r1) \<Rightarrow> send_udp_sealed b addr r1)"
proof -
  obtain sealed r1 where s: "seal_for_session F sid payload r = (sealed, r1)" by fastforce
  with inv_seal_for_session(1) [OF env inv s] show ?thesis by (auto simp: send_udp_sealed_def split: bool.splits)
qed

lemma inv_send_payload:
  assumes env: "relay_env_ok io F" and inv: "rinv q cs r"
  shows "rinv q cs (send_payload io F sid payload r)"
proof (cases "sessions r sid")
  case None
  then show ?thesis using inv by (simp add: send_payload_def)
next
  case (Some session)
  then show ?thesis
    using inv inv_send_lane [OF env inv inv_session_lane [OF inv Some]] inv_send_udp [OF env inv]
    by (auto simp: send_payload_def split: option.splits)
qed

lemma inv_send_pong:
  assumes env: "relay_env_ok io F" and inv: "rinv q cs r" and "origin_ok origin"
  shows "rinv q cs (send_pong io F sid origin nonce r)"
  using assms(3) inv_send_payload [OF env inv] inv_send_lane [OF env inv] inv_send_udp [OF env inv]
  by (cases origin) (auto simp: send_pong_def)

section \<open>Relaying and the packet handler\<close>

lemma inv_fold:
  assumes "\<And>x r. rinv q cs r \<Longrightarrow> x \<in> set xs \<Longrightarrow> rinv q cs (f x r)" and "rinv q cs r"
  shows "rinv q cs (fold f xs r)"
  using assms by (induction xs arbitrary: r) auto

lemma inv_relay_voice:
  assumes env: "relay_env_ok io F" and inv: "rinv q cs r"
  shows "rinv q cs (relay_voice io F sender stream_id sequence timestamp flags voice r)"
  using inv by (auto simp: relay_voice_def split: option.splits intro!: inv_fold inv_send_payload [OF env])

lemma inv_relay_feedback:
  assumes env: "relay_env_ok io F" and inv: "rinv q cs r"
  shows "rinv q cs (relay_feedback io F reporter stream_id feedback r)"
  using inv by (auto simp: relay_feedback_def split: option.splits intro!: inv_send_payload [OF env])

lemma inv_dispatch:
  assumes env: "relay_env_ok io F" and inv: "rinv q cs r" and o: "origin_ok origin"
  shows "rinv q cs (snd (dispatch_payload io F origin sid changed payload r))"
proof (cases payload)
  case (PingRef nonce rtt)
  show ?thesis
  proof (cases "sessions r sid")
    case None
    then show ?thesis using PingRef inv_send_pong [OF env inv o] by (simp add: dispatch_payload_def Let_def)
  next
    case (Some session)
    obtain now r1 where now: "now_of io r = (now, r1)" by fastforce
    have i1: "rinv q cs r1" "sessions r1 sid = Some session"
      using inv_now [OF now] inv now Some by (auto simp: now_of_def split: prod.splits)
    have "rinv q cs (r1\<lparr>sessions := (sessions r1)(sid \<mapsto> session\<lparr>
        vs_reported_rtt_ms := (if changed then None else rtt), vs_rtt_reported_at := Some now\<rparr>)\<rparr>)"
      by (rule inv_session [OF i1]) (simp add: session_view_of_def)
    from inv_send_pong [OF env this o] Some now PingRef show ?thesis by (simp add: dispatch_payload_def Let_def)
  qed
next
  case BindRef
  then show ?thesis using inv by (cases origin) (auto simp: dispatch_payload_def)
next
  case (NatProbeRef probe_id)
  then show ?thesis using inv by (cases origin) (auto simp: dispatch_payload_def Let_def)
qed (use inv inv_relay_voice [OF env inv] inv_relay_feedback [OF env inv] in \<open>simp_all add: dispatch_payload_def\<close>)

lemma inv_bind:
  assumes inv: "rinv q cs r" and slot: "slot < MAX_TCP_VOICE_CONNS" and sid: "sessions r sid \<noteq> None"
  shows "rinv q cs (bind_tcp_conn slot sid r)"
proof -
  have v: "view_inv q (view (bind_tcp_conn slot sid r))"
    using inv by (intro view_inv_bind_tcp slot sid) (simp add: rinv_def)
  have "queues_ok (bind_tcp_conn slot sid r) \<and> commands (bind_tcp_conn slot sid r) = cs"
  proof (cases "tcp_conns r ! slot")
    case None
    then show ?thesis using inv by (simp add: bind_tcp_conn_def rinv_def)
  next
    case (Some conn)
    let ?c = "Some (conn\<lparr>vc_session := Some sid, vc_permit := False\<rparr>)"
    have qs: "queues_ok r'" if "tcp_conns r' = (tcp_conns r)[slot := ?c]" for r' :: "'a voice_relay"
      using inv inv_queue [OF inv slot Some] that by (intro queues_update [of r ?c r' slot]) (auto simp: rinv_def queue_ok_def)
    have cs: "commands r = cs" using inv by (simp add: rinv_def)
    show ?thesis
      using Some cs inv
      by (auto simp: bind_tcp_conn_def Let_def drop_permit_def detach_fields rinv_def split: option.splits
          intro: queues_detach [OF qs] qs)
  qed
  with v show ?thesis by (simp add: rinv_def)
qed

lemma note_address_view: "note_address origin proven s = (changed, s') \<Longrightarrow> session_view_of s' = session_view_of s"
  by (auto simp: note_address_def session_view_of_def Let_def split: packet_origin.splits if_splits)

text \<open>The part of the handler after the gate, for one session.\<close>

lemma inv_handle_media_packet:
  assumes env: "relay_env_ok io F" and inv: "rinv q cs r" and o: "origin_ok origin"
  shows "rinv q cs (snd (handle_media_packet io F origin r packet))"
proof (cases "parse_header packet")
  case (Inl e)
  then show ?thesis using inv by (simp add: handle_media_packet_def)
next
  case (Inr hb)
  obtain header body where hb: "hb = (header, body)" by fastforce
  show ?thesis
  proof (cases "\<not> p2p_enabled r \<and> uh_kind header = KIND_NAT_PROBE \<and> (case origin of Udp _ _ _ \<Rightarrow> True | Tcp _ \<Rightarrow> False)")
    case True
    then show ?thesis
      using inv Inr hb by (auto simp: handle_media_packet_def split: option.splits media_protection.splits)
  next
    case admitted: False
    show ?thesis
    proof (cases "route_to_session r (uh_route_id header)")
      case None
      then show ?thesis using inv Inr hb admitted by (simp add: handle_media_packet_def)
    next
      case sid: (Some sid)
      show ?thesis
      proof (cases "sessions r sid")
        case None
        then show ?thesis using inv Inr hb admitted sid by (simp add: handle_media_packet_def)
      next
        case s: (Some session)
        show ?thesis
        proof (cases "origin_gate origin (uh_kind header) sid session r")
          case (Inl e)
          then show ?thesis using inv Inr hb admitted sid s by (auto simp: handle_media_packet_def)
        next
          case gate: (Inr u)
          obtain res replay where op: "open_media_in_place F (vs_protection session) (vs_recv_replay session) packet = (res, replay)"
            by fastforce
          show ?thesis
          proof (cases res)
            case (Inl e)
            have "rinv q cs (r\<lparr>sessions := (sessions r)(sid \<mapsto> session\<lparr>vs_recv_replay := replay\<rparr>)\<rparr>)"
              by (rule inv_session [OF inv s]) (simp add: session_view_of_def)
            then show ?thesis using Inr hb admitted sid s gate op Inl by (auto simp: handle_media_packet_def)
          next
            case opened: (Inr opened)
            obtain changed s1 where na: "note_address origin (or_address_proof opened) (session\<lparr>vs_recv_replay := replay\<rparr>) = (changed, s1)"
              by fastforce
            obtain now r1 where now: "now_of io r = (now, r1)" by fastforce
            obtain ok budget where ad: "admit_kind (uh_kind header) now (length packet) (vs_budget s1) = (ok, budget)" by fastforce
            define s2 where "s2 = s1\<lparr>vs_budget := budget, vs_last_activity := now, vs_activity_dirty := True\<rparr>"
            define r2 where "r2 = r1\<lparr>sessions := (sessions r1)(sid \<mapsto> s2)\<rparr>"
            define r3 where "r3 = (case origin of Tcp slot \<Rightarrow> bind_tcp_conn slot sid r2 | Udp _ _ _ \<Rightarrow> r2)"
            have i1: "rinv q cs r1" "sessions r1 sid = Some session"
              using inv_now [OF now] inv now s by (auto simp: now_of_def split: prod.splits)
            have "session_view_of s2 = session_view_of session"
              using note_address_view [OF na] by (simp add: s2_def session_view_of_def)
            then have i2: "rinv q cs r2" unfolding r2_def by (rule inv_session [OF i1])
            have "sessions r2 sid \<noteq> None" by (simp add: r2_def)
            then have i3: "rinv q cs r3" using i2 inv_bind [OF i2] o by (cases origin) (auto simp: r3_def)
            have "snd (handle_media_packet io F origin r packet) =
                (if \<not> ok then r3 else snd (dispatch_payload io F origin sid changed (or_payload opened) r3))"
              using Inr hb admitted sid s gate op opened na now ad
              unfolding handle_media_packet_def r3_def r2_def s2_def by (auto simp: Let_def)
            then show ?thesis using i3 inv_dispatch [OF env i3 o] by simp
          qed
        qed
      qed
    qed
  qed
qed

section \<open>The event loop\<close>

text \<open>A packet handler with an invariant keeps it over every frame of a lane.\<close>

locale invariant_handler =
  fixes handle :: "('e, 's) packet_handler" and I :: "'s \<Rightarrow> bool"
  assumes handle_keeps: "I st \<Longrightarrow> I (snd (handle st packet))"
begin

lemma frames_keep: "I st \<Longrightarrow> I (snd (receive_tcp_frames handle st rb))"
proof (induction "rb_len rb" arbitrary: st rb rule: less_induct)
  case less
  show ?case
  proof (cases "parse_frame_with_limit VOICE_TCP_MAX_FRAME_BYTES (rb_pending rb)")
    case (Inl e)
    then show ?thesis using less.prems by (subst receive_tcp_frames.simps) simp
  next
    case (Inr res)
    show ?thesis
    proof (cases res)
      case None
      then show ?thesis using less.prems Inr by (subst receive_tcp_frames.simps) simp
    next
      case (Some pn)
      obtain p n where pn: "pn = (p, n)" by fastforce
      obtain out st' where h: "handle st (subslice LENGTH_PREFIX_LEN n (rb_pending rb)) = (out, st')" by fastforce
      have st': "I st'" using handle_keeps [OF less.prems, of "subslice LENGTH_PREFIX_LEN n (rb_pending rb)"] h by simp
      have "rb_len (rb_consume n rb) < rb_len rb"
        using voice_frame_total [OF Inr [unfolded Some pn]] by (intro rb_len_consume) auto
      from less.hyps [OF this st'] show ?thesis
        using Inr Some pn h st' by (subst receive_tcp_frames.simps) (auto split: sum.splits)
    qed
  qed
qed

end

interpretation relay_lane: invariant_handler "handle_media_packet io F (Tcp slot)"
  "\<lambda>r. relay_env_ok io F \<longrightarrow> slot < MAX_TCP_VOICE_CONNS \<longrightarrow> rinv q cs r" for io F slot q cs
  by unfold_locales (simp add: inv_handle_media_packet)

lemma inv_receive_loop:
  assumes env: "relay_env_ok io F"
  shows "rinv q cs r \<Longrightarrow> receive_loop n io F bit_no r = Some r' \<Longrightarrow> rinv q cs r'"
proof (induction n arbitrary: r)
  case 0
  then show ?case by auto
next
  case (Suc n)
  obtain res e where res: "recv_datagram_with (io_recv_from io bit_no) (relay_env r) = Some (res, e)"
    using Suc.prems(2) by (auto simp: Let_def split: option.splits)
  show ?case
  proof (cases res)
    case (Inl err)
    then show ?thesis using Suc.prems res Suc.IH [of "r\<lparr>relay_env := e\<rparr>"] by (auto simp: Let_def split: if_splits)
  next
    case (Inr d)
    show ?thesis
    proof (cases d)
      case None
      then show ?thesis using Suc.prems res Inr by (auto simp: Let_def)
    next
      case (Some pa)
      obtain packet src where pa: "pa = (packet, src)" by fastforce
      have "rinv q cs (snd (handle_packet io F (if bit_no = PROBE_BIT then 1 else 0) (if bit_no = PROBE_BIT then 0 else bit_no)
          src (r\<lparr>relay_env := e\<rparr>) packet))"
        unfolding handle_packet_def by (rule inv_handle_media_packet [OF env]) (use Suc.prems(1) in simp_all)
      from Suc.IH [OF this] Suc.prems(2) show ?thesis by (simp add: Let_def res Inr Some pa)
    qed
  qed
qed

lemma inv_receive:
  "relay_env_ok io F \<Longrightarrow> rinv q cs r \<Longrightarrow> receive io F bit_no r = Some r' \<Longrightarrow> rinv q cs r'"
  by (auto simp: receive_def inv_receive_loop split: if_splits)

lemma inv_upd_read:
  assumes "rinv q cs r"
  shows "rinv q cs (upd_conn slot (\<lambda>c. c\<lparr>vc_read_buf := rb, vc_readiness := b\<rparr>) r)"
    and "rinv q cs (upd_conn slot (\<lambda>c. c\<lparr>vc_read_buf := rb\<rparr>) r)"
    and "rinv q cs (upd_conn slot (\<lambda>c. c\<lparr>vc_readiness := b\<rparr>) r)"
    and "rinv q cs (upd_conn slot (\<lambda>c. c\<lparr>vc_write_blocked := b\<rparr>) r)"
  by (rule inv_upd_conn [OF assms]; use inv_queue [OF assms] in \<open>auto simp: link_keeping_def queue_ok_def\<close>)+

lemma inv_receive_tcp:
  assumes env: "relay_env_ok io F" and inv: "rinv q cs r" and slot: "slot < MAX_TCP_VOICE_CONNS"
    and res: "receive_tcp io F slot r = Some r'"
  shows "rinv q cs r'"
proof (cases "tcp_conns r ! slot")
  case None
  then show ?thesis using inv res by (simp add: receive_tcp_def)
next
  case (Some conn)
  then obtain out rb ready e where rd: "read_into_buffer (io_recv io (vc_socket conn)) (relay_env r) (vc_read_buf conn)
      (vc_readiness conn) MAX_UDP_DATAGRAM_BYTES (ByteBudget VOICE_TCP_READ_BUDGET_BYTES) = Some (out, rb, ready, e)"
    using res by (auto simp: receive_tcp_def split: option.splits)
  let ?r = "r\<lparr>relay_env := e\<rparr>"
  have i0: "rinv q cs ?r" using inv by simp
  show ?thesis
  proof (cases out)
    case (Inl err)
    then show ?thesis
      using res Some rd inv_detach [OF inv_upd_read(1) [OF i0] slot] by (auto simp: receive_tcp_def)
  next
    case (Inr outcome)
    define r1 where "r1 = upd_conn slot (\<lambda>c. c\<lparr>vc_read_buf := rb_new, vc_readiness := ready\<rparr>) ?r"
    define r2 where "r2 = (if hit_limit outcome then r1\<lparr>tcp_read_work := set_slot_bit (tcp_read_work r1) slot\<rparr> else r1)"
    have i2: "rinv q cs r2" using inv_upd_read(1) [OF i0, where slot = slot and rb = rb_new and b = ready] by (simp add: r2_def r1_def)
    obtain fr r3 where fr: "receive_tcp_frames (handle_media_packet io F (Tcp slot)) r2 rb = (fr, r3)" by fastforce
    have i3: "rinv q cs r3" using relay_lane.frames_keep [of io F slot q cs r2 rb] env slot i2 fr by simp
    have "r' = (case fr of Inl err \<Rightarrow> detach_tcp_conn slot r3
        | Inr rb' \<Rightarrow> if tcp_conns r3 ! slot = None then r3
            else let r4 = upd_conn slot (\<lambda>c. c\<lparr>vc_read_buf := rb'\<rparr>) r3
                 in if disconnected outcome then detach_tcp_conn slot r4 else r4)"
      using res Some rd Inr fr unfolding receive_tcp_def r2_def r1_def by (auto simp: Let_def split: sum.splits if_splits)
    then show ?thesis
      using i3 inv_detach [OF i3 slot] inv_upd_read(2) [OF i3] inv_detach [OF inv_upd_read(2) [OF i3] slot]
      by (auto simp: Let_def split: sum.splits)
  qed
qed

subsection \<open>Commands\<close>

lemma set_route_fields:
  "tcp_conns (set_route sid route r) = tcp_conns r" "commands (set_route sid route r) = commands r"
  by (auto simp: set_route_def leave_room_def enter_room_def Let_def split: option.splits)

lemma queues_remove:
  "queues_ok r \<Longrightarrow> queues_ok (remove_session sid r)" "commands (remove_session sid r) = commands r"
proof -
  have q: "queues_ok r'" if "queues_ok r" and "tcp_conns r' = tcp_conns r" for r' :: "'a voice_relay"
    using that by (simp add: queues_ok_def)
  show "queues_ok r \<Longrightarrow> queues_ok (remove_session sid r)"
    by (auto simp: remove_session_def Let_def set_route_fields split: option.splits intro: queues_detach [OF q] q)
  show "commands (remove_session sid r) = commands r"
    by (auto simp: remove_session_def Let_def set_route_fields detach_fields split: option.splits)
qed

lemma queues_register:
  assumes "queues_ok r"
  shows "queues_ok (register_session io sid user protection r)"
    and "commands (register_session io sid user protection r) = commands r"
proof -
  define r1 where "r1 = (if sessions r sid \<noteq> None then remove_session sid r else r)"
  have r1: "queues_ok r1" "commands r1 = commands r" using assms by (simp_all add: r1_def queues_remove)
  obtain t r2 where now: "now_of io r1 = (t, r2)" by fastforce
  then have r2: "tcp_conns r2 = tcp_conns r1" "commands r2 = commands r1"
    by (auto simp: now_of_def split: prod.splits)
  show "queues_ok (register_session io sid user protection r)"
    using assms r1 r2 unfolding register_session_def Let_def r1_def [symmetric] now
    by (auto simp: queues_ok_def split: option.splits)
  show "commands (register_session io sid user protection r) = commands r"
    using r1 r2 unfolding register_session_def Let_def r1_def [symmetric] now
    by (auto split: option.splits)
qed

lemma queues_attach:
  assumes "queues_ok r"
  shows "queues_ok (attach_tcp_conn io socket addr read_buf r)"
    and "commands (attach_tcp_conn io socket addr read_buf r) = commands r"
proof -
  have new: "wq_inv wq_new \<and> wq_len wq_new = 0" by (simp add: wq_inv_def wq_new_def wq_len_def)
  have keep: "queues_ok r'" if "tcp_conns r' = tcp_conns r" for r' :: "'a voice_relay"
    using assms that by (simp add: queues_ok_def)
  have put: "queues_ok r'" if "tcp_conns r' = (tcp_conns r)[slot := Some conn]" and "vc_write_queue conn = wq_new"
    for r' :: "'a voice_relay" and slot conn
    using assms that(2) new by (intro queues_update [OF _ _ that(1)]) (auto simp: queue_ok_def)
  show "queues_ok (attach_tcp_conn io socket addr read_buf r)"
    by (auto simp: attach_tcp_conn_def now_of_def drop_permit_def split: option.splits prod.splits bool.splits
        intro: keep put)
  show "commands (attach_tcp_conn io socket addr read_buf r) = commands r"
    by (auto simp: attach_tcp_conn_def now_of_def drop_permit_def split: option.splits prod.splits bool.splits)
qed

lemma inv_run_command:
  assumes "rinv (if is_attach c then Suc q else q) cs r"
  shows "rinv q cs (run_command io c r)"
proof (cases c)
  case (RegisterSession sid user protection)
  with assms show ?thesis by (simp add: run_command_def rinv_def view_inv_register queues_register)
next
  case (SetRoute sid route)
  with assms show ?thesis
    by (simp add: run_command_def rinv_def view_set_route view_inv_set_route set_route_fields queues_ok_def)
next
  case (RemoveSession sid)
  with assms show ?thesis
    by (simp add: run_command_def rinv_def queues_remove view_remove [of q] view_inv_remove)
next
  case (AttachTcp socket addr read_buf)
  with assms show ?thesis by (simp add: run_command_def rinv_def view_inv_attach_tcp queues_attach)
next
  case Shutdown
  with assms show ?thesis by (simp add: run_command_def)
qed

lemma inv_run_commands:
  "rinv (length (filter is_attach cmds)) cs r \<Longrightarrow> rinv 0 cs (fold (run_command io) cmds r)"
proof (induction cmds arbitrary: r)
  case (Cons c cmds)
  have "rinv (length (filter is_attach cmds)) cs (run_command io c r)"
    by (rule inv_run_command) (use Cons.prems in \<open>auto split: if_splits\<close>)
  from Cons.IH [OF this] show ?case by simp
qed simp

lemma relay_inv_control_step: "relay_inv r \<Longrightarrow> relay_inv (control_step act r)"
proof (cases act)
  case (Submit cmd)
  assume "relay_inv r"
  with Submit show ?thesis by (cases cmd) (simp_all add: control_step_def relay_inv_def rinv_def queues_ok_def)
next
  case (Handoff socket addr read_buf)
  assume i: "relay_inv r"
  show ?thesis
  proof (cases "handoff_held r \<ge> MAX_PENDING_TCP_VOICE")
    case True
    with i Handoff show ?thesis by (simp add: control_step_def reserve_handoff_def)
  next
    case False
    define v where "v = view r"
    let ?v = "v\<lparr>v_held := Suc (v_held v)\<rparr>"
    have "view_inv (length (filter is_attach (commands r))) v" using i by (simp add: relay_inv_def rinv_def v_def)
    moreover have "v_held v < MAX_PENDING_TCP_VOICE" using False by (simp add: v_def view_select)
    moreover have "in_room ?v = in_room v" by (simp add: in_room_def fun_eq_iff)
    ultimately have "view_inv (Suc (length (filter is_attach (commands r)))) ?v"
      by (simp add: view_inv_def sessions_ok_def rooms_ok_def owners_ok_def lanes_ok_def permits_ok_def)
    with i Handoff False show ?thesis
      by (simp add: control_step_def reserve_handoff_def relay_inv_def rinv_def queues_ok_def view_update v_def view_select)
  qed
next
  case TakeEvents
  assume "relay_inv r"
  with TakeEvents show ?thesis by (simp add: control_step_def relay_inv_def)
qed

lemma relay_inv_fold: "(\<And>x r. relay_inv r \<Longrightarrow> relay_inv (f x r)) \<Longrightarrow> relay_inv r \<Longrightarrow> relay_inv (fold f xs r)"
  by (induction xs arbitrary: r) auto

lemma relay_inv_drain: "relay_inv r \<Longrightarrow> relay_inv (drain_commands io r)"
proof -
  assume i: "relay_inv r"
  obtain acts e where acts: "io_control io (relay_env r) = (acts, e)" by fastforce
  have "relay_inv (r\<lparr>relay_env := e\<rparr>)" using i by (simp add: relay_inv_def)
  then have c: "relay_inv (control_loop io r)"
    by (simp add: control_loop_def acts relay_inv_fold relay_inv_control_step)
  define r1 where "r1 = control_loop io r"
  have "rinv (length (filter is_attach (commands r1))) [] (r1\<lparr>commands := []\<rparr>)"
    using c by (simp add: r1_def relay_inv_def rinv_def queues_ok_def)
  from inv_run_commands [OF this, of io] show ?thesis
    by (simp add: drain_commands_def Let_def r1_def [symmetric] relay_inv_def rinv_def)
qed

lemma relay_inv_keeps:
  assumes "relay_inv r" and "\<And>q cs. rinv q cs r \<Longrightarrow> rinv q cs r'"
  shows "relay_inv r'"
  using assms by (auto simp: relay_inv_def) (metis rinv_def)

subsection \<open>The tick and the passes\<close>

lemma inv_sweep:
  assumes "rinv q cs r"
  shows "rinv q cs (sweep_unbound_tcp_conns now r)"
proof -
  have "rinv q cs (sweep_slot now slot r')" if "rinv q cs r'" "slot < MAX_TCP_VOICE_CONNS" for slot and r' :: "'a voice_relay"
    using that by (auto simp: sweep_slot_def inv_detach split: option.splits)
  then show ?thesis
    using assms by (auto simp: sweep_unbound_tcp_conns_def inv_lanes [OF assms] intro!: inv_fold)
qed

lemma inv_flush_activity:
  assumes "rinv q cs r"
  shows "rinv q cs (flush_activity now r)"
proof (cases "now < next_activity_flush r")
  case True
  then show ?thesis using assms by (simp add: flush_activity_def)
next
  case False
  define r1 where "r1 = sweep_unbound_tcp_conns now (r\<lparr>next_activity_flush := now + ACTIVITY_FLUSH_INTERVAL\<rparr>)"
  have i: "rinv q cs r1" unfolding r1_def by (rule inv_sweep) (use assms in simp)
  have "view (r1\<lparr>sessions := (\<lambda>sid. map_option settle_session (sessions r1 sid))\<rparr>) = view r1"
    by (auto simp: view_def fun_eq_iff option.map_comp comp_def settle_session_def session_view_of_def
        intro!: option.map_cong)
  then have "rinv q cs (r1\<lparr>sessions := (\<lambda>sid. map_option settle_session (sessions r1 sid))\<rparr>)"
    using i by (simp add: rinv_def queues_ok_def)
  then show ?thesis using False unfolding flush_activity_def by (simp add: Let_def r1_def)
qed

lemma inv_poll_event: "rinv q cs r \<Longrightarrow> rinv q cs (poll_event ev r)"
  by (cases ev) (auto simp: poll_event_def Let_def inv_upd_read split: option.splits)

lemma word_bits_less: "b \<in> set (word_bits w) \<Longrightarrow> b < 64"
  by (simp add: word_bits_filter)

lemma relay_inv_drain_each:
  assumes "\<And>n r r'. n \<in> set ns \<Longrightarrow> relay_inv r \<Longrightarrow> handle n r = Some r' \<Longrightarrow> relay_inv r'"
    and "relay_inv r" and "drain_each io handle ns r = Some r'"
  shows "relay_inv r'"
  using assms
proof (induction ns arbitrary: r)
  case (Cons n ns)
  from Cons.prems(3) obtain r1 where r1: "handle n r = Some r1"
    and rest: "(if shutting_down (drain_commands io r1) then Some (drain_commands io r1)
      else drain_each io handle ns (drain_commands io r1)) = Some r'"
    by (auto simp: Let_def split: option.splits)
  have i: "relay_inv (drain_commands io r1)"
    using relay_inv_drain Cons.prems(1) [of n r r1] Cons.prems(2) r1 by auto
  show ?case
  proof (cases "shutting_down (drain_commands io r1)")
    case True
    with rest i show ?thesis by simp
  next
    case False
    with rest have "drain_each io handle ns (drain_commands io r1) = Some r'" by simp
    from Cons.IH [OF _ i this] Cons.prems(1) show ?thesis by (metis list.set_intros(2))
  qed
qed simp

lemma relay_inv_read_words:
  assumes env: "relay_env_ok io F"
  shows "relay_inv r \<Longrightarrow> \<forall>w \<in> set ws. w < SESSION_WORDS \<Longrightarrow> read_words io F ws r = Some r' \<Longrightarrow> relay_inv r'"
proof (induction ws arbitrary: r)
  case (Cons w ws)
  show ?case
  proof (cases "shutting_down r")
    case True
    with Cons.prems show ?thesis by simp
  next
    case False
    let ?r = "r\<lparr>tcp_read_work := (tcp_read_work r)[w := 0]\<rparr>"
    obtain r2 where d: "drain_each io (receive_tcp io F) (map (\<lambda>b. w * 64 + b) (word_bits (tcp_read_work r ! w))) ?r = Some r2"
      and rest: "read_words io F ws r2 = Some r'"
      using Cons.prems(3) False by (auto simp: Let_def split: option.splits)
    have i: "relay_inv ?r" using Cons.prems(1) by (simp add: relay_inv_def)
    have "slot < MAX_TCP_VOICE_CONNS" if "slot \<in> set (map (\<lambda>b. w * 64 + b) (word_bits (tcp_read_work r ! w)))" for slot
      using that Cons.prems(2) by (auto simp: MAX_TCP_VOICE_CONNS_def session_bits dest!: word_bits_less)
    then have "relay_inv r2"
      using relay_inv_drain_each [OF _ i d] by (blast intro: relay_inv_keeps inv_receive_tcp [OF env])
    with Cons.IH rest Cons.prems(2) show ?thesis by simp
  qed
qed simp

lemma relay_inv_write_words:
  assumes env: "relay_env_ok io F"
  shows "relay_inv r \<Longrightarrow> \<forall>w \<in> set ws. w < SESSION_WORDS \<Longrightarrow> relay_inv (write_words io ws r)"
proof (induction ws arbitrary: r)
  case (Cons w ws)
  let ?slots = "map (\<lambda>b. w * 64 + b) (word_bits (tcp_write_work r ! w))"
  have "slot < MAX_TCP_VOICE_CONNS" if "slot \<in> set ?slots" for slot
    using that Cons.prems(2) by (auto simp: MAX_TCP_VOICE_CONNS_def session_bits dest!: word_bits_less)
  then have "relay_inv (fold (flush_tcp io) ?slots (r\<lparr>tcp_write_work := (tcp_write_work r)[w := 0]\<rparr>))"
    using Cons.prems(1) by (auto elim!: relay_inv_keeps intro!: inv_fold inv_flush_tcp [OF env])
  with Cons show ?case by (simp add: Let_def)
qed simp

lemma relay_inv_run_pass:
  assumes env: "relay_env_ok io F" and i: "relay_inv r" and run: "run_pass io F r = Some (res, r')"
  shows "relay_inv r'"
proof -
  define r1 where "r1 = drain_commands io r"
  have i1: "relay_inv r1" using relay_inv_drain [OF i] by (simp add: r1_def)
  show ?thesis
  proof (cases "shutting_down r1")
    case True
    with run i1 show ?thesis by (simp add: run_pass_def r1_def [symmetric] Let_def)
  next
    case False
    obtain r2 where r2: "drain_each io (receive io F) (word_bits (udp_work r1)) (r1\<lparr>udp_work := 0\<rparr>) = Some r2"
      using run False by (auto simp: run_pass_def r1_def [symmetric] Let_def split: option.splits)
    obtain r3 where r3: "read_words io F [0..<SESSION_WORDS] r2 = Some r3"
      using run False r2 by (auto simp: run_pass_def r1_def [symmetric] Let_def split: option.splits)
    define r4 where "r4 = write_words io [0..<SESSION_WORDS] r3"
    obtain now r5 where now: "now_of io r4 = (now, r5)" by fastforce
    define r6 where "r6 = flush_activity now r5"
    obtain pending evs where sub: "submit_all (events r6) (event_buf r6) = (pending, evs)" by fastforce
    define r7 where "r7 = r6\<lparr>events := pending, event_buf := evs\<rparr>"
    obtain timeout r8 where to: "poll_timeout io r7 = (timeout, r8)" by fastforce
    obtain pr e where pr: "io_poll io timeout (relay_env r8) = (pr, e)" by fastforce
    have "relay_inv (r1\<lparr>udp_work := 0\<rparr>)" using i1 by (simp add: relay_inv_def)
    from relay_inv_drain_each [OF _ this r2] have i2: "relay_inv r2"
      using env by (blast intro: relay_inv_keeps inv_receive)
    have i3: "relay_inv r3" by (rule relay_inv_read_words [OF env i2 _ r3]) simp
    have i4: "relay_inv r4" unfolding r4_def by (rule relay_inv_write_words [OF env i3]) simp
    have i5: "relay_inv r5" using i4 by (rule relay_inv_keeps) (simp add: inv_now [OF now])
    have i6: "relay_inv r6" using i5 unfolding r6_def by (rule relay_inv_keeps) (rule inv_flush_activity)
    have i7: "relay_inv r7" using i6 by (simp add: r7_def relay_inv_def)
    have i8: "relay_inv r8"
      using i7 by (rule relay_inv_keeps) (use to in \<open>auto simp: poll_timeout_def inv_now split: if_splits prod.splits\<close>)
    have i9: "relay_inv (r8\<lparr>relay_env := e\<rparr>)" using i8 by (simp add: relay_inv_def)
    have "relay_inv (fold poll_event ev (r8\<lparr>relay_env := e\<rparr>))" for ev
      using i9 by (rule relay_inv_keeps) (auto intro: inv_fold inv_poll_event)
    moreover have "r' = r7 \<or> r' = r8\<lparr>relay_env := e\<rparr> \<or> (\<exists>ev. r' = fold poll_event ev (r8\<lparr>relay_env := e\<rparr>))"
      using run False r2 r3 now sub to pr
      by (auto simp: run_pass_def r1_def [symmetric] r4_def [symmetric] r6_def [symmetric] r7_def [symmetric] Let_def
          split: if_splits sum.splits)
    ultimately show ?thesis using i7 i9 by blast
  qed
qed

end
