(* ===== verification/Relay_Properties.thy ===== *)
theory Relay_Properties
  imports Relay_Run
begin

text \<open>
  What the relay guarantees to its sessions: who receives a voice packet and what they receive, that
  only authenticated datagrams move a session's address or bind a lane, that rejected packets leave no
  trace, and the bounds on lanes, backlog and unauthenticated connections.
\<close>

section \<open>Sending touches little\<close>

text \<open>What sending leaves alone of a session: everything but its lane and its send counter.\<close>

definition core_of :: "voice_session \<Rightarrow> voice_session" where
  "core_of s = s\<lparr>vs_tcp_conn := None, vs_send_counter := 0\<rparr>"

text \<open>
  From \<open>r\<close> to \<open>r'\<close> no session changes but in its lane and counter, a lane is only closed or stays bound
  as it was, and the tables of routes, rooms and slots are the same.
\<close>

definition quiet :: "'env voice_relay \<Rightarrow> 'env voice_relay \<Rightarrow> bool" where
  "quiet r r' \<longleftrightarrow> (\<forall>u. map_option core_of (sessions r' u) = map_option core_of (sessions r u))
     \<and> (\<forall>slot. tcp_conns r' ! slot = None \<or> map_option vc_session (tcp_conns r' ! slot) = map_option vc_session (tcp_conns r ! slot))
     \<and> rooms r' = rooms r \<and> session_slots r' = session_slots r \<and> event_buf r' = event_buf r"

lemma quietI:
  assumes "\<And>u. map_option core_of (sessions r' u) = map_option core_of (sessions r u)"
    and "\<And>slot. tcp_conns r' ! slot = None
      \<or> map_option vc_session (tcp_conns r' ! slot) = map_option vc_session (tcp_conns r ! slot)"
    and "rooms r' = rooms r" and "session_slots r' = session_slots r" and "event_buf r' = event_buf r"
  shows "quiet r r'"
  using assms by (simp add: quiet_def)

lemma quiet_refl [simp, intro]: "quiet r r"
  by (simp add: quiet_def)

lemma quiet_trans [trans]: "quiet r r1 \<Longrightarrow> quiet r1 r2 \<Longrightarrow> quiet r r2"
  unfolding quiet_def by (metis (no_types, lifting) option.simps(8) option.map_disc_iff)

lemma quiet_inert [simp]:
  "quiet r (r'\<lparr>relay_env := e\<rparr>) = quiet r r'"
  "quiet r (r'\<lparr>tcp_read_work := w1\<rparr>) = quiet r r'"
  "quiet r (r'\<lparr>tcp_write_work := w2\<rparr>) = quiet r r'"
  "quiet r (r'\<lparr>udp_send_packet := p\<rparr>) = quiet r r'"
  "quiet r (r'\<lparr>udp_sent := us\<rparr>) = quiet r r'"
  "quiet (r\<lparr>relay_env := e\<rparr>) r' = quiet r r'"
  by (simp_all add: quiet_def)

lemma quiet_now: "now_of io r = (t, r') \<Longrightarrow> quiet r r'"
  by (auto simp: now_of_def split: prod.splits)

lemma nth_update_None: "xs[i := None] ! j = None \<or> xs[i := None] ! j = xs ! j"
  by (cases "i = j"; cases "i < length xs") (auto simp: list_update_beyond)

lemma quiet_detach: "quiet r (detach_tcp_conn slot r)"
proof (rule quietI)
  show "map_option core_of (sessions (detach_tcp_conn slot r) u) = map_option core_of (sessions r u)" for u
    by (auto simp: detach_tcp_conn_def Let_def drop_permit_def core_of_def split: option.splits)
  show "tcp_conns (detach_tcp_conn slot r) ! n = None
      \<or> map_option vc_session (tcp_conns (detach_tcp_conn slot r) ! n) = map_option vc_session (tcp_conns r ! n)" for n
    using nth_update_None [of "tcp_conns r" slot n] by (auto simp: detach_fields)
qed (auto simp: detach_tcp_conn_def Let_def drop_permit_def split: option.splits)

lemma quiet_upd_conn:
  assumes "link_keeping g"
  shows "quiet r (upd_conn slot g r)"
proof (cases "tcp_conns r ! slot")
  case None
  then show ?thesis by (simp add: upd_conn_def)
next
  case (Some conn)
  have "map_option vc_session ((tcp_conns r)[slot := Some (g conn)] ! n) = map_option vc_session (tcp_conns r ! n)" for n
    using Some assms by (cases "n = slot"; cases "slot < length (tcp_conns r)") (auto simp: link_keeping_def list_update_beyond)
  then show ?thesis using Some by (simp add: upd_conn_def quiet_def)
qed

lemma quiet_detach_stale: "detach_stale_tcp_backlog slot now r = (b, r') \<Longrightarrow> quiet r r'"
  by (auto simp: detach_stale_tcp_backlog_def Let_def quiet_detach)

lemma quiet_flush_tcp: "quiet r (flush_tcp io slot r)"
proof (cases "tcp_conns r ! slot")
  case None
  then show ?thesis by (simp add: flush_tcp_def)
next
  case (Some conn)
  show ?thesis
  proof (cases "vc_write_blocked conn \<or> wq_is_empty (vc_write_queue conn)")
    case True
    then show ?thesis using Some by (simp add: flush_tcp_def)
  next
    case False
    obtain res wq e where w: "write_queue_to (io_send io (vc_socket conn)) (relay_env r) (vc_write_queue conn)
        VOICE_TCP_WRITE_ATTEMPTS = (res, wq, e)" by (metis prod.exhaust)
    have step: "quiet (r\<lparr>relay_env := e\<rparr>) r' \<Longrightarrow> quiet r r'" for r' by simp
    show ?thesis
    proof (cases res)
      case (Inl err)
      have "quiet (r\<lparr>relay_env := e\<rparr>) (upd_conn slot (\<lambda>c. c\<lparr>vc_write_queue := wq\<rparr>) (r\<lparr>relay_env := e\<rparr>))"
        by (rule quiet_upd_conn) (simp add: link_keeping_def)
      from quiet_trans [OF this quiet_detach] show ?thesis
        using Some False w Inl by (simp add: flush_tcp_def)
    next
      case (Inr out)
      obtain now r1 where now: "now_of io (r\<lparr>relay_env := e\<rparr>) = (now, r1)" by fastforce
      define g where "g = (\<lambda>c :: tcp_voice_conn. c\<lparr>vc_write_queue := wq,
          vc_backlog_since := (if wq_is_empty wq then None else vc_backlog_since c),
          vc_write_blocked := (vc_write_blocked c \<or> blocked out)\<rparr>)"
      define r3 where "r3 = (let r2 = upd_conn slot g r1 in if \<not> blocked out \<and> wp_hit_limit out
          then r2\<lparr>tcp_write_work := set_slot_bit (tcp_write_work r2) slot\<rparr> else r2)"
      have "quiet r r1" using quiet_now [OF now] by simp
      also have "quiet r1 (upd_conn slot g r1)" by (rule quiet_upd_conn) (simp add: link_keeping_def g_def)
      finally have r3: "quiet r r3" by (simp add: r3_def Let_def)
      obtain b r4 where d: "detach_stale_tcp_backlog slot now r3 = (b, r4)" by fastforce
      have "flush_tcp io slot r = (if wrote_zero out then detach_tcp_conn slot r3 else r4)"
        using Some False w Inr now d unfolding flush_tcp_def r3_def g_def by (simp add: Let_def)
      then show ?thesis
        using quiet_trans [OF r3 quiet_detach] quiet_trans [OF r3 quiet_detach_stale [OF d]] by simp
    qed
  qed
qed

lemma quiet_admit_tcp_send:
  assumes "admit_tcp_send io slot r = (ok, r')"
  shows "quiet r r'"
proof -
  obtain now r1 where now: "now_of io r = (now, r1)" by fastforce
  obtain b r2 where d: "detach_stale_tcp_backlog slot now r1 = (b, r2)" by fastforce
  have q: "quiet r r2" using quiet_trans [OF quiet_now [OF now] quiet_detach_stale [OF d]] .
  have "r' = r2 \<or> r' = detach_tcp_conn slot r2"
    using assms now d by (auto simp: admit_tcp_send_def split: bool.splits option.splits if_splits)
  with q quiet_trans [OF q quiet_detach] show ?thesis by blast
qed

lemma quiet_seal_for_session: "seal_for_session F sid payload r = (ok, r') \<Longrightarrow> quiet r r'"
  by (auto simp: seal_for_session_def quiet_def core_of_def Let_def split: option.splits sum.splits)

lemma quiet_send_tcp_sealed: "quiet r (send_tcp_sealed io slot r)"
proof (cases "tcp_conns r ! slot")
  case None
  then show ?thesis by (simp add: send_tcp_sealed_def)
next
  case (Some conn)
  show ?thesis
  proof (cases "encode_frame (udp_send_packet r) []")
    case (Inl e)
    then show ?thesis using Some by (simp add: send_tcp_sealed_def)
  next
    case (Inr framed)
    define r1 where "r1 = upd_conn slot (\<lambda>c. c\<lparr>vc_write_queue := wq_tail_append framed (vc_write_queue c)\<rparr>) r"
    have q1: "quiet r r1" unfolding r1_def by (rule quiet_upd_conn) (simp add: link_keeping_def)
    obtain now r2 where now: "now_of io r1 = (now, r2)" by fastforce
    define r3 where "r3 = (if vc_backlog_since conn = None then upd_conn slot (\<lambda>c. c\<lparr>vc_backlog_since := Some now\<rparr>) r2 else r1)"
    have "quiet r1 (upd_conn slot (\<lambda>c. c\<lparr>vc_backlog_since := Some now\<rparr>) r2)"
      by (rule quiet_trans [OF quiet_now [OF now] quiet_upd_conn]) (simp add: link_keeping_def)
    then have "quiet r r3" using quiet_trans [OF q1] q1 by (simp add: r3_def)
    then show ?thesis
      using quiet_trans quiet_flush_tcp Some Inr now unfolding r3_def r1_def by (fastforce simp: send_tcp_sealed_def Let_def)
  qed
qed

lemma quiet_send_lane: "quiet r (send_lane io F slot sid payload r)"
proof -
  obtain ok r1 where a: "admit_tcp_send io slot r = (ok, r1)" by fastforce
  obtain sealed r2 where s: "seal_for_session F sid payload r1 = (sealed, r2)" by fastforce
  note q1 = quiet_admit_tcp_send [OF a]
  note q2 = quiet_trans [OF q1 quiet_seal_for_session [OF s]]
  note q3 = quiet_trans [OF q2 quiet_send_tcp_sealed [of r2 io slot]]
  from q1 q2 q3 a s show ?thesis by (cases ok; cases sealed) (simp_all add: send_lane_def)
qed

lemma quiet_send_udp:
  "quiet r (case seal_for_session F sid payload r of (False, r1) \<Rightarrow> r1 | (True, r1) \<Rightarrow> send_udp_sealed b addr r1)"
proof -
  obtain sealed r1 where s: "seal_for_session F sid payload r = (sealed, r1)" by fastforce
  with quiet_seal_for_session [OF s] show ?thesis by (cases sealed) (simp_all add: send_udp_sealed_def)
qed

lemma quiet_send_payload: "quiet r (send_payload io F sid payload r)"
  by (auto simp: send_payload_def quiet_send_lane quiet_send_udp split: option.splits)

lemma quiet_send_pong: "quiet r (send_pong io F sid origin nonce r)"
  by (auto simp: send_pong_def quiet_send_lane quiet_send_udp quiet_send_payload split: packet_origin.splits)

lemma quiet_fold: "(\<And>x r. quiet r (f x r)) \<Longrightarrow> quiet r (fold f xs r)"
  by (induction xs arbitrary: r) (auto intro: quiet_trans)

lemma quiet_relay_voice: "quiet r (relay_voice io F sender stream_id sequence timestamp flags voice r)"
  by (auto simp: relay_voice_def quiet_fold quiet_send_payload split: option.splits)

lemma quiet_relay_feedback: "quiet r (relay_feedback io F reporter stream_id feedback r)"
  by (auto simp: relay_feedback_def quiet_send_payload split: option.splits)

section \<open>The packet handler\<close>

text \<open>What the handler does with a packet that passed the gate and opened.\<close>

definition accept_packet ::
  "'env relay_io \<Rightarrow> crypto_fns \<Rightarrow> packet_origin \<Rightarrow> bytes \<Rightarrow> byte \<Rightarrow> session_id \<Rightarrow> voice_session \<Rightarrow> opened_media_ref
     \<Rightarrow> anti_replay \<Rightarrow> 'env voice_relay \<Rightarrow> (packet_error, unit) result \<times> 'env voice_relay" where
  "accept_packet io F origin packet kind sid session opened replay r =
     (case note_address origin (or_address_proof opened) (session\<lparr>vs_recv_replay := replay\<rparr>) of
        (changed, s1) \<Rightarrow>
          (case now_of io r of (now, r1) \<Rightarrow>
             (case admit_kind kind now (length packet) (vs_budget s1) of
                (admitted, budget) \<Rightarrow>
                  let s2 = s1\<lparr>vs_budget := budget, vs_last_activity := now, vs_activity_dirty := True\<rparr>;
                      r2 = r1\<lparr>sessions := (sessions r1)(sid \<mapsto> s2)\<rparr>;
                      r3 = (case origin of Tcp slot \<Rightarrow> bind_tcp_conn slot sid r2 | Udp _ _ _ \<Rightarrow> r2)
                  in if \<not> admitted then (Inr (), r3)
                     else dispatch_payload io F origin sid changed (or_payload opened) r3)))"

lemma handle_split:
  assumes "handle_media_packet io F origin r packet = (res, r')"
  obtains (rejected) e where "res = Inl e" "r' = r"
  | (ignored) "res = Inr ()" "r' = r" "\<not> p2p_enabled r" "\<exists>b i src. origin = Udp b i src"
  | (handled) header body sid session opened replay where "parse_header packet = Inr (header, body)"
      "route_to_session r (uh_route_id header) = Some sid" "sessions r sid = Some session"
      "origin_gate origin (uh_kind header) sid session r = Inr ()"
      "open_media_in_place F (vs_protection session) (vs_recv_replay session) packet = (Inr opened, replay)"
      "(res, r') = accept_packet io F origin packet (uh_kind header) sid session opened replay r"
proof (cases "parse_header packet")
  case (Inl e)
  then have "res = Inl (Packet_Media e)" "r' = r" using assms by (auto simp: handle_media_packet_def)
  then show ?thesis by (rule rejected)
next
  case (Inr hb)
  obtain header body where hb: "hb = (header, body)" by fastforce
  note h = Inr [unfolded hb]
  show ?thesis
  proof (cases "\<not> p2p_enabled r \<and> uh_kind header = KIND_NAT_PROBE \<and> (case origin of Udp _ _ _ \<Rightarrow> True | Tcp _ \<Rightarrow> False)")
    case True
    then have udp: "\<exists>b i src. origin = Udp b i src" by (cases origin) auto
    have "r' = r \<and> (res = Inr () \<or> (\<exists>e. res = Inl e))"
      using assms h True by (auto simp: handle_media_packet_def split: option.splits media_protection.splits)
    with True udp rejected ignored show ?thesis by blast
  next
    case False
    show ?thesis
    proof (cases "Option.bind (route_to_session r (uh_route_id header)) (sessions r)")
      case None
      then have "r' = r \<and> (\<exists>e. res = Inl e)"
        using assms h False by (cases "route_to_session r (uh_route_id header)") (auto simp: handle_media_packet_def)
      with rejected show ?thesis by blast
    next
      case (Some session)
      then obtain sid where sid: "route_to_session r (uh_route_id header) = Some sid" "sessions r sid = Some session"
        by (auto simp: bind_eq_Some_conv)
      show ?thesis
      proof (cases "origin_gate origin (uh_kind header) sid session r")
        case (Inl e)
        then have "r' = r" "res = Inl e" using assms h False sid by (auto simp: handle_media_packet_def)
        with rejected show ?thesis by blast
      next
        case gate: (Inr u)
        obtain op replay where op: "open_media_in_place F (vs_protection session) (vs_recv_replay session) packet = (op, replay)"
          by fastforce
        show ?thesis
        proof (cases op)
          case (Inl e)
          have "r\<lparr>sessions := (sessions r)(sid \<mapsto> session\<lparr>vs_recv_replay := replay\<rparr>)\<rparr> = r"
            using open_in_place_error [OF op [unfolded Inl]] sid(2) by (simp add: fun_upd_idem)
          then have "r' = r" "res = Inl (Packet_Media e)"
            using assms h False sid gate op Inl by (auto simp: handle_media_packet_def)
          with rejected show ?thesis by blast
        next
          case (Inr opened)
          have "(res, r') = accept_packet io F origin packet (uh_kind header) sid session opened replay r"
            using assms h False sid gate op Inr unfolding accept_packet_def by (auto simp: handle_media_packet_def)
          from handled [OF h sid _ _ this] gate op Inr show ?thesis by simp
        qed
      qed
    qed
  qed
qed

text \<open>Where a session is reached and under which keys.\<close>

definition path_of :: "voice_session \<Rightarrow> socket_addr option \<times> nat \<times> media_protection" where
  "path_of s = (vs_udp_addr s, vs_udp_bind_index s, vs_protection s)"

lemma quiet_dispatch:
  assumes "dispatch_payload io F origin sid changed payload r = (res, r')"
  shows "\<And>u. map_option path_of (sessions r' u)
      = map_option path_of (sessions r u)"
    and "\<And>slot. tcp_conns r' ! slot = None
      \<or> map_option vc_session (tcp_conns r' ! slot) = map_option vc_session (tcp_conns r ! slot)"
    and "\<And>e. res = Inl e \<Longrightarrow> e = UnknownNatProbe \<and> r' = r"
proof -
  have core: "map_option path_of (sessions b u)
      = map_option path_of (sessions a u)"
    if "quiet a b" for a b :: "'a voice_relay" and u
  proof -
    have "map_option path_of (map_option core_of x) = map_option path_of x" for x
      by (cases x) (simp_all add: core_of_def path_of_def)
    with that show ?thesis unfolding quiet_def by metis
  qed
  have "(\<forall>u. map_option path_of (sessions r' u)
        = map_option path_of (sessions r u))
      \<and> (\<forall>slot. tcp_conns r' ! slot = None
        \<or> map_option vc_session (tcp_conns r' ! slot) = map_option vc_session (tcp_conns r ! slot))
      \<and> (\<forall>e. res = Inl e \<longrightarrow> e = UnknownNatProbe \<and> r' = r)"
  proof (cases payload)
    case (VoiceRef stream_id sequence timestamp flags voice)
    with assms have "quiet r r'" "res = Inr ()" by (auto simp: dispatch_payload_def quiet_relay_voice)
    then show ?thesis using core by (simp add: quiet_def)
  next
    case (VoiceFeedbackRef stream_id feedback)
    with assms have "quiet r r'" "res = Inr ()" by (auto simp: dispatch_payload_def quiet_relay_feedback)
    then show ?thesis using core by (simp add: quiet_def)
  next
    case (PingRef nonce rtt)
    obtain now r1 where now: "now_of io r = (now, r1)" by fastforce
    define r2 where "r2 = (case sessions r sid of None \<Rightarrow> r
      | Some session \<Rightarrow> r1\<lparr>sessions := (sessions r1)(sid \<mapsto> session\<lparr>
          vs_reported_rtt_ms := (if changed then None else rtt), vs_rtt_reported_at := Some now\<rparr>)\<rparr>)"
    have r2: "map_option path_of (sessions r2 u)
        = map_option path_of (sessions r u)"
      "tcp_conns r2 = tcp_conns r" for u
      using now by (auto simp: r2_def now_of_def path_of_def split: option.splits prod.splits)
    have "r' = send_pong io F sid origin nonce r2" "res = Inr ()"
      using assms now PingRef unfolding r2_def by (auto simp: dispatch_payload_def Let_def split: option.splits)
    with quiet_send_pong [of r2 io F sid origin nonce] core [of r2 r'] r2 show ?thesis by (simp add: quiet_def)
  next
    case BindRef
    with assms show ?thesis by (cases origin) (auto simp: dispatch_payload_def split: if_splits)
  next
    case (NatProbeRef probe_id)
    with assms show ?thesis by (cases origin) (auto simp: dispatch_payload_def Let_def split: if_splits)
  qed (use assms in \<open>auto simp: dispatch_payload_def\<close>)
  then show "\<And>u. map_option path_of (sessions r' u)
      = map_option path_of (sessions r u)"
    "\<And>slot. tcp_conns r' ! slot = None
      \<or> map_option vc_session (tcp_conns r' ! slot) = map_option vc_session (tcp_conns r ! slot)"
    "\<And>e. res = Inl e \<Longrightarrow> e = UnknownNatProbe \<and> r' = r" by blast+
qed

lemma core_path: "map_option core_of x = map_option core_of y \<Longrightarrow> map_option path_of x = map_option path_of y"
proof -
  assume "map_option core_of x = map_option core_of y"
  then have "map_option path_of (map_option core_of x) = map_option path_of (map_option core_of y)" by simp
  moreover have "path_of (core_of s) = path_of s" for s by (simp add: path_of_def core_of_def)
  ultimately show ?thesis by (simp add: option.map_comp comp_def)
qed

lemma core_lane [simp]: "core_of (s\<lparr>vs_tcp_conn := l\<rparr>) = core_of s"
  by (simp add: core_of_def)

lemma bind_core: "map_option core_of (sessions (bind_tcp_conn slot sid r) u) = map_option core_of (sessions r u)"
proof -
  have d: "map_option core_of (sessions (detach_tcp_conn n r') w) = map_option core_of (sessions r' w)"
    for n w and r' :: "'a voice_relay" using quiet_detach [of r' n] by (simp add: quiet_def)
  show ?thesis
    by (auto simp: bind_tcp_conn_def Let_def drop_permit_def d simp del: map_option_eq_Some split: option.splits)
qed

lemma bind_lane:
  assumes "slot < length (tcp_conns r)" and "tcp_conns r ! slot = Some conn" and "vc_session conn = None"
  shows "map_option vc_session (tcp_conns (bind_tcp_conn slot sid r) ! slot) = Some (Some sid)"
  using assms by (auto simp: bind_tcp_conn_def Let_def drop_permit_def detach_fields split: option.splits)

lemma note_address_path:
  assumes "note_address origin proven s = (changed, s')"
  shows "path_of s' = path_of s \<or>
    (\<exists>bind_index src. origin = Udp 0 bind_index src \<and> proven \<noteq> NoAddressProof
       \<and> path_of s' = (Some src, bind_index, vs_protection s))"
  using assms by (auto simp: note_address_def path_of_def Let_def split: packet_origin.splits if_splits)

lemma accept_facts:
  assumes "(res, r') = accept_packet io F origin packet kind sid session opened replay r"
    and "sessions r sid = Some session"
  shows "\<And>u. map_option path_of (sessions r' u) = map_option path_of (sessions r u) \<or>
      u = sid \<and> (\<exists>bind_index src. origin = Udp 0 bind_index src \<and> or_address_proof opened \<noteq> NoAddressProof
         \<and> map_option path_of (sessions r' u) = Some (Some src, bind_index, vs_protection session))"
    and "\<And>e. res = Inl e \<Longrightarrow> e = UnknownNatProbe \<and> udp_sent r' = udp_sent r \<and> event_buf r' = event_buf r
      \<and> tcp_conns r' = tcp_conns r"
proof -
  obtain changed s1 where na: "note_address origin (or_address_proof opened) (session\<lparr>vs_recv_replay := replay\<rparr>) = (changed, s1)"
    by fastforce
  obtain now r1 where now: "now_of io r = (now, r1)" by fastforce
  obtain ok budget where ad: "admit_kind kind now (length packet) (vs_budget s1) = (ok, budget)" by fastforce
  define r2 where "r2 = r1\<lparr>sessions := (sessions r1)(sid \<mapsto>
      s1\<lparr>vs_budget := budget, vs_last_activity := now, vs_activity_dirty := True\<rparr>)\<rparr>"
  define r3 where "r3 = (case origin of Tcp slot \<Rightarrow> bind_tcp_conn slot sid r2 | Udp _ _ _ \<Rightarrow> r2)"
  have res: "(res, r') = (if \<not> ok then (Inr (), r3) else dispatch_payload io F origin sid changed (or_payload opened) r3)"
    using assms(1) na now ad unfolding accept_packet_def r3_def r2_def by (simp add: Let_def)
  have r1: "sessions r1 = sessions r" using now by (auto simp: now_of_def split: prod.splits)
  have p3: "map_option path_of (sessions r3 u) = map_option path_of (sessions r2 u)" for u
    unfolding r3_def by (cases origin) (simp_all add: core_path [OF bind_core])
  have p': "map_option path_of (sessions r' u) = map_option path_of (sessions r3 u)" for u
    using res quiet_dispatch(1) [of io F origin sid changed "or_payload opened" r3 res r' u] by (auto split: if_splits)
  have "map_option path_of (sessions r2 u) = (if u = sid then Some (path_of s1) else map_option path_of (sessions r u))" for u
    by (simp add: r2_def r1 path_of_def)
  then show "\<And>u. map_option path_of (sessions r' u) = map_option path_of (sessions r u) \<or>
      u = sid \<and> (\<exists>bind_index src. origin = Udp 0 bind_index src \<and> or_address_proof opened \<noteq> NoAddressProof
         \<and> map_option path_of (sessions r' u) = Some (Some src, bind_index, vs_protection session))"
    using note_address_path [OF na] assms(2) p3 p' by (auto simp: path_of_def)
  have r2: "udp_sent r2 = udp_sent r" "event_buf r2 = event_buf r" "tcp_conns r2 = tcp_conns r"
    using now by (auto simp: r2_def now_of_def split: prod.splits)
  show "e = UnknownNatProbe \<and> udp_sent r' = udp_sent r \<and> event_buf r' = event_buf r \<and> tcp_conns r' = tcp_conns r"
    if e: "res = Inl e" for e
  proof -
    have d: "dispatch_payload io F origin sid changed (or_payload opened) r3 = (Inl e, r')"
      using res e by (auto split: if_splits)
    from quiet_dispatch(3) [OF this] have "e = UnknownNatProbe" "r' = r3" by simp_all
    moreover have "\<exists>b i src. origin = Udp b i src"
      using d by (cases "or_payload opened"; cases origin) (auto simp: dispatch_payload_def Let_def split: if_splits)
    then have "r3 = r2" by (auto simp: r3_def)
    ultimately show ?thesis using r2 by simp
  qed
qed

lemma opened_sealed:
  assumes "aead_correct (aead_fns.truncate F)" and "aead_exact (aead_fns.truncate F)" and "hmac_is_32 F"
    and "open_media_in_place F P replay packet = (Inr opened, replay')"
  shows "\<exists>counter p. seal_media_into F (mirror_protection P) counter p = Inr packet
     \<and> into_owned (or_payload opened) = p \<and> or_address_proof opened = expected_proof P p
     \<and> uh_kind (or_header opened) = payload_kind p
     \<and> (or_address_proof opened \<noteq> NoAddressProof \<longrightarrow> ar_check replay counter)"
proof -
  have "open_media F P replay packet = (Inr \<lparr>om_header = or_header opened, om_payload = into_owned (or_payload opened),
      om_address_proof = or_address_proof opened\<rparr>, replay')"
    using assms(4) open_in_place_agrees [of F P replay packet] by simp
  from open_media_sealed [OF assms(1-3) this] obtain counter p where
    "seal_media_into F (mirror_protection P) counter p = Inr packet"
    "\<lparr>om_header = or_header opened, om_payload = into_owned (or_payload opened),
      om_address_proof = or_address_proof opened\<rparr> = opens_to P counter p"
    "or_address_proof opened \<noteq> NoAddressProof \<longrightarrow> ar_update replay counter = (True, replay')" by auto
  then show ?thesis
    by (intro exI [of _ counter] exI [of _ p]) (auto simp: opens_to_def ar_update_def Let_def split: if_splits)
qed

lemma opened_header:
  "open_media_in_place F P replay packet = (Inr opened, replay') \<Longrightarrow> parse_header packet = Inr (header, body) \<Longrightarrow>
     or_header opened = header"
  by (auto simp: open_media_in_place_def Let_def rbind_Inr_iff split: media_protection.splits if_splits sum.splits
      prod.splits bool.splits)

lemma kind_bind_payload: "payload_kind p = KIND_BIND \<Longrightarrow> p = Bind"
  by (cases p) (simp_all add: kind_defs)


text \<open>
  C22. Only the session's own keys can move its media. If a packet changes where a session is reached, it
  came in on a media socket, the new address is its source, and the packet is one that sealing under
  the other end's protection produces, with a counter the replay window has not seen. A session without
  encryption is moved by nothing but a \<open>Bind\<close> that carries the proof of its bind key.
\<close>

theorem udp_addr_authenticated:
  assumes "aead_correct (aead_fns.truncate F)" and "aead_exact (aead_fns.truncate F)" and "hmac_is_32 F"
    and "handle_media_packet io F origin r packet = (res, r')"
    and "sessions r sid = Some s" and "sessions r' sid = Some s'" and "path_of s' \<noteq> path_of s"
  shows "\<exists>bind_index src counter p. origin = Udp 0 bind_index src
     \<and> path_of s' = (Some src, bind_index, vs_protection s)
     \<and> seal_media_into F (mirror_protection (vs_protection s)) counter p = Inr packet
     \<and> ar_check (vs_recv_replay s) counter
     \<and> ((\<exists>rid key. vs_protection s = MediaClear rid key) \<longrightarrow> p = Bind)"
  using assms(4)
proof (cases rule: handle_split)
  case (handled header body sid' session opened replay)
  from accept_facts(1) [OF handled(6,3), of sid] assms(5-7) obtain bind_index src where
    m: "sid = sid'" "origin = Udp 0 bind_index src" "or_address_proof opened \<noteq> NoAddressProof"
    "path_of s' = (Some src, bind_index, vs_protection session)" by auto
  with handled(3) assms(5) have s: "session = s" by simp
  from opened_sealed [OF assms(1-3) handled(5) [unfolded s]] obtain counter p where
    p: "seal_media_into F (mirror_protection (vs_protection s)) counter p = Inr packet"
    "or_address_proof opened = expected_proof (vs_protection s) p" "ar_check (vs_recv_replay s) counter"
    using m(3) by blast
  have "p = Bind" if "vs_protection s = MediaClear rid key" for rid key
    using p(2) m(3) that by (auto simp: expected_proof_def intro: kind_bind_payload split: if_splits)
  with m p s show ?thesis by auto
qed (use assms(5-7) in simp_all)

text \<open>
  C23. A voice lane serves nobody before it proves a session. On a lane that is not bound yet, a frame is
  either rejected without a trace, or it is a \<open>Bind\<close> that the other end of a registered session sealed,
  with a fresh counter, and the lane is bound to that session from then on unless it is closed.
\<close>

theorem lane_bind_authenticated:
  assumes "aead_correct (aead_fns.truncate F)" and "aead_exact (aead_fns.truncate F)" and "hmac_is_32 F"
    and "handle_media_packet io F (Tcp slot) r packet = (res, r')"
    and "slot < length (tcp_conns r)" and "tcp_conns r ! slot = Some conn" and "vc_session conn = None"
  shows "(\<exists>e. res = Inl e) \<and> r' = r \<or>
     (\<exists>sid s counter. sessions r sid = Some s
        \<and> seal_media_into F (mirror_protection (vs_protection s)) counter Bind = Inr packet
        \<and> ar_check (vs_recv_replay s) counter
        \<and> (\<forall>c. tcp_conns r' ! slot = Some c \<longrightarrow> vc_session c = Some sid))"
  using assms(4)
proof (cases rule: handle_split)
  case (handled header body sid s opened replay)
  have kind: "uh_kind header = KIND_BIND"
    using handled(4) assms(6,7) by (auto simp: origin_gate_def split: if_splits)
  from opened_sealed [OF assms(1-3) handled(5)] opened_header [OF handled(5,1)] obtain counter p where
    p: "seal_media_into F (mirror_protection (vs_protection s)) counter p = Inr packet" "payload_kind p = KIND_BIND"
    "or_address_proof opened = expected_proof (vs_protection s) p"
    "or_address_proof opened \<noteq> NoAddressProof \<longrightarrow> ar_check (vs_recv_replay s) counter"
    using kind by metis
  have fresh: "ar_check (vs_recv_replay s) counter"
    using p(2-4) by (auto simp: expected_proof_def split: media_protection.splits)
  have "vc_session c = Some sid" if c: "tcp_conns r' ! slot = Some c" for c
  proof -
    obtain changed s1 where na: "note_address (Tcp slot) (or_address_proof opened) (s\<lparr>vs_recv_replay := replay\<rparr>) = (changed, s1)"
      by fastforce
    obtain now r1 where now: "now_of io r = (now, r1)" by fastforce
    obtain ok budget where ad: "admit_kind (uh_kind header) now (length packet) (vs_budget s1) = (ok, budget)" by fastforce
    define r2 where "r2 = r1\<lparr>sessions := (sessions r1)(sid \<mapsto>
        s1\<lparr>vs_budget := budget, vs_last_activity := now, vs_activity_dirty := True\<rparr>)\<rparr>"
    have r2: "tcp_conns r2 = tcp_conns r" using now by (auto simp: r2_def now_of_def split: prod.splits)
    have res: "(res, r') = (if \<not> ok then (Inr (), bind_tcp_conn slot sid r2)
        else dispatch_payload io F (Tcp slot) sid changed (or_payload opened) (bind_tcp_conn slot sid r2))"
      using handled(6) na now ad unfolding accept_packet_def r2_def by (simp add: Let_def)
    have b: "map_option vc_session (tcp_conns (bind_tcp_conn slot sid r2) ! slot) = Some (Some sid)"
      by (rule bind_lane) (use assms(5-7) r2 in simp_all)
    then have "map_option vc_session (tcp_conns r' ! slot) = Some (Some sid)"
      using res c quiet_dispatch(2) [of io F "Tcp slot" sid changed "or_payload opened" "bind_tcp_conn slot sid r2" res r' slot]
      by (auto split: if_splits)
    with c show ?thesis by simp
  qed
  with handled(3) p(1) kind_bind_payload [OF p(2)] fresh show ?thesis by blast
qed simp_all

section \<open>Voice reaches the room\<close>

definition bound_to :: "nat \<Rightarrow> session_id \<Rightarrow> 'env voice_relay \<Rightarrow> bool" where
  "bound_to slot sid r \<longleftrightarrow> (\<forall>c. tcp_conns r ! slot = Some c \<longrightarrow> vc_session c = Some sid)"

definition only_affects :: "session_id \<Rightarrow> 'env voice_relay \<Rightarrow> 'env voice_relay \<Rightarrow> bool" where
  "only_affects sid r r' \<longleftrightarrow> (\<forall>u. u \<noteq> sid \<longrightarrow> sessions r' u = sessions r u) \<and> udp_sent r' = udp_sent r"

lemma bound_to_quiet:
  assumes "bound_to slot sid r" and "quiet r r'"
  shows "bound_to slot sid r'"
  unfolding bound_to_def
proof (intro allI impI)
  fix c
  assume c: "tcp_conns r' ! slot = Some c"
  with assms(2) have "map_option vc_session (tcp_conns r ! slot) = Some (vc_session c)"
    unfolding quiet_def by (metis option.distinct(1) option.simps(9))
  with assms(1) show "vc_session c = Some sid" by (auto simp: bound_to_def)
qed

lemma affects_refl [simp]: "only_affects sid r r"
  by (simp add: only_affects_def)

lemma affects_trans [trans]: "only_affects sid r r1 \<Longrightarrow> only_affects sid r1 r2 \<Longrightarrow> only_affects sid r r2"
  by (auto simp: only_affects_def)

lemma affects_inert [simp]:
  "only_affects sid r (r'\<lparr>relay_env := e\<rparr>) = only_affects sid r r'"
  "only_affects sid r (r'\<lparr>tcp_write_work := w2\<rparr>) = only_affects sid r r'"
  "only_affects sid r (r'\<lparr>udp_send_packet := p\<rparr>) = only_affects sid r r'"
  "only_affects sid (r\<lparr>relay_env := e\<rparr>) r' = only_affects sid r r'"
  by (simp_all add: only_affects_def)

lemma affects_now: "now_of io r = (t, r') \<Longrightarrow> only_affects sid r r'"
  by (auto simp: now_of_def split: prod.splits)

lemma affects_detach: "bound_to slot sid r \<Longrightarrow> only_affects sid r (detach_tcp_conn slot r)"
  by (auto simp: only_affects_def bound_to_def detach_tcp_conn_def Let_def drop_permit_def split: option.splits)

lemma affects_upd_conn: "only_affects sid r (upd_conn slot g r)"
  by (auto simp: only_affects_def upd_conn_def split: option.splits)

lemma affects_detach_stale:
  "bound_to slot sid r \<Longrightarrow> detach_stale_tcp_backlog slot now r = (b, r') \<Longrightarrow> only_affects sid r r'"
  by (auto simp: detach_stale_tcp_backlog_def Let_def affects_detach)

lemma affects_flush_tcp:
  assumes "bound_to slot sid r"
  shows "only_affects sid r (flush_tcp io slot r)"
proof (cases "tcp_conns r ! slot")
  case None
  then show ?thesis by (simp add: flush_tcp_def)
next
  case (Some conn)
  show ?thesis
  proof (cases "vc_write_blocked conn \<or> wq_is_empty (vc_write_queue conn)")
    case True
    then show ?thesis using Some by (simp add: flush_tcp_def)
  next
    case False
    obtain res wq e where w: "write_queue_to (io_send io (vc_socket conn)) (relay_env r) (vc_write_queue conn)
        VOICE_TCP_WRITE_ATTEMPTS = (res, wq, e)" by (metis prod.exhaust)
    show ?thesis
    proof (cases res)
      case (Inl err)
      define r1 where "r1 = upd_conn slot (\<lambda>c. c\<lparr>vc_write_queue := wq\<rparr>) (r\<lparr>relay_env := e\<rparr>)"
      have "quiet (r\<lparr>relay_env := e\<rparr>) r1" unfolding r1_def by (rule quiet_upd_conn) (simp add: link_keeping_def)
      then have "bound_to slot sid r1" using bound_to_quiet [OF assms] by simp
      then have "only_affects sid r1 (detach_tcp_conn slot r1)" by (rule affects_detach)
      moreover have "only_affects sid r r1" using affects_upd_conn [of sid "r\<lparr>relay_env := e\<rparr>"] by (simp add: r1_def)
      ultimately have "only_affects sid r (detach_tcp_conn slot r1)" by (metis affects_trans)
      then show ?thesis using Some False w Inl by (simp add: flush_tcp_def r1_def)
    next
      case (Inr out)
      obtain now r1 where now: "now_of io (r\<lparr>relay_env := e\<rparr>) = (now, r1)" by fastforce
      define g where "g = (\<lambda>c :: tcp_voice_conn. c\<lparr>vc_write_queue := wq,
          vc_backlog_since := (if wq_is_empty wq then None else vc_backlog_since c),
          vc_write_blocked := (vc_write_blocked c \<or> blocked out)\<rparr>)"
      define r3 where "r3 = (let r2 = upd_conn slot g r1 in if \<not> blocked out \<and> wp_hit_limit out
          then r2\<lparr>tcp_write_work := set_slot_bit (tcp_write_work r2) slot\<rparr> else r2)"
      have "quiet r r1" using quiet_now [OF now] by simp
      also have "quiet r1 (upd_conn slot g r1)" by (rule quiet_upd_conn) (simp add: link_keeping_def g_def)
      finally have "quiet r r3" by (simp add: r3_def Let_def)
      then have b: "bound_to slot sid r3" by (rule bound_to_quiet [OF assms])
      have "only_affects sid r r1" using affects_now [OF now] by simp
      also note affects_upd_conn [of sid r1 slot g]
      finally have a: "only_affects sid r r3" by (simp add: r3_def Let_def)
      obtain st r4 where d: "detach_stale_tcp_backlog slot now r3 = (st, r4)" by fastforce
      have "flush_tcp io slot r = (if wrote_zero out then detach_tcp_conn slot r3 else r4)"
        using Some False w Inr now d unfolding flush_tcp_def r3_def g_def by (simp add: Let_def)
      then show ?thesis
        using affects_trans [OF a affects_detach [OF b]] affects_trans [OF a affects_detach_stale [OF b d]] by simp
    qed
  qed
qed

lemma affects_admit_tcp_send:
  assumes "bound_to slot sid r" and "admit_tcp_send io slot r = (ok, r')"
  shows "only_affects sid r r'"
proof -
  obtain now r1 where now: "now_of io r = (now, r1)" by fastforce
  obtain b r2 where d: "detach_stale_tcp_backlog slot now r1 = (b, r2)" by fastforce
  have b1: "bound_to slot sid r1" by (rule bound_to_quiet [OF assms(1) quiet_now [OF now]])
  have b2: "bound_to slot sid r2" by (rule bound_to_quiet [OF b1 quiet_detach_stale [OF d]])
  have q: "only_affects sid r r2" using affects_trans [OF affects_now [OF now] affects_detach_stale [OF b1 d]] .
  have "r' = r2 \<or> r' = detach_tcp_conn slot r2"
    using assms(2) now d by (auto simp: admit_tcp_send_def split: bool.splits option.splits if_splits)
  with q affects_trans [OF q affects_detach [OF b2]] show ?thesis by blast
qed

lemma affects_seal_for_session: "seal_for_session F sid payload r = (ok, r') \<Longrightarrow> only_affects sid r r'"
  by (auto simp: seal_for_session_def only_affects_def Let_def split: option.splits sum.splits)

lemma affects_send_tcp_sealed:
  assumes "bound_to slot sid r"
  shows "only_affects sid r (send_tcp_sealed io slot r)"
proof (cases "tcp_conns r ! slot")
  case None
  then show ?thesis by (simp add: send_tcp_sealed_def)
next
  case (Some conn)
  show ?thesis
  proof (cases "encode_frame (udp_send_packet r) []")
    case (Inl e)
    then show ?thesis using Some by (simp add: send_tcp_sealed_def)
  next
    case (Inr framed)
    define r1 where "r1 = upd_conn slot (\<lambda>c. c\<lparr>vc_write_queue := wq_tail_append framed (vc_write_queue c)\<rparr>) r"
    have q1: "quiet r r1" unfolding r1_def by (rule quiet_upd_conn) (simp add: link_keeping_def)
    have a1: "only_affects sid r r1" unfolding r1_def by (rule affects_upd_conn)
    obtain now r2 where now: "now_of io r1 = (now, r2)" by fastforce
    define r3 where "r3 = (if vc_backlog_since conn = None then upd_conn slot (\<lambda>c. c\<lparr>vc_backlog_since := Some now\<rparr>) r2 else r1)"
    have "quiet r1 (upd_conn slot (\<lambda>c. c\<lparr>vc_backlog_since := Some now\<rparr>) r2)"
      by (rule quiet_trans [OF quiet_now [OF now] quiet_upd_conn]) (simp add: link_keeping_def)
    then have "quiet r r3" using quiet_trans [OF q1] q1 by (simp add: r3_def)
    then have "bound_to slot sid r3" by (rule bound_to_quiet [OF assms])
    then have "only_affects sid r3 (flush_tcp io slot r3)" by (rule affects_flush_tcp)
    moreover have "only_affects sid r r3"
      using affects_trans [OF a1 affects_trans [OF affects_now [OF now] affects_upd_conn]] a1 by (simp add: r3_def)
    ultimately have "only_affects sid r (flush_tcp io slot r3)" by (metis affects_trans)
    moreover have "send_tcp_sealed io slot r = flush_tcp io slot r3"
      using Some Inr now unfolding r3_def r1_def by (auto simp: send_tcp_sealed_def Let_def)
    ultimately show ?thesis by simp
  qed
qed

lemma affects_send_lane:
  assumes "bound_to slot sid r"
  shows "only_affects sid r (send_lane io F slot sid payload r)"
proof -
  obtain ok r1 where a: "admit_tcp_send io slot r = (ok, r1)" by fastforce
  obtain sealed r2 where s: "seal_for_session F sid payload r1 = (sealed, r2)" by fastforce
  have "bound_to slot sid r2"
    by (rule bound_to_quiet [OF assms quiet_trans [OF quiet_admit_tcp_send [OF a] quiet_seal_for_session [OF s]]])
  note q1 = affects_admit_tcp_send [OF assms a]
  note q2 = affects_trans [OF q1 affects_seal_for_session [OF s]]
  note q3 = affects_trans [OF q2 affects_send_tcp_sealed [OF \<open>bound_to slot sid r2\<close>]]
  from q1 q2 q3 a s show ?thesis by (cases ok; cases sealed) (simp_all add: send_lane_def)
qed

text \<open>The datagram a session is sent for a payload, from its state before.\<close>

definition udp_datagram :: "crypto_fns \<Rightarrow> media_payload_ref \<Rightarrow> 'env voice_relay \<Rightarrow> session_id
    \<Rightarrow> (nat \<times> bytes \<times> socket_addr) list" where
  "udp_datagram F payload r sid =
     (case sessions r sid of
        None \<Rightarrow> []
      | Some s \<Rightarrow>
          (case (vs_tcp_conn s, vs_udp_addr s) of
             (None, Some addr) \<Rightarrow>
               (case seal_media_ref_into F (vs_protection s) (vs_send_counter s) payload of
                  Inl _ \<Rightarrow> []
                | Inr packet \<Rightarrow> [(vs_udp_bind_index s, packet, addr)])
           | _ \<Rightarrow> []))"

lemma inv_bound:
  assumes "rinv q cs r" and "sessions r sid = Some s" and "vs_tcp_conn s = Some slot"
  shows "bound_to slot sid r"
proof -
  have "lanes_ok (view r)" using assms(1) by (simp add: rinv_def view_inv_def)
  note l = lanes_okD(4,5) [OF this, of sid "session_view_of s" slot]
  have "v_lanes (view r) ! slot = Some (Some sid, False)" "slot < length (tcp_conns r)"
    using l assms(2,3) inv_lanes [OF assms(1)] by (simp_all add: view_select session_view_of_def)
  then show ?thesis by (auto simp: bound_to_def view_select lane_view_of_def)
qed

lemma send_payload_sent:
  assumes "rinv q cs r"
  shows "udp_sent (send_payload io F sid payload r) = udp_sent r @ udp_datagram F payload r sid"
    and "u \<noteq> sid \<Longrightarrow> sessions (send_payload io F sid payload r) u = sessions r u"
proof -
  have "udp_sent (send_payload io F sid payload r) = udp_sent r @ udp_datagram F payload r sid
     \<and> (\<forall>u. u \<noteq> sid \<longrightarrow> sessions (send_payload io F sid payload r) u = sessions r u)"
  proof (cases "sessions r sid")
    case None
    then show ?thesis by (simp add: send_payload_def udp_datagram_def)
  next
    case (Some s)
    show ?thesis
    proof (cases "vs_tcp_conn s")
      case lane: (Some slot)
      from affects_send_lane [OF inv_bound [OF assms Some lane]] Some lane show ?thesis
        by (simp add: send_payload_def udp_datagram_def only_affects_def)
    next
      case None
      with Some show ?thesis
        by (auto simp: send_payload_def udp_datagram_def seal_for_session_def send_udp_sealed_def Let_def
            split: option.splits sum.splits)
    qed
  qed
  then show "udp_sent (send_payload io F sid payload r) = udp_sent r @ udp_datagram F payload r sid"
    "u \<noteq> sid \<Longrightarrow> sessions (send_payload io F sid payload r) u = sessions r u" by blast+
qed

lemma fan_out_sent:
  assumes env: "relay_env_ok io F"
  shows "rinv q cs r \<Longrightarrow> distinct us \<Longrightarrow>
    udp_sent (fold (\<lambda>u. send_payload io F u payload) us r) = udp_sent r @ concat (map (udp_datagram F payload r) us)"
proof (induction us arbitrary: r)
  case (Cons u us)
  let ?r = "send_payload io F u payload r"
  have "udp_datagram F payload ?r w = udp_datagram F payload r w" if "w \<in> set us" for w
  proof -
    have "w \<noteq> u" using Cons.prems(2) that by auto
    then show ?thesis using send_payload_sent(2) [OF Cons.prems(1)] by (simp add: udp_datagram_def)
  qed
  then have "map (udp_datagram F payload ?r) us = map (udp_datagram F payload r) us" by simp
  moreover have "distinct us" using Cons.prems(2) by simp
  ultimately show ?case
    using Cons.IH [OF inv_send_payload [OF env Cons.prems(1), of u payload]] send_payload_sent(1) [OF Cons.prems(1), of io F u payload]
    by (simp cong: map_cong)
qed simp

lemma in_room_view:
  "in_room (view r) room n \<longleftrightarrow>
     (\<exists>u t rt. sessions r u = Some t \<and> vs_slot t = n \<and> vs_route t = Some rt \<and> sr_room_id rt = room)"
proof -
  have "(\<exists>s. v_sessions (view r) u = Some s \<and> w_slot s = n \<and> w_route s = Some rt)
      = (\<exists>t. sessions r u = Some t \<and> vs_slot t = n \<and> vs_route t = Some rt)" for u rt
    by (cases "sessions r u") (auto simp: view_select session_view_of_def)
  then show ?thesis by (simp only: in_room_alt) blast
qed

lemma voice_recipients_spec:
  assumes inv: "rinv q cs r"
  shows "set (voice_recipients sender room r) =
      {u. u \<noteq> sender \<and> (\<exists>t rt. sessions r u = Some t \<and> vs_route t = Some rt \<and> sr_room_id rt = room)}"
    and "distinct (voice_recipients sender room r)"
proof -
  have ok: "sessions_ok (view r)" "rooms_rep (rooms r) (in_room (view r))"
    using inv by (simp_all add: rinv_def view_inv_def rooms_ok_def view_select)
  note in_room = in_room_view [of r room]
  have slot: "vs_slot t < MAX_SESSIONS \<and> session_slots r ! vs_slot t = Some u" if "sessions r u = Some t" for u t
    using sessions_okD(2,3) [OF ok(1), of u "session_view_of t"] that by (simp add: view_select session_view_of_def)
  have "set (voice_recipients sender room r) =
      {u. u \<noteq> sender \<and> (\<exists>t rt. sessions r u = Some t \<and> vs_route t = Some rt \<and> sr_room_id rt = room)}
    \<and> distinct (voice_recipients sender room r)"
  proof (cases "rooms r room")
    case None
    with rooms_repD [OF ok(2), of room] have "\<not> in_room (view r) room n" if "n < MAX_SESSIONS" for n using that by simp
    with None show ?thesis using slot in_room by (auto simp: voice_recipients_def)
  next
    case (Some words)
    with rooms_repD [OF ok(2), of room] have w: "length words = SESSION_WORDS"
      "\<And>n. n < MAX_SESSIONS \<Longrightarrow> slot_mem words n = in_room (view r) room n" by auto
    have mem: "set (word_slots words) = {n. n < MAX_SESSIONS \<and> in_room (view r) room n}"
      using w by (auto simp: set_word_slots session_bits)
    let ?f = "\<lambda>slot. case session_slots r ! slot of None \<Rightarrow> [] | Some v \<Rightarrow> if v \<noteq> sender then [v] else []"
    have rs: "voice_recipients sender room r = concat (map ?f (word_slots words))"
      using Some by (simp add: voice_recipients_def)
    have "set (concat (map ?f (word_slots words))) =
        {u. u \<noteq> sender \<and> (\<exists>t rt. sessions r u = Some t \<and> vs_route t = Some rt \<and> sr_room_id rt = room)}"
      unfolding set_concat set_map mem in_room using slot by (fastforce split: option.splits if_splits)
    moreover have "distinct (concat (map ?f ns))" if "distinct ns" "set ns \<subseteq> set (word_slots words)" for ns
      using that
    proof (induction ns)
      case (Cons n ns)
      have "session_slots r ! n \<noteq> session_slots r ! m" if m: "m \<in> set ns" for m
      proof -
        have "n \<noteq> m" "n \<in> set (word_slots words)" "m \<in> set (word_slots words)" using Cons.prems m by auto
        then show ?thesis unfolding mem in_room using slot by auto
      qed
      then have "set (?f n) \<inter> set (concat (map ?f ns)) = {}"
        by (fastforce split: option.splits if_splits)
      with Cons show ?case by (auto split: option.splits)
    qed simp
    ultimately show ?thesis using rs distinct_word_slots [of words] by simp
  qed
  then show "set (voice_recipients sender room r) =
      {u. u \<noteq> sender \<and> (\<exists>t rt. sessions r u = Some t \<and> vs_route t = Some rt \<and> sr_room_id rt = room)}"
    "distinct (voice_recipients sender room r)" by blast+
qed

text \<open>
  C24. A voice packet is relayed to the room and to nobody else. The recipients are exactly the other
  sessions whose current route is in the sender's room, each once, and the datagrams sent are, in the
  order of the slots, one for each recipient that has an address and no lane: the same stream, sequence,
  timestamp, flags and sound, sealed under that recipient's own keys and next counter.
\<close>

theorem voice_reaches_room:
  assumes "relay_env_ok io F" and "relay_inv r"
    and "sessions r sender = Some s" and "vs_route s = Some rt" and "sr_stream_id rt = stream_id"
  shows "let recipients = voice_recipients sender (sr_room_id rt) r in
     set recipients = {u. u \<noteq> sender \<and>
       (\<exists>t rt'. sessions r u = Some t \<and> vs_route t = Some rt' \<and> sr_room_id rt' = sr_room_id rt)}
     \<and> distinct recipients
     \<and> udp_sent (relay_voice io F sender stream_id sequence timestamp flags voice r)
         = udp_sent r @ concat (map (udp_datagram F (VoiceRef stream_id sequence timestamp flags voice) r) recipients)"
proof -
  have inv: "rinv (length (filter is_attach (commands r))) (commands r) r" using assms(2) by (simp add: relay_inv_def)
  note spec = voice_recipients_spec [OF inv, of sender "sr_room_id rt"]
  have "relay_voice io F sender stream_id sequence timestamp flags voice r =
      fold (\<lambda>u. send_payload io F u (VoiceRef stream_id sequence timestamp flags voice)) (voice_recipients sender (sr_room_id rt) r) r"
    using assms(3-5) by (simp add: relay_voice_def session_route_of_def)
  with fan_out_sent [OF assms(1) inv spec(2)] spec show ?thesis by (simp add: Let_def)
qed

lemma open_sealed_in_place:
  assumes "aead_correct (aead_fns.truncate F)" and "aead_exact (aead_fns.truncate F)" and "hmac_is_32 F"
    and "seal_media_into F (mirror_protection P) counter p = Inr packet" and "ar_check replay counter"
  shows "\<exists>replay'. open_media F P replay packet = (Inr (opens_to P counter p), replay')"
proof -
  have upd: "\<exists>replay'. ar_update replay counter = (True, replay')" using assms(5) by (simp add: ar_update_def Let_def)
  show ?thesis
  proof (cases P)
    case (MediaAead r s v)
    with assms(4) upd show ?thesis by (auto simp: open_media_aead [OF assms(1,2)])
  next
    case (MediaClear r k)
    with assms(4) upd show ?thesis unfolding MediaClear open_media_clear [OF assms(3)] by (cases "payload_kind p = KIND_BIND") auto
  qed
qed

lemma mirror_mirror [simp]: "mirror_protection (mirror_protection P) = P"
  by (cases P) simp_all

lemma borrowed_into_owned: "into_owned q = p \<Longrightarrow> borrowed p = q"
  by (cases q) (auto simp: voice_borrowed_def voice_into_owned_def split: voice_payload_ref.splits voice_payload.splits)

text \<open>A packet the other end sealed, with a fresh counter and past the gate, is accepted as what was sealed.\<close>

lemma handle_opened:
  assumes crypto: "aead_correct (aead_fns.truncate F)" "aead_exact (aead_fns.truncate F)" "hmac_is_32 F"
    and inv: "rinv q cs r" and s: "sessions r a = Some s"
    and packet: "seal_media_into F (mirror_protection (vs_protection s)) counter p = Inr packet" "ar_check (vs_recv_replay s) counter"
    and gate: "origin_gate origin (payload_kind p) a s r = Inr ()" and kind: "payload_kind p \<noteq> KIND_NAT_PROBE"
  shows "\<exists>opened replay'. handle_media_packet io F origin r packet
      = accept_packet io F origin packet (payload_kind p) a s opened replay' r
    \<and> or_payload opened = borrowed p \<and> or_address_proof opened = expected_proof (vs_protection s) p"
proof -
  let ?P = "vs_protection s"
  from open_sealed_in_place [OF crypto packet] obtain replay' where
    "open_media F ?P (vs_recv_replay s) packet = (Inr (opens_to ?P counter p), replay')" by blast
  then obtain opened where opened: "open_media_in_place F ?P (vs_recv_replay s) packet = (Inr opened, replay')"
    and om: "or_header opened = om_header (opens_to ?P counter p)" "into_owned (or_payload opened) = p"
      "or_address_proof opened = expected_proof ?P p"
    using open_in_place_agrees [of F ?P "vs_recv_replay s" packet]
    by (auto simp: opens_to_def split: prod.splits sum.splits)
  then obtain header body where h: "parse_header packet = Inr (header, body)"
    by (auto simp: open_media_in_place_def split: sum.splits)
  have hd: "uh_kind header = payload_kind p" "uh_route_id header = protection_route_id ?P"
    using om(1) opened_header [OF opened h] by (simp_all add: opens_to_def)
  have "sessions_ok (view r)" using inv by (simp add: rinv_def view_inv_def)
  from sessions_okD(4) [OF this, of a "session_view_of s"] s hd have "route_to_session r (uh_route_id header) = Some a"
    by (simp add: view_select session_view_of_def)
  then have "handle_media_packet io F origin r packet = accept_packet io F origin packet (payload_kind p) a s opened replay' r"
    using h hd s gate opened kind unfolding accept_packet_def by (simp add: handle_media_packet_def)
  with om(3) borrowed_into_owned [OF om(2), symmetric] show ?thesis by (intro exI [of _ opened] exI [of _ replay']) simp
qed

text \<open>
  C21. Voice end to end. A packet that a client sealed for its voice stream is accepted by the relay, and
  for every other session in the room that is reached by datagrams, one is sent to its address which
  that session's client opens to exactly the sender's stream, sequence, timestamp, flags and sound,
  whatever its replay window, as long as the window has not seen the counter.
\<close>

theorem voice_end_to_end:
  assumes crypto: "aead_correct (aead_fns.truncate F)" "aead_exact (aead_fns.truncate F)" "hmac_is_32 F"
    and env: "relay_env_ok io F" and inv: "relay_inv r"
    and s: "sessions r a = Some s" "vs_route s = Some rt"
    and packet: "seal_media_into F (mirror_protection (vs_protection s)) counter
      (Voice (sr_stream_id rt) sequence timestamp flags voice) = Inr packet" "ar_check (vs_recv_replay s) counter"
    and gate: "\<forall>rid key. vs_protection s = MediaClear rid key \<longrightarrow> vs_udp_addr s = Some src"
    and budget: "fst (admit_voice (fst (now_of io r)) (length packet) (vs_budget s))"
    and t: "sessions r b = Some t" "b \<noteq> a" "vs_route t = Some rt'" "sr_room_id rt' = sr_room_id rt"
      "vs_tcp_conn t = None" "vs_udp_addr t = Some addr"
    and out: "seal_media_into F (vs_protection t) (vs_send_counter t)
      (Voice (sr_stream_id rt) sequence timestamp flags voice) = Inr out"
  shows "\<exists>r'. handle_media_packet io F (Udp probe i src) r packet = (Inr (), r')
     \<and> (vs_udp_bind_index t, out, addr) \<in> set (udp_sent r')
     \<and> (\<forall>replay. ar_check replay (vs_send_counter t) \<longrightarrow>
          (\<exists>replay'. open_media F (mirror_protection (vs_protection t)) replay out =
             (Inr (opens_to (mirror_protection (vs_protection t)) (vs_send_counter t)
                (Voice (sr_stream_id rt) sequence timestamp flags voice)), replay')))"
proof -
  let ?P = "vs_protection s" and ?p = "Voice (sr_stream_id rt) sequence timestamp flags voice"
  let ?v = "VoiceRef (sr_stream_id rt) sequence timestamp flags (voice_borrowed voice)"
  have rinv: "rinv (length (filter is_attach (commands r))) (commands r) r" using inv by (simp add: relay_inv_def)
  have "origin_gate (Udp probe i src) (payload_kind ?p) a s r = Inr ()"
    using gate by (auto simp: origin_gate_def split: media_protection.splits)
  moreover have "payload_kind ?p \<noteq> KIND_NAT_PROBE" by (simp add: kind_defs)
  ultimately obtain opened replay' where
    h: "handle_media_packet io F (Udp probe i src) r packet
      = accept_packet io F (Udp probe i src) packet KIND_VOICE a s opened replay' r" "or_payload opened = ?v"
    using handle_opened [OF crypto rinv s(1) packet, of "Udp probe i src" io] by auto
  obtain changed s1 where na: "note_address (Udp probe i src) (or_address_proof opened) (s\<lparr>vs_recv_replay := replay'\<rparr>) = (changed, s1)"
    by fastforce
  obtain now r1 where now: "now_of io r = (now, r1)" by fastforce
  have b1: "vs_budget s1 = vs_budget s" "vs_route s1 = vs_route s"
    using na by (auto simp: note_address_def Let_def split: if_splits)
  obtain bud where bud: "admit_voice now (length packet) (vs_budget s1) = (True, bud)"
    using budget now b1 by (cases "admit_voice now (length packet) (vs_budget s1)") auto
  define r2 where "r2 = r1\<lparr>sessions := (sessions r1)(a \<mapsto>
      s1\<lparr>vs_budget := bud, vs_last_activity := now, vs_activity_dirty := True\<rparr>)\<rparr>"
  have r1: "sessions r1 = sessions r" "rinv (length (filter is_attach (commands r))) (commands r) r1"
    using now inv_now [OF now] rinv by (auto simp: now_of_def split: prod.splits)
  have inv2: "rinv (length (filter is_attach (commands r))) (commands r) r2"
    unfolding r2_def using note_address_view [OF na] r1 s by (intro inv_session [of _ _ _ _ s]) (simp_all add: session_view_of_def)
  have route2: "session_route_of a r2 = Some rt" using b1 s by (simp add: session_route_of_def r2_def)
  have handled: "handle_media_packet io F (Udp probe i src) r packet =
      (Inr (), relay_voice io F a (sr_stream_id rt) sequence timestamp flags (voice_borrowed voice) r2)"
    unfolding h(1) accept_packet_def using na now bud h(2)
    by (simp add: admit_kind_def dispatch_payload_def r2_def Let_def kind_defs)
  note spec = voice_recipients_spec [OF inv2, of a "sr_room_id rt"]
  have sent: "udp_sent (relay_voice io F a (sr_stream_id rt) sequence timestamp flags (voice_borrowed voice) r2) =
      udp_sent r2 @ concat (map (udp_datagram F ?v r2) (voice_recipients a (sr_room_id rt) r2))"
    using fan_out_sent [OF env inv2 spec(2)] route2 by (simp add: relay_voice_def)
  have "sessions r2 b = Some t" using t r1 by (simp add: r2_def)
  then have "b \<in> set (voice_recipients a (sr_room_id rt) r2)" and
    "udp_datagram F ?v r2 b = [(vs_udp_bind_index t, out, addr)]"
    using t out spec(1) by (auto simp: udp_datagram_def seal_media_into_def)
  then have "(vs_udp_bind_index t, out, addr) \<in> set (udp_sent
      (relay_voice io F a (sr_stream_id rt) sequence timestamp flags (voice_borrowed voice) r2))"
    unfolding sent by (simp, intro disjI2 bexI [of _ b]) simp_all
  moreover have "\<exists>replay'. open_media F (mirror_protection (vs_protection t)) replay out =
      (Inr (opens_to (mirror_protection (vs_protection t)) (vs_send_counter t) ?p), replay')"
    if "ar_check replay (vs_send_counter t)" for replay
    by (rule open_sealed_in_place [OF crypto _ that]) (use out in simp)
  ultimately show ?thesis using handled by blast
qed

section \<open>Bounds over a run\<close>

text \<open>The states a relay passes through, at the start of each round of its event loop.\<close>

inductive relay_reaches :: "'env relay_io \<Rightarrow> crypto_fns \<Rightarrow> 'env voice_relay \<Rightarrow> 'env voice_relay \<Rightarrow> bool"
  for io F r0 where
  start: "relay_reaches io F r0 r0"
| pass: "relay_reaches io F r0 r \<Longrightarrow> \<not> shutting_down r \<Longrightarrow> run_pass io F r = Some (res, r') \<Longrightarrow> relay_reaches io F r0 r'"

lemma relay_inv_new: "relay_inv (relay_new udp probe p2p now env)"
proof -
  have "view_inv 0 (view (relay_new udp probe p2p now env))"
    by (simp add: view_inv_def sessions_ok_def rooms_ok_def rooms_rep_def owners_ok_def lanes_ok_def permits_ok_def view_def
        relay_new_def in_room_def)
  then show ?thesis by (simp add: relay_inv_def rinv_def queues_ok_def list_all_iff) (simp add: relay_new_def)
qed

lemma reaches_inv:
  assumes "relay_env_ok io F" and "relay_reaches io F (relay_new udp probe p2p now env) r"
  shows "relay_inv r"
  using assms(2) by induction (auto intro: relay_inv_new relay_inv_run_pass [OF assms(1)])


text \<open>
  C26. What a connection can cost the relay is bounded at all times: at most 32 lanes wait for their \<open>Bind\<close>,
  counting those still queued for the event loop, there are never more than 1024 lanes, and the unsent
  bytes of a lane never exceed 32 KiB.
\<close>

theorem relay_lanes_bounded:
  assumes "relay_env_ok io F" and "relay_reaches io F (relay_new udp probe p2p now env) r"
  shows "length (filter (\<lambda>c. map_option vc_session c = Some None) (tcp_conns r)) + length (filter is_attach (commands r)) \<le> 32
     \<and> length (tcp_conns r) = 1024
     \<and> (\<forall>slot < 1024. \<forall>c. tcp_conns r ! slot = Some c \<longrightarrow> wq_len (vc_write_queue c) \<le> 32 * 1024)"
proof -
  have inv: "rinv (length (filter is_attach (commands r))) (commands r) r"
    using reaches_inv [OF assms] by (simp add: relay_inv_def)
  then have p: "permits_ok (length (filter is_attach (commands r))) (view r)" and l: "lanes_ok (view r)"
    by (simp_all add: rinv_def view_inv_def)
  have len: "length (tcp_conns r) = MAX_TCP_VOICE_CONNS" by (rule inv_lanes [OF inv])
  have "map_option vc_session c = Some None \<longleftrightarrow> holds_permit (map_option lane_view_of c)" if c: "c \<in> set (tcp_conns r)" for c
  proof -
    from c obtain slot where slot: "slot < MAX_TCP_VOICE_CONNS" "tcp_conns r ! slot = c" using len by (auto simp: in_set_conv_nth)
    show ?thesis
    proof (cases c)
      case (Some conn)
      with slot len have "v_lanes (view r) ! slot = Some (vc_session conn, vc_permit conn)"
        by (simp add: view_select lane_view_of_def)
      from lanes_okD(2) [OF l slot(1) this] Some show ?thesis by (simp add: lane_view_of_def)
    qed simp
  qed
  then have "filter (\<lambda>c. map_option vc_session c = Some None) (tcp_conns r)
      = filter (holds_permit \<circ> map_option lane_view_of) (tcp_conns r)"
    by (intro filter_cong) simp_all
  then have "length (filter (\<lambda>c. map_option vc_session c = Some None) (tcp_conns r))
      = length (filter holds_permit (v_lanes (view r)))" by (simp add: view_select filter_map)
  moreover have "wq_len (vc_write_queue c) \<le> 32 * 1024" if "slot < 1024" "tcp_conns r ! slot = Some c" for slot c
    using inv_queue [OF inv _ that(2)] that(1)
    by (simp add: queue_ok_def VOICE_TCP_WRITE_CAP_BYTES_def MAX_TCP_VOICE_CONNS_def MAX_SESSIONS_def)
  ultimately show ?thesis
    using p len by (simp add: permits_ok_def MAX_PENDING_TCP_VOICE_def MAX_TCP_VOICE_CONNS_def MAX_SESSIONS_def)
qed

lemma sweep_lanes: "tcp_conns (sweep_slot now n r) = tcp_conns r \<or> tcp_conns (sweep_slot now n r) = (tcp_conns r)[n := None]"
  by (auto simp: sweep_slot_def detach_fields split: option.splits)

definition overdue :: "nat \<Rightarrow> tcp_voice_conn \<Rightarrow> bool" where
  "overdue now c \<longleftrightarrow> vc_session c = None \<and> now - vc_attached_at c \<ge> VOICE_TCP_AUTH_TIMEOUT"

lemma sweep_keeps:
  assumes "tcp_conns (sweep_slot now n r) ! m = Some c"
  shows "tcp_conns r ! m = Some c"
  using assms sweep_lanes [of now n r] nth_update_None [of "tcp_conns r" n m] by auto

lemma sweep_all:
  "slot \<in> set ns \<Longrightarrow> slot < length (tcp_conns r) \<Longrightarrow> tcp_conns (fold (sweep_slot now) ns r) ! slot = Some c \<Longrightarrow> \<not> overdue now c"
proof (induction ns arbitrary: r)
  case (Cons n ns)
  let ?r = "sweep_slot now n r"
  have len: "length (tcp_conns ?r) = length (tcp_conns r)" using sweep_lanes [of now n r] by auto
  show ?case
  proof (cases "slot \<in> set ns")
    case True
    with Cons.IH [of ?r] Cons.prems(2,3) len show ?thesis by simp
  next
    case False
    with Cons.prems(1) have n: "n = slot" by auto
    have keep: "tcp_conns (fold (sweep_slot now) ks r') ! m = Some c \<Longrightarrow> tcp_conns r' ! m = Some c" for ks m and r' :: "'a voice_relay"
      by (induction ks arbitrary: r') (auto dest: sweep_keeps)
    from Cons.prems(3) have "tcp_conns ?r ! slot = Some c" by (auto dest: keep)
    moreover have "tcp_conns r ! slot = Some d \<Longrightarrow> overdue now d \<Longrightarrow> tcp_conns ?r ! slot = None" for d
      using Cons.prems(2) by (simp add: n sweep_slot_def overdue_def detach_fields)
    ultimately show ?thesis using sweep_keeps [of now n r slot c] by auto
  qed
qed simp

text \<open>
  C28. A lane that does not authenticate is closed: once the tick is due, it leaves no lane that has been
  waiting for its \<open>Bind\<close> for five seconds or more. The shortcut that skips the scan when no permit is held
  never spares one.
\<close>

theorem overdue_lanes_swept:
  assumes "relay_inv r" and "next_activity_flush r \<le> now" and "slot < MAX_TCP_VOICE_CONNS"
    and "tcp_conns (flush_activity now r) ! slot = Some c" and "vc_session c = None"
  shows "now < vc_attached_at c + 5000000000"
proof -
  let ?r = "r\<lparr>next_activity_flush := now + ACTIVITY_FLUSH_INTERVAL\<rparr>"
  have c: "tcp_conns (sweep_unbound_tcp_conns now ?r) ! slot = Some c"
    using assms(2,4) by (simp add: flush_activity_def Let_def)
  have inv: "rinv (length (filter is_attach (commands r))) (commands r) r" using assms(1) by (simp add: relay_inv_def)
  have len: "length (tcp_conns r) = MAX_TCP_VOICE_CONNS" by (rule inv_lanes [OF inv])
  have "handoff_held r \<noteq> 0"
  proof
    assume z: "handoff_held r = 0"
    then have "tcp_conns r ! slot = Some c" using c by (simp add: sweep_unbound_tcp_conns_def)
    then have v: "v_lanes (view r) ! slot = Some (None, vc_permit c)"
      using assms(3,5) len by (simp add: view_select lane_view_of_def)
    have ok: "lanes_ok (view r)" "permits_ok (length (filter is_attach (commands r))) (view r)"
      using inv by (simp_all add: rinv_def view_inv_def)
    from lanes_okD(2) [OF ok(1) assms(3) v] v have "holds_permit (v_lanes (view r) ! slot)" by simp
    moreover have "filter holds_permit (v_lanes (view r)) = []" using ok(2) z by (simp add: permits_ok_def view_select filter_map)
    moreover have "v_lanes (view r) ! slot \<in> set (v_lanes (view r))"
      using assms(3) len by (intro nth_mem) (simp add: view_select)
    ultimately show False by (simp add: filter_empty_conv)
  qed
  then have "tcp_conns (fold (sweep_slot now) [0..<length (tcp_conns r)] ?r) ! slot = Some c"
    using c by (simp add: sweep_unbound_tcp_conns_def)
  from sweep_all [OF _ _ this] assms(3,5) len have "\<not> overdue now c" by simp
  with assms(5) show ?thesis by (simp add: overdue_def VOICE_TCP_AUTH_TIMEOUT_def)
qed

section \<open>A round always ends\<close>

definition receives_end :: "'env relay_io \<Rightarrow> bool" where
  "receives_end io \<longleftrightarrow> (\<forall>s e n. \<exists>x. recv_retry (io_recv io s) e n = Some x)
     \<and> (\<forall>b e. \<exists>x. recv_datagram_with (io_recv_from io b) e = Some x)"

lemma receive_loop_returns: "receives_end io \<Longrightarrow> \<exists>r'. receive_loop n io F bit_no r = Some r'"
proof (induction n arbitrary: r)
  case (Suc n)
  obtain res e where res: "recv_datagram_with (io_recv_from io bit_no) (relay_env r) = Some (res, e)"
    using Suc.prems unfolding receives_end_def by (metis prod.exhaust)
  then show ?case using Suc by (cases res) (auto simp: Let_def split: option.splits)
qed simp

lemma receive_tcp_returns:
  assumes "receives_end io"
  shows "\<exists>r'. receive_tcp io F slot r = Some r'"
proof (cases "tcp_conns r ! slot")
  case None
  then show ?thesis by (simp add: receive_tcp_def)
next
  case (Some conn)
  have "\<forall>e n. \<exists>x. recv_retry (io_recv io (vc_socket conn)) e n = Some x" using assms by (simp add: receives_end_def)
  from read_into_buffer_total [OF this] obtain x where "read_into_buffer (io_recv io (vc_socket conn)) (relay_env r)
      (vc_read_buf conn) (vc_readiness conn) MAX_UDP_DATAGRAM_BYTES (ByteBudget VOICE_TCP_READ_BUDGET_BYTES) = Some x" by blast
  then show ?thesis
    using Some by (cases x; cases "fst x") (auto simp: receive_tcp_def Let_def split: prod.splits sum.splits)
qed

lemma drain_each_returns: "(\<And>n r. \<exists>r'. handle n r = Some r') \<Longrightarrow> \<exists>r'. drain_each io handle ns r = Some r'"
proof (induction ns arbitrary: r)
  case (Cons n ns)
  from Cons.prems obtain r1 where "handle n r = Some r1" by blast
  with Cons.IH [OF Cons.prems] show ?case by (simp add: Let_def)
qed simp

lemma read_words_returns: "receives_end io \<Longrightarrow> \<exists>r'. read_words io F ws r = Some r'"
proof (induction ws arbitrary: r)
  case (Cons w ws)
  from drain_each_returns [of "receive_tcp io F", OF receive_tcp_returns [OF Cons.prems]]
  obtain r2 where "drain_each io (receive_tcp io F) (map (\<lambda>b. w * 64 + b) (word_bits (tcp_read_work r ! w)))
      (r\<lparr>tcp_read_work := (tcp_read_work r)[w := 0]\<rparr>) = Some r2" by blast
  with Cons show ?case by (simp add: Let_def)
qed simp

text \<open>
  C29. A round of the event loop always ends: however much data its sockets offer, and whatever the
  packets do, one round returns, as long as no receive call is interrupted by signals for ever.
\<close>

theorem run_pass_returns:
  assumes "receives_end io"
  shows "\<exists>res r'. run_pass io F r = Some (res, r')"
proof -
  have "\<exists>r'. receive io F n r = Some r'" for n r
    using receive_loop_returns [OF assms] by (simp add: receive_def)
  from drain_each_returns [of "receive io F", OF this] obtain r2 where
    "drain_each io (receive io F) (word_bits (udp_work (drain_commands io r))) ((drain_commands io r)\<lparr>udp_work := 0\<rparr>) = Some r2"
    by blast
  moreover obtain r3 where "read_words io F [0..<SESSION_WORDS] r2 = Some r3" using read_words_returns [OF assms] by blast
  ultimately show ?thesis by (auto simp: run_pass_def Let_def split: prod.splits sum.splits)
qed

section \<open>A concrete relay\<close>

text \<open>Sockets that take every byte and offer none, and a control loop that first registers two sessions in one room.\<close>

definition demo_commands :: "voice_command list" where
  "demo_commands = [RegisterSession 7 3 (MediaClear 5 [9]), RegisterSession 8 4 (MediaClear 6 [8]),
     SetRoute 7 (Some \<lparr>sr_room_id = 2, sr_stream_id = 11\<rparr>), SetRoute 8 (Some \<lparr>sr_room_id = 2, sr_stream_id = 12\<rparr>)]"

definition demo_io :: "nat relay_io" where
  "demo_io = \<lparr>io_now = (\<lambda>e. (e, e)), io_recv = (\<lambda>s e n. (Inl WouldBlock, e)),
     io_send = (\<lambda>s e bs. (Inr (length bs), e)), io_register = (\<lambda>s e. (True, e)),
     io_recv_from = (\<lambda>b e. (Inl WouldBlock, e)), io_is_datagram_error = (\<lambda>e. False),
     io_control = (\<lambda>e. (if e = 0 then map Submit demo_commands else [], Suc e)),
     io_poll = (\<lambda>t e. (Inr [], e))\<rparr>"

definition demo_relay :: "nat voice_relay" where
  "demo_relay = fold (run_command demo_io) demo_commands (relay_new 1 False False 0 1)"

lemma demo_io_ok: "relay_env_ok demo_io demo_fns"
  using demo_fns_ok(3,4) by (simp add: relay_env_ok_def demo_io_def send_bounded_def)

lemma demo_io_ends: "receives_end demo_io"
  by (auto simp: receives_end_def demo_io_def recv_retry.simps recv_datagram_with.simps)

lemma demo_slots: "replicate MAX_SESSIONS x = x # x # replicate 1022 x"
proof -
  have n: "MAX_SESSIONS = Suc (Suc 1022)" by (simp add: MAX_SESSIONS_def)
  show ?thesis unfolding n replicate_Suc ..
qed

lemma demo_free:
  "first_free (replicate MAX_SESSIONS None) = Some 0" "first_free ((replicate MAX_SESSIONS None)[0 := Some x]) = Some 1"
  unfolding demo_slots by (simp_all add: first_free_def)

lemma demo_relay_inv: "relay_inv demo_relay"
proof -
  let ?r = "relay_new 1 False False 0 1 :: nat voice_relay"
  have "rinv 0 [] ?r" using relay_inv_new [of 1 False False 0 "1 :: nat"] by (simp add: relay_inv_def relay_new_def)
  moreover have "filter is_attach demo_commands = []" by (simp add: demo_commands_def)
  ultimately have "rinv 0 [] demo_relay" using inv_run_commands [of demo_commands "[]" ?r demo_io] by (simp add: demo_relay_def)
  then show ?thesis by (simp add: relay_inv_def rinv_def)
qed

lemma demo_sessions:
  "\<exists>s. sessions demo_relay 7 = Some s \<and> vs_protection s = MediaClear 5 [9] \<and> vs_recv_replay s = ar_new
     \<and> vs_route s = Some \<lparr>sr_room_id = 2, sr_stream_id = 11\<rparr> \<and> vs_udp_addr s = None \<and> vs_budget s = mb_new 1
     \<and> vs_tcp_conn s = None"
  "\<exists>s. sessions demo_relay 8 = Some s \<and> vs_protection s = MediaClear 6 [8] \<and> vs_send_counter s = 0
     \<and> vs_route s = Some \<lparr>sr_room_id = 2, sr_stream_id = 12\<rparr> \<and> vs_tcp_conn s = None"
  "route_to_session demo_relay 5 = Some 7"
  by (simp_all add: demo_relay_def demo_commands_def run_command_def register_session_def relay_new_def
      protection_route_id_def demo_free now_of_def demo_io_def set_route_def enter_room_def Let_def)


lemma demo_bind:
  "\<exists>packet r'. seal_media_into demo_fns (MediaClear 5 [9]) 0 Bind = Inr packet
     \<and> (\<exists>res. handle_media_packet demo_io demo_fns (Udp 0 1 (SockV4 1 2)) demo_relay packet = (res, r'))
     \<and> map_option path_of (sessions r' 7) = Some (Some (SockV4 1 2), 1, MediaClear 5 [9])"
proof -
  obtain packet where packet: "seal_media_into demo_fns (MediaClear 5 [9]) 0 Bind = Inr packet"
    by (auto simp: seal_media_clear encode_payload_def encode_payload_into_def encode_payload_ref_into_def
        rbind_def)
  obtain s where s: "sessions demo_relay 7 = Some s" "vs_protection s = MediaClear 5 [9]" "vs_recv_replay s = ar_new"
    "vs_udp_addr s = None" using demo_sessions(1) by blast
  have inv: "rinv (length (filter is_attach (commands demo_relay))) (commands demo_relay) demo_relay"
    using demo_relay_inv by (simp add: relay_inv_def)
  have "origin_gate (Udp 0 1 (SockV4 1 2)) (payload_kind Bind) 7 s demo_relay = Inr ()" by (simp add: origin_gate_def)
  moreover have "payload_kind Bind \<noteq> KIND_NAT_PROBE" by (simp add: kind_defs)
  ultimately obtain opened replay where h: "handle_media_packet demo_io demo_fns (Udp 0 1 (SockV4 1 2)) demo_relay packet
      = accept_packet demo_io demo_fns (Udp 0 1 (SockV4 1 2)) packet KIND_BIND 7 s opened replay demo_relay"
      "or_payload opened = BindRef" "or_address_proof opened = AuthenticatedAddressClaim"
    using handle_opened [OF demo_fns_ok(4,5,3) inv s(1), of 0 Bind packet "Udp 0 1 (SockV4 1 2)" demo_io] packet s(2,3)
    by (auto simp: ar_check_def ar_new_def expected_proof_def)
  obtain res r' where r': "accept_packet demo_io demo_fns (Udp 0 1 (SockV4 1 2)) packet KIND_BIND 7 s opened replay demo_relay = (res, r')"
    by fastforce
  then have "map_option path_of (sessions r' 7) = Some (Some (SockV4 1 2), 1, MediaClear 5 [9])"
    using h(2,3) s by (auto simp: accept_packet_def note_address_def now_of_def dispatch_payload_def path_of_def Let_def
        split: prod.splits if_splits)
  with packet h(1) r' show ?thesis by auto
qed

theorem udp_addr_authenticated_witness:
  "\<exists>packet counter p. seal_media_into demo_fns (MediaClear 5 [9]) counter p = Inr packet \<and> ar_check ar_new counter \<and> p = Bind"
proof -
  obtain packet r' res where d: "seal_media_into demo_fns (MediaClear 5 [9]) 0 Bind = Inr packet"
    "handle_media_packet demo_io demo_fns (Udp 0 1 (SockV4 1 2)) demo_relay packet = (res, r')"
    "map_option path_of (sessions r' 7) = Some (Some (SockV4 1 2), 1, MediaClear 5 [9])" using demo_bind by blast
  obtain s where s: "sessions demo_relay 7 = Some s" "vs_protection s = MediaClear 5 [9]" "vs_recv_replay s = ar_new"
    "vs_udp_addr s = None" using demo_sessions(1) by blast
  from d(3) obtain s' where s': "sessions r' 7 = Some s'" "path_of s' = (Some (SockV4 1 2), 1, MediaClear 5 [9])" by auto
  then have "path_of s' \<noteq> path_of s" using s(4) by (simp add: path_of_def)
  from udp_addr_authenticated [OF demo_fns_ok(4,5,3) d(2) s(1) s'(1) this] s(2,3) show ?thesis by auto
qed

text \<open>A lane handed over and attached, not bound yet.\<close>

definition demo_lane :: "nat voice_relay" where
  "demo_lane = (let r = control_step (Handoff 1 (SockV4 1 2) rb_new) demo_relay
     in fold (run_command demo_io) (commands r) (r\<lparr>commands := []\<rparr>))"

lemma demo_lane_inv: "relay_inv demo_lane"
proof -
  define r where "r = control_step (Handoff 1 (SockV4 1 2) rb_new) demo_relay"
  have "relay_inv r" using relay_inv_control_step [OF demo_relay_inv] by (simp add: r_def)
  then have "rinv (length (filter is_attach (commands r))) [] (r\<lparr>commands := []\<rparr>)"
    by (simp add: relay_inv_def rinv_def queues_ok_def)
  from inv_run_commands [OF this, of demo_io] have "rinv 0 [] demo_lane" by (simp add: demo_lane_def Let_def r_def)
  then show ?thesis by (simp add: relay_inv_def rinv_def)
qed

lemma demo_fields:
  "tcp_conns demo_relay = replicate MAX_TCP_VOICE_CONNS None" "commands demo_relay = []" "handoff_held demo_relay = 0"
  "relay_env demo_relay = 1" "next_activity_flush demo_relay = 1000000000" "\<not> shutting_down demo_relay" "udp_work demo_relay = 0"
  "tcp_read_work demo_relay = replicate SESSION_WORDS 0" "tcp_write_work demo_relay = replicate SESSION_WORDS 0"
  "event_buf demo_relay = ev_with_capacity"
  by (simp_all add: demo_relay_def demo_commands_def run_command_def register_session_def relay_new_def
      protection_route_id_def demo_free now_of_def demo_io_def set_route_def enter_room_def Let_def ACTIVITY_FLUSH_INTERVAL_def)

lemma demo_lane_conn:
  "\<exists>c. tcp_conns demo_lane ! 0 = Some c \<and> vc_session c = None \<and> vc_attached_at c = 1" "next_activity_flush demo_lane = 1000000000"
  "length (tcp_conns demo_lane) = 1024"
  by (simp_all add: demo_lane_def control_step_def reserve_handoff_def demo_fields MAX_PENDING_TCP_VOICE_def run_command_def
      attach_tcp_conn_def MAX_TCP_VOICE_CONNS_def demo_free now_of_def demo_io_def Let_def)
    (simp_all add: MAX_SESSIONS_def)

theorem lane_bind_authenticated_witness:
  "\<exists>packet res r'. seal_media_into demo_fns (MediaClear 5 [9]) 0 Bind = Inr packet
     \<and> handle_media_packet demo_io demo_fns (Tcp 0) demo_lane packet = (res, r')
     \<and> ((\<exists>e. res = Inl e) \<and> r' = demo_lane \<or>
        (\<exists>sid s. sessions demo_lane sid = Some s \<and> (\<forall>c. tcp_conns r' ! 0 = Some c \<longrightarrow> vc_session c = Some sid)))"
proof -
  obtain packet where p: "seal_media_into demo_fns (MediaClear 5 [9]) 0 Bind = Inr packet" using demo_bind by blast
  obtain res r' where h: "handle_media_packet demo_io demo_fns (Tcp 0) demo_lane packet = (res, r')" by fastforce
  obtain c where c: "tcp_conns demo_lane ! 0 = Some c" "vc_session c = None" using demo_lane_conn(1) by blast
  have "0 < length (tcp_conns demo_lane)" using demo_lane_conn(3) by simp
  from lane_bind_authenticated [OF demo_fns_ok(4,5,3) h this c] p h show ?thesis by blast
qed

theorem overdue_lanes_swept_witness:
  "\<exists>c. tcp_conns (flush_activity 1000000001 demo_lane) ! 0 = Some c \<and> 1000000001 < vc_attached_at c + 5000000000"
proof -
  obtain c where c: "tcp_conns demo_lane ! 0 = Some c" "vc_session c = None" "vc_attached_at c = 1"
    using demo_lane_conn(1) by blast
  have keep: "tcp_conns (fold (sweep_slot 1000000001) ns r) ! 0 = Some c" if "tcp_conns r ! 0 = Some c" for ns and r :: "nat voice_relay"
    using that
  proof (induction ns arbitrary: r)
    case (Cons n ns)
    have "tcp_conns (sweep_slot 1000000001 n r) ! 0 = Some c"
      using Cons.prems c by (cases "n = 0") (auto simp: sweep_slot_def VOICE_TCP_AUTH_TIMEOUT_def detach_fields split: option.splits)
    from Cons.IH [OF this] show ?case by simp
  qed simp
  have k: "tcp_conns (flush_activity 1000000001 demo_lane) ! 0 = Some c"
    using c(1) demo_lane_conn(2) by (simp add: flush_activity_def sweep_unbound_tcp_conns_def Let_def keep)
  from overdue_lanes_swept [OF demo_lane_inv _ _ k c(2)] demo_lane_conn(2) k show ?thesis
    by (simp add: MAX_TCP_VOICE_CONNS_def MAX_SESSIONS_def)
qed

theorem run_pass_returns_witness: "\<exists>res r'. run_pass demo_io demo_fns demo_lane = Some (res, r')"
  by (rule run_pass_returns [OF demo_io_ends])

theorem voice_reaches_room_witness:
  "8 \<in> set (voice_recipients 7 2 demo_relay) \<and> 7 \<notin> set (voice_recipients 7 2 demo_relay)"
proof -
  obtain s where s: "sessions demo_relay 7 = Some s" "vs_route s = Some \<lparr>sr_room_id = 2, sr_stream_id = 11\<rparr>"
    using demo_sessions(1) by blast
  from voice_reaches_room [OF demo_io_ok demo_relay_inv s] demo_sessions(2) show ?thesis by (auto simp: Let_def)
qed

lemma idle_words: "(replicate n x)[i := x] = replicate n x"
  by (cases "i < n") (simp_all add: list_update_same_conv list_update_beyond)

lemma idle_read_words:
  "tcp_read_work r = replicate SESSION_WORDS 0 \<Longrightarrow> \<forall>w \<in> set ws. w < SESSION_WORDS \<Longrightarrow> read_words io F ws r = Some r"
proof (induction ws)
  case (Cons w ws)
  have same: "r\<lparr>tcp_read_work := replicate SESSION_WORDS 0\<rparr> = r" using Cons.prems(1) by (cases r) simp
  with Cons show ?case by (simp add: word_bits.simps Let_def idle_words same)
qed simp

lemma idle_write_words:
  "tcp_write_work r = replicate SESSION_WORDS 0 \<Longrightarrow> \<forall>w \<in> set ws. w < SESSION_WORDS \<Longrightarrow> write_words io ws r = r"
proof (induction ws)
  case (Cons w ws)
  have same: "r\<lparr>tcp_write_work := replicate SESSION_WORDS 0\<rparr> = r" using Cons.prems(1) by (cases r) simp
  with Cons show ?case by (simp add: word_bits.simps Let_def idle_words same)
qed simp

lemma demo_drain: "drain_commands demo_io (relay_new 1 False False 0 0) = demo_relay"
proof -
  let ?r = "relay_new 1 False False 0 0 :: nat voice_relay"
  have "control_loop demo_io ?r = (relay_new 1 False False 0 1)\<lparr>commands := demo_commands\<rparr>"
    by (simp add: control_loop_def demo_io_def) (simp add: control_step_def demo_commands_def relay_new_def)
  moreover have "(relay_new 1 False False 0 1)\<lparr>commands := []\<rparr> = (relay_new 1 False False 0 1 :: nat voice_relay)"
    by (simp add: relay_new_def)
  ultimately show ?thesis by (simp add: drain_commands_def demo_relay_def Let_def)
qed

lemma demo_pass: "\<exists>r'. run_pass demo_io demo_fns (relay_new 1 False False 0 0) = Some (Inr (), r') \<and> sessions r' = sessions demo_relay"
proof -
  have w: "demo_relay\<lparr>udp_work := 0\<rparr> = demo_relay" using demo_fields(7) by (cases demo_relay) simp
  have n: "now_of demo_io demo_relay = (1, demo_relay)"
    using demo_fields(4) by (cases demo_relay) (simp add: now_of_def demo_io_def)
  have f: "flush_activity 1 demo_relay = demo_relay" by (simp add: flush_activity_def demo_fields)
  have s: "submit_all (events demo_relay) (event_buf demo_relay) = (events demo_relay, event_buf demo_relay)"
    by (simp add: submit_all_def demo_fields ev_is_empty_def ev_with_capacity_def)
  have e: "demo_relay\<lparr>events := events demo_relay, event_buf := event_buf demo_relay\<rparr> = demo_relay" by simp
  have t: "\<exists>timeout. poll_timeout demo_io demo_relay = (timeout, demo_relay)"
    by (simp add: poll_timeout_def n)
  then obtain timeout where p: "poll_timeout demo_io demo_relay = (timeout, demo_relay)" by blast
  have i: "io_poll demo_io timeout e = (Inr [], e)" for e by (simp add: demo_io_def)
  have u: "drain_each demo_io (receive demo_io demo_fns) (word_bits (udp_work demo_relay)) (demo_relay\<lparr>udp_work := 0\<rparr>) = Some demo_relay"
    by (simp add: demo_fields(7) w word_bits.simps)
  have rd: "read_words demo_io demo_fns [0..<SESSION_WORDS] demo_relay = Some demo_relay"
    by (rule idle_read_words) (simp_all add: demo_fields)
  have wr: "write_words demo_io [0..<SESSION_WORDS] demo_relay = demo_relay"
    by (rule idle_write_words) (simp_all add: demo_fields)
  have "run_pass demo_io demo_fns (relay_new 1 False False 0 0) = Some (Inr (), demo_relay\<lparr>relay_env := relay_env demo_relay\<rparr>)"
    unfolding run_pass_def Let_def demo_drain u option.case rd wr n prod.case f s e p i
    by (simp add: demo_fields(6) u rd wr n f s e p i)
  then show ?thesis by simp
qed

lemma demo_reaches:
  "\<exists>r'. relay_reaches demo_io demo_fns (relay_new 1 False False 0 0) r' \<and> sessions r' = sessions demo_relay"
proof -
  obtain r' where "run_pass demo_io demo_fns (relay_new 1 False False 0 0) = Some (Inr (), r')" "sessions r' = sessions demo_relay"
    using demo_pass by blast
  moreover have "\<not> shutting_down (relay_new 1 False False 0 0 :: nat voice_relay)" by (simp add: relay_new_def)
  ultimately show ?thesis using relay_reaches.pass [OF relay_reaches.start] by blast
qed


theorem relay_lanes_bounded_witness:
  "\<exists>r'. relay_reaches demo_io demo_fns (relay_new 1 False False 0 0) r' \<and> length (tcp_conns r') = 1024"
proof -
  obtain r' where r': "relay_reaches demo_io demo_fns (relay_new 1 False False 0 0) r'" using demo_reaches by blast
  with relay_lanes_bounded [OF demo_io_ok r'] show ?thesis by blast
qed


text \<open>The two sessions with their addresses known.\<close>

lemma demo_talk:
  "\<exists>(s :: voice_session) (t :: voice_session) (r :: nat voice_relay). relay_inv r \<and> sessions r 7 = Some s \<and> sessions r 8 = Some t
     \<and> vs_protection s = MediaClear 5 [9] \<and> vs_route s = Some \<lparr>sr_room_id = 2, sr_stream_id = 11\<rparr> \<and> vs_recv_replay s = ar_new
     \<and> vs_udp_addr s = Some (SockV4 1 2) \<and> vs_budget s = mb_new 1 \<and> relay_env r = 1
     \<and> vs_protection t = MediaClear 6 [8] \<and> vs_route t = Some \<lparr>sr_room_id = 2, sr_stream_id = 12\<rparr> \<and> vs_tcp_conn t = None
     \<and> vs_udp_addr t = Some (SockV4 3 4) \<and> vs_send_counter t = 0"
proof -
  obtain s where s: "sessions demo_relay 7 = Some s" "vs_protection s = MediaClear 5 [9]" "vs_recv_replay s = ar_new"
    "vs_route s = Some \<lparr>sr_room_id = 2, sr_stream_id = 11\<rparr>" "vs_budget s = mb_new 1" using demo_sessions(1) by blast
  obtain t where t: "sessions demo_relay 8 = Some t" "vs_protection t = MediaClear 6 [8]" "vs_send_counter t = 0"
    "vs_route t = Some \<lparr>sr_room_id = 2, sr_stream_id = 12\<rparr>" "vs_tcp_conn t = None" using demo_sessions(2) by blast
  let ?s = "s\<lparr>vs_udp_addr := Some (SockV4 1 2)\<rparr>" and ?t = "t\<lparr>vs_udp_addr := Some (SockV4 3 4)\<rparr>"
  define r1 where "r1 = demo_relay\<lparr>sessions := (sessions demo_relay)(7 \<mapsto> ?s)\<rparr>"
  define r where "r = r1\<lparr>sessions := (sessions r1)(8 \<mapsto> ?t)\<rparr>"
  have "rinv q cs r1" if "rinv q cs demo_relay" for q cs
    unfolding r1_def by (rule inv_session [OF that s(1)]) (simp add: session_view_of_def)
  then have "rinv q cs r" if "rinv q cs demo_relay" for q cs
    unfolding r_def using that t(1) by (intro inv_session [of _ _ _ _ t]) (simp_all add: session_view_of_def r1_def)
  then have "relay_inv r" using demo_relay_inv by (intro relay_inv_keeps [OF demo_relay_inv])
  then show ?thesis using s t demo_fields(4) by (intro exI [of _ ?s] exI [of _ ?t] exI [of _ r]) (simp add: r_def r1_def)
qed

theorem voice_end_to_end_witness:
  "\<exists>(r :: nat voice_relay) r' packet out. seal_media_into demo_fns (MediaClear 5 [9]) 1 (Voice 11 1 960 0 Silence) = Inr packet
     \<and> handle_media_packet demo_io demo_fns (Udp 0 0 (SockV4 1 2)) r packet = (Inr (), r')
     \<and> (\<exists>i. (i, out, SockV4 3 4) \<in> set (udp_sent r'))
     \<and> (\<exists>replay'. open_media demo_fns (MediaClear 6 [8]) ar_new out =
          (Inr (opens_to (MediaClear 6 [8]) 0 (Voice 11 1 960 0 Silence)), replay'))"
proof -
  let ?p = "Voice 11 1 960 0 Silence"
  obtain r :: "nat voice_relay" and s t where d: "relay_inv r" "sessions r 7 = Some s" "sessions r 8 = Some t"
    "vs_protection s = MediaClear 5 [9]" "vs_route s = Some \<lparr>sr_room_id = 2, sr_stream_id = 11\<rparr>" "vs_recv_replay s = ar_new"
    "vs_udp_addr s = Some (SockV4 1 2)" "vs_budget s = mb_new 1" "relay_env r = 1"
    "vs_protection t = MediaClear 6 [8]" "vs_route t = Some \<lparr>sr_room_id = 2, sr_stream_id = 12\<rparr>" "vs_tcp_conn t = None"
    "vs_udp_addr t = Some (SockV4 3 4)" "vs_send_counter t = 0" using demo_talk by blast
  obtain plain where plain: "encode_payload ?p = Inr plain" "length plain \<le> 1200"
    using encode_payload_fits [of ?p]
    by (auto simp: encode_payload_def encode_payload_into_def encode_payload_ref_into_def rbind_def SAFE_UDP_PAYLOAD_BYTES_def
        encode_voice_payload_def voice_borrowed_def)
  obtain packet where packet: "seal_media_into demo_fns (MediaClear 5 [9]) 1 ?p = Inr packet" "length packet \<le> 2000"
    using plain by (auto simp: seal_media_clear kind_defs)
  obtain out where out: "seal_media_into demo_fns (MediaClear 6 [8]) 0 ?p = Inr out" using plain by (auto simp: seal_media_clear)
  have now: "fst (now_of demo_io r) = 1" using d(9) by (simp add: now_of_def demo_io_def)
  have bud: "fst (admit_voice 1 (length packet) (mb_new 1))"
    using packet(2) by (simp add: admit_voice_def mb_new_def tb_new_def tb_available_def tb_refill_def tb_take_def tb_total_def
        tb_gain_def Let_def U32_MAX_def VOICE_INGRESS_BYTES_PER_SEC_def VOICE_INGRESS_PACKETS_PER_SEC_def)
  have fresh: "ar_check ar_new 1" by code_simp
  have "\<exists>r'. handle_media_packet demo_io demo_fns (Udp 0 0 (SockV4 1 2)) r packet = (Inr (), r')
     \<and> (vs_udp_bind_index t, out, SockV4 3 4) \<in> set (udp_sent r')
     \<and> (\<forall>replay. ar_check replay (vs_send_counter t) \<longrightarrow>
          (\<exists>replay'. open_media demo_fns (mirror_protection (vs_protection t)) replay out =
             (Inr (opens_to (mirror_protection (vs_protection t)) (vs_send_counter t)
                (Voice (sr_stream_id \<lparr>sr_room_id = 2, sr_stream_id = 11\<rparr>) 1 960 0 Silence)), replay')))"
    by (rule voice_end_to_end [OF demo_fns_ok(4,5,3) demo_io_ok d(1,2,5) _ _ _ _ d(3) _ d(11) _ d(12,13)])
      (use d packet out now bud fresh in simp_all)
  moreover have "ar_check ar_new 0" by (simp add: ar_check_def ar_new_def)
  ultimately show ?thesis using packet(1) d(10,14) by fastforce
qed

end
