(* ===== verification/Video.thy ===== *)
theory Video
  imports Buffers Handshake
begin

text \<open>
  The dedicated screen-share connection: plaintext video frames
  (\<open>crates/video/src/video.rs\<close>), and the outer records, the connection's authentication message,
  the shared frame windows and the exact per-record reader of \<open>crates/rpc/src/video.rs\<close>.

  An \<open>i64\<close> time stamp is a 64-bit word; where the code compares two of them the model reads them
  with \<open>sint\<close>. The records are one more interpretation of the interface \<open>length_framing\<close>, and the
  reader, which never buffers a byte of a following record, refines the parser of that interface.
\<close>

section \<open>Definitions\<close>

subsection \<open>Plaintext frames\<close>

type_synonym i64 = "64 word"

definition VIDEO_FRAME_HEADER_LEN :: nat where "VIDEO_FRAME_HEADER_LEN = 17"
definition VIDEO_FRAME_FLAG_KEY :: byte where "VIDEO_FRAME_FLAG_KEY = 1"
definition VIDEO_FRAME_FLAG_BOOTSTRAP_END :: byte where "VIDEO_FRAME_FLAG_BOOTSTRAP_END = 2"
definition MAX_VIDEO_RECORD_LEN :: nat where "MAX_VIDEO_RECORD_LEN = 8 * 1024 * 1024"
definition MAX_RECORD_OVERHEAD :: nat where "MAX_RECORD_OVERHEAD = 32"
definition MAX_VIDEO_FRAME_LEN :: nat where "MAX_VIDEO_FRAME_LEN = MAX_VIDEO_RECORD_LEN - MAX_RECORD_OVERHEAD"
definition FAST_START_MAX_FRAMES :: nat where "FAST_START_MAX_FRAMES = 300"

lemmas video_consts = VIDEO_FRAME_HEADER_LEN_def VIDEO_FRAME_FLAG_KEY_def VIDEO_FRAME_FLAG_BOOTSTRAP_END_def
  MAX_VIDEO_RECORD_LEN_def MAX_RECORD_OVERHEAD_def MAX_VIDEO_FRAME_LEN_def FAST_START_MAX_FRAMES_def

record video_frame_header =
  vh_size :: nat
  vh_ts_ms :: i64
  vh_is_key :: bool
  vh_bootstrap_end :: bool
  vh_stream_id :: u32

record video_frame =
  vf_ts_ms :: i64
  vf_is_key :: bool
  vf_bootstrap_end :: bool
  vf_stream_id :: u32
  vf_data :: bytes

datatype video_frame_error = Video_TooLarge | Video_LengthOverflow | Video_BadHeader

definition write_video_frame :: "bytes \<Rightarrow> i64 \<Rightarrow> bool \<Rightarrow> u32 \<Rightarrow> bytes \<Rightarrow> bytes" where
  "write_video_frame out ts_ms is_key stream_id body =
     out @ to_le 4 (of_nat (length body + VIDEO_FRAME_HEADER_LEN) :: u32) @ to_le 8 ts_ms
       @ [if is_key then VIDEO_FRAME_FLAG_KEY else 0] @ to_le 4 stream_id @ body"

definition write_video_bootstrap_end :: "bytes \<Rightarrow> u32 \<Rightarrow> bytes" where
  "write_video_bootstrap_end out stream_id =
     out @ to_le 4 (of_nat VIDEO_FRAME_HEADER_LEN :: u32) @ to_le 8 (0 :: i64)
       @ [VIDEO_FRAME_FLAG_BOOTSTRAP_END] @ to_le 4 stream_id"

definition encode_video_bootstrap_end :: "u32 \<Rightarrow> bytes" where
  "encode_video_bootstrap_end stream_id = write_video_bootstrap_end [] stream_id"

definition encode_video_frame :: "i64 \<Rightarrow> bool \<Rightarrow> u32 \<Rightarrow> bytes \<Rightarrow> bytes" where
  "encode_video_frame ts_ms is_key stream_id body = write_video_frame [] ts_ms is_key stream_id body"

definition parse_video_frame_header :: "bytes \<Rightarrow> (video_frame_error, video_frame_header option) result" where
  "parse_video_frame_header buffer =
     (if length buffer < VIDEO_FRAME_HEADER_LEN then Inr None
      else
        let size = unat (from_le (subslice 0 4 buffer) :: u32) in
        if size < VIDEO_FRAME_HEADER_LEN then Inl Video_BadHeader
        else if size > MAX_VIDEO_FRAME_LEN then Inl Video_TooLarge
        else
          let flag = buffer ! 12 in
          rbind (if flag = 0 then Inr (False, False)
                 else if flag = VIDEO_FRAME_FLAG_KEY then Inr (True, False)
                 else if flag = VIDEO_FRAME_FLAG_BOOTSTRAP_END \<and> size = VIDEO_FRAME_HEADER_LEN then Inr (False, True)
                 else Inl Video_BadHeader)
            (\<lambda>(is_key, bootstrap_end).
               Inr (Some \<lparr>vh_size = size, vh_ts_ms = from_le (subslice 4 12 buffer), vh_is_key = is_key,
                          vh_bootstrap_end = bootstrap_end, vh_stream_id = from_le (subslice 13 17 buffer)\<rparr>)))"

definition parse_video_frame :: "bytes \<Rightarrow> (video_frame_error, (video_frame \<times> nat) option) result" where
  "parse_video_frame buffer =
     rbind (parse_video_frame_header buffer) (\<lambda>h.
       case h of
         None \<Rightarrow> Inr None
       | Some header \<Rightarrow>
           if length buffer < vh_size header then Inr None
           else Inr (Some (\<lparr>vf_ts_ms = vh_ts_ms header, vf_is_key = vh_is_key header,
                            vf_bootstrap_end = vh_bootstrap_end header, vf_stream_id = vh_stream_id header,
                            vf_data = subslice VIDEO_FRAME_HEADER_LEN (vh_size header) buffer\<rparr>,
                           vh_size header)))"

subsection \<open>Authentication of a plaintext video connection\<close>

definition VIDEO_MAGIC :: bytes where "VIDEO_MAGIC = ascii_bytes ''CHTVID01''"
definition VIDEO_LENGTH_PREFIX_LEN :: nat where "VIDEO_LENGTH_PREFIX_LEN = 4"
definition MAX_VIDEO_HELLO_BYTES :: nat where "MAX_VIDEO_HELLO_BYTES = 4 * 1024"

datatype video_role = Publisher | Subscriber

fun proof_byte :: "video_role \<Rightarrow> byte" where
  "proof_byte Publisher = 0"
| "proof_byte Subscriber = 1"

definition video_auth_message :: "u64 \<Rightarrow> u32 \<Rightarrow> video_role \<Rightarrow> transport_mode \<Rightarrow> bytes" where
  "video_auth_message session_id stream_id role mode =
     ascii_bytes ''chatt video auth proof v1'' @ to_le 8 session_id @ to_le 4 stream_id
       @ [proof_byte role] @ [wire_id mode]"

definition video_auth_proof ::
  "'x crypto_fns_scheme \<Rightarrow> bytes \<Rightarrow> u64 \<Rightarrow> u32 \<Rightarrow> video_role \<Rightarrow> transport_mode \<Rightarrow> bytes" where
  "video_auth_proof F vkey session_id stream_id role mode =
     auth_proof F vkey (video_auth_message session_id stream_id role mode)"

definition video_auth_proof_verify ::
  "'x crypto_fns_scheme \<Rightarrow> bytes \<Rightarrow> u64 \<Rightarrow> u32 \<Rightarrow> video_role \<Rightarrow> transport_mode \<Rightarrow> bytes \<Rightarrow> bool" where
  "video_auth_proof_verify F vkey session_id stream_id role mode tag =
     auth_proof_verify F vkey (video_auth_message session_id stream_id role mode) tag"

record video_hello =
  vhello_version :: u16
  vhello_session_id :: u64
  vhello_stream_id :: u32
  vhello_role :: video_role

datatype video_ack = Ack_Ok | Ack_Rejected

text \<open>The binary codec of \<open>jsony\<close> is the parameter \<open>from_binary\<close>; the length guard is the code's own.\<close>

definition decode_video_hello :: "(bytes \<Rightarrow> (string, video_hello) result) \<Rightarrow> bytes \<Rightarrow> (string, video_hello) result" where
  "decode_video_hello from_binary bs =
     (if length bs > MAX_VIDEO_HELLO_BYTES then Inl ''video hello exceeds maximum length'' else from_binary bs)"

definition decode_video_ack :: "(bytes \<Rightarrow> (string, video_ack) result) \<Rightarrow> bytes \<Rightarrow> (string, video_ack) result" where
  "decode_video_ack from_binary bs =
     (if length bs > MAX_VIDEO_HELLO_BYTES then Inl ''video ack exceeds maximum length'' else from_binary bs)"

subsection \<open>Shared frame windows\<close>

text \<open>
  A vector is its bytes and its capacity; \<open>alloc n\<close> is the capacity that \<open>Vec::with_capacity(n)\<close>
  gives, at least \<open>n\<close>. The counter of copy fallbacks is passed along.
\<close>

record vec =
  vec_data :: bytes
  vec_capacity :: nat

record shared_video_frame =
  sf_buf :: vec
  sf_off :: nat
  sf_len :: nat

definition sf_as_slice :: "shared_video_frame \<Rightarrow> bytes" where
  "sf_as_slice f = subslice (sf_off f) (sf_off f + sf_len f) (vec_data (sf_buf f))"

definition sf_is_empty :: "shared_video_frame \<Rightarrow> bool" where
  "sf_is_empty f \<longleftrightarrow> sf_len f = 0"

definition retained_bytes :: "shared_video_frame \<Rightarrow> nat" where
  "retained_bytes f = vec_capacity (sf_buf f)"

definition from_vec :: "vec \<Rightarrow> shared_video_frame" where
  "from_vec buf = \<lparr>sf_buf = buf, sf_off = 0, sf_len = length (vec_data buf)\<rparr>"

definition copy_from_slice :: "(nat \<Rightarrow> nat) \<Rightarrow> bytes \<Rightarrow> shared_video_frame" where
  "copy_from_slice alloc bs = from_vec \<lparr>vec_data = bs, vec_capacity = alloc (length bs)\<rparr>"

text \<open>\<open>None\<close> is the panic of the assertion on the window.\<close>

definition from_record :: "(nat \<Rightarrow> nat) \<Rightarrow> u64 \<Rightarrow> vec \<Rightarrow> nat \<Rightarrow> nat \<Rightarrow> (shared_video_frame \<times> u64) option" where
  "from_record alloc fallbacks buf off len =
     (if \<not> off + len \<le> length (vec_data buf) then None
      else
        let exact = (vec_capacity buf = length (vec_data buf));
            overhead_bounded = (length (vec_data buf) \<le> len + TRANSPORT_HEADER_LEN + TAG_LEN)
        in if exact \<and> overhead_bounded then Some (\<lparr>sf_buf = buf, sf_off = off, sf_len = len\<rparr>, fallbacks)
           else Some (copy_from_slice alloc (subslice off (off + len) (vec_data buf)), fallbacks + 1))"

subsection \<open>Outer records\<close>

definition write_record :: "bytes \<Rightarrow> bytes \<Rightarrow> (video_frame_error, bytes) result" where
  "write_record payload out =
     (if length payload > MAX_VIDEO_RECORD_LEN then Inl Video_TooLarge
      else if length payload \<ge> 2 ^ 32 then Inl Video_LengthOverflow
      else Inr (out @ to_le 4 (of_nat (length payload) :: u32) @ payload))"

definition parse_record :: "video_frame_error frame_parser" where
  "parse_record buffer =
     (case get_range 0 VIDEO_LENGTH_PREFIX_LEN buffer of
        None \<Rightarrow> Inr None
      | Some prefix \<Rightarrow>
          let len = unat (from_le prefix :: u32) in
          if len > MAX_VIDEO_RECORD_LEN then Inl Video_TooLarge
          else
            let total = VIDEO_LENGTH_PREFIX_LEN + len in
            (case get_range VIDEO_LENGTH_PREFIX_LEN total buffer of
               None \<Rightarrow> Inr None
             | Some payload \<Rightarrow> Inr (Some (payload, total))))"

subsection \<open>The exact record reader\<close>

record video_record_reader =
  vr_prefix :: bytes
  vr_prefix_len :: nat
  vr_body :: bytes
  vr_target :: "nat option"

definition vr_new :: video_record_reader where
  "vr_new = \<lparr>vr_prefix = replicate VIDEO_LENGTH_PREFIX_LEN 0, vr_prefix_len = 0, vr_body = [], vr_target = None\<rparr>"

definition record_ready :: "video_record_reader \<Rightarrow> bool" where
  "record_ready r = (case vr_target r of None \<Rightarrow> False | Some target \<Rightarrow> length (vr_body r) = target)"

definition take_record :: "video_record_reader \<Rightarrow> bytes option \<times> video_record_reader" where
  "take_record r =
     (if \<not> record_ready r then (None, r)
      else (Some (vr_body r), r\<lparr>vr_target := None, vr_prefix_len := 0, vr_body := []\<rparr>))"

definition begin_body :: "video_record_reader \<Rightarrow> (video_frame_error, video_record_reader) result" where
  "begin_body r =
     (let len = unat (from_le (vr_prefix r) :: u32) in
      if len > MAX_VIDEO_RECORD_LEN then Inl Video_TooLarge
      else Inr (r\<lparr>vr_target := Some len\<rparr>))"

text \<open>\<open>prefix[at..at + bs.len()].copy_from_slice(bs)\<close> with the new prefix length.\<close>

definition put_prefix :: "bytes \<Rightarrow> video_record_reader \<Rightarrow> video_record_reader" where
  "put_prefix bs r =
     r\<lparr>vr_prefix := take (vr_prefix_len r) (vr_prefix r) @ bs @ drop (vr_prefix_len r + length bs) (vr_prefix r),
       vr_prefix_len := vr_prefix_len r + length bs\<rparr>"

text \<open>
  \<open>accept\<close>; the outer \<open>None\<close> is the panic of \<open>expect\<close>. On \<open>Inl\<close> the code leaves a reader with a
  whole prefix and no target, which its callers drop with the connection.
\<close>

definition vr_accept ::
  "video_record_reader \<Rightarrow> bytes \<Rightarrow> ((video_frame_error, nat) result \<times> video_record_reader) option" where
  "vr_accept r input =
     (if record_ready r \<or> input = [] then Some (Inr 0, r)
      else if vr_prefix_len r < VIDEO_LENGTH_PREFIX_LEN then
        let n = min (length input) (VIDEO_LENGTH_PREFIX_LEN - vr_prefix_len r);
            r1 = put_prefix (take n input) r
        in if vr_prefix_len r1 = VIDEO_LENGTH_PREFIX_LEN
           then (case begin_body r1 of Inl e \<Rightarrow> Some (Inl e, r1) | Inr r2 \<Rightarrow> Some (Inr n, r2))
           else Some (Inr n, r1)
      else
        case vr_target r of
          None \<Rightarrow> None
        | Some target \<Rightarrow>
            let n = min (length input) (target - length (vr_body r))
            in Some (Inr n, r\<lparr>vr_body := vr_body r @ take n input\<rparr>))"

text \<open>
  \<open>fill\<close>: one socket read towards the current record. \<open>None\<close> stands for not returning: the panic
  of \<open>expect\<close>, or a receive that is interrupted for ever.
\<close>

definition vr_fill :: "'env recv_fun \<Rightarrow> 'env \<Rightarrow> video_record_reader \<Rightarrow> nat
    \<Rightarrow> ((io_error, nat) result \<times> video_record_reader \<times> 'env) option" where
  "vr_fill recv env r max_read =
     (if vr_prefix_len r < VIDEO_LENGTH_PREFIX_LEN then
        (case recv_retry recv env (min (VIDEO_LENGTH_PREFIX_LEN - vr_prefix_len r) max_read) of
           None \<Rightarrow> None
         | Some (Inl e, env') \<Rightarrow> Some (Inl e, r, env')
         | Some (Inr bs, env') \<Rightarrow>
             let r1 = put_prefix bs r
             in if vr_prefix_len r1 = VIDEO_LENGTH_PREFIX_LEN
                then (case begin_body r1 of
                        Inl _ \<Rightarrow> Some (Inl InvalidData, r1, env')
                      | Inr r2 \<Rightarrow> Some (Inr (length bs), r2, env'))
                else Some (Inr (length bs), r1, env'))
      else
        case vr_target r of
          None \<Rightarrow> None
        | Some target \<Rightarrow>
            (case recv_retry recv env (min (target - length (vr_body r)) max_read) of
               None \<Rightarrow> None
             | Some (Inl e, env') \<Rightarrow> Some (Inl e, r, env')
             | Some (Inr bs, env') \<Rightarrow> Some (Inr (length bs), r\<lparr>vr_body := vr_body r @ bs\<rparr>, env')))"

subsection \<open>The record pump\<close>

type_synonym 'env record_pump_result =
  "((io_error, read_pump_outcome) result \<times> video_record_reader \<times> bool \<times> 'env) option"

function record_loop :: "'env recv_fun \<Rightarrow> nat \<Rightarrow> 'env \<Rightarrow> video_record_reader \<Rightarrow> bool
    \<Rightarrow> read_pump_outcome \<Rightarrow> 'env record_pump_result" where
  "record_loop recv byte_budget env r ready out =
     (if ready \<and> \<not> record_ready r \<and> bytes_read out < byte_budget then
        (case vr_fill recv env r (byte_budget - bytes_read out) of
           None \<Rightarrow> None
         | Some (Inl e, r', env') \<Rightarrow>
             if e = WouldBlock then Some (Inr out, r', False, env')
             else Some (Inl e, r', ready, env')
         | Some (Inr n, r', env') \<Rightarrow>
             if n = 0 then Some (Inr (out\<lparr>disconnected := True\<rparr>), r', False, env')
             else record_loop recv byte_budget env' r' ready (out\<lparr>bytes_read := bytes_read out + n\<rparr>))
      else Some (Inr out, r, ready, env))"
  by pat_completeness auto
termination
  by (relation "measure (\<lambda>(recv, byte_budget, env, r, ready, out). byte_budget - bytes_read out)") auto

declare record_loop.simps [simp del]

definition read_video_record ::
  "'env recv_fun \<Rightarrow> 'env \<Rightarrow> video_record_reader \<Rightarrow> bool \<Rightarrow> nat \<Rightarrow> 'env record_pump_result" where
  "read_video_record recv env r ready byte_budget =
     (case record_loop recv byte_budget env r ready \<lparr>bytes_read = 0, hit_limit = False, disconnected = False\<rparr> of
        Some (Inr out, r', ready', env') \<Rightarrow>
          let out' = (if ready' \<and> \<not> record_ready r' \<and> bytes_read out \<ge> byte_budget
                      then out\<lparr>hit_limit := True\<rparr> else out)
          in Some (Inr out', r', ready', env')
      | res \<Rightarrow> res)"

subsection \<open>The residual loop of a subscriber\<close>

text \<open>
  The loop of \<open>subscriber.rs\<close> that hands the bytes read past the handshake to the reader: accept,
  consume, take the record that became ready. \<open>None\<close> is a panic or a loop that never ends. The
  records are what \<open>forward_ready_record\<close> gets.
\<close>

partial_function (option) drain_residual ::
  "video_record_reader \<Rightarrow> bytes \<Rightarrow> (bytes list \<times> video_record_reader \<times> video_frame_error option) option" where
  "drain_residual r input =
     (if input = [] then Some ([], r, None)
      else
        case vr_accept r input of
          None \<Rightarrow> None
        | Some (Inl e, r') \<Rightarrow> Some ([], r', Some e)
        | Some (Inr n, r') \<Rightarrow>
            (case take_record r' of
               (None, r2) \<Rightarrow> drain_residual r2 (drop n input)
             | (Some p, r2) \<Rightarrow>
                 Option.bind (drain_residual r2 (drop n input))
                   (\<lambda>(ps, r3, err). Some (p # ps, r3, err))))"

fun drain_residuals ::
  "video_record_reader \<Rightarrow> bytes list \<Rightarrow> (bytes list \<times> video_record_reader \<times> video_frame_error option) option" where
  "drain_residuals r [] = Some ([], r, None)"
| "drain_residuals r (seg # segs) =
     (case drain_residual r seg of
        None \<Rightarrow> None
      | Some (ps, r', Some e) \<Rightarrow> Some (ps, r', Some e)
      | Some (ps, r', None) \<Rightarrow>
          (case drain_residuals r' segs of
             None \<Rightarrow> None
           | Some (qs, r2, err) \<Rightarrow> Some (ps @ qs, r2, err)))"

section \<open>The frame codec\<close>

text \<open>What the code can put on the wire for a frame, and the frames it can say.\<close>

definition wf_video_frame :: "video_frame \<Rightarrow> bool" where
  "wf_video_frame f \<longleftrightarrow> length (vf_data f) + VIDEO_FRAME_HEADER_LEN \<le> MAX_VIDEO_FRAME_LEN \<and>
     (vf_bootstrap_end f \<longrightarrow> \<not> vf_is_key f \<and> vf_data f = [])"

definition frame_flag :: "video_frame \<Rightarrow> byte" where
  "frame_flag f = (if vf_bootstrap_end f then VIDEO_FRAME_FLAG_BOOTSTRAP_END
                   else if vf_is_key f then VIDEO_FRAME_FLAG_KEY else 0)"

definition frame_bytes :: "video_frame \<Rightarrow> bytes" where
  "frame_bytes f = to_le 4 (of_nat (length (vf_data f) + VIDEO_FRAME_HEADER_LEN) :: u32) @ to_le 8 (vf_ts_ms f)
     @ frame_flag f # to_le 4 (vf_stream_id f) @ vf_data f"

lemma length_frame_bytes [simp]: "length (frame_bytes f) = VIDEO_FRAME_HEADER_LEN + length (vf_data f)"
  by (simp add: frame_bytes_def video_consts)

lemma encode_video_frame_bytes:
  "encode_video_frame ts k s body =
     frame_bytes \<lparr>vf_ts_ms = ts, vf_is_key = k, vf_bootstrap_end = False, vf_stream_id = s, vf_data = body\<rparr>"
  by (simp add: encode_video_frame_def write_video_frame_def frame_bytes_def frame_flag_def)

lemma encode_video_bootstrap_end_bytes:
  "encode_video_bootstrap_end s =
     frame_bytes \<lparr>vf_ts_ms = 0, vf_is_key = False, vf_bootstrap_end = True, vf_stream_id = s, vf_data = []\<rparr>"
  by (simp add: encode_video_bootstrap_end_def write_video_bootstrap_end_def frame_bytes_def frame_flag_def)

lemma frame_bytes_fields:
  assumes "length (vf_data f) + VIDEO_FRAME_HEADER_LEN \<le> MAX_VIDEO_FRAME_LEN"
  shows "unat (from_le (take 4 (frame_bytes f @ rest)) :: u32) = length (vf_data f) + 17"
    and "from_le (subslice 4 12 (frame_bytes f @ rest)) = vf_ts_ms f"
    and "(frame_bytes f @ rest) ! 12 = frame_flag f"
    and "from_le (subslice 13 17 (frame_bytes f @ rest)) = vf_stream_id f"
    and "subslice 17 (length (vf_data f) + 17) (frame_bytes f @ rest) = vf_data f"
proof -
  let ?size = "to_le 4 (of_nat (length (vf_data f) + 17) :: u32)" and ?ts = "to_le 8 (vf_ts_ms f)"
    and ?sid = "to_le 4 (vf_stream_id f)"
  have eq: "frame_bytes f @ rest = ?size @ ?ts @ [frame_flag f] @ ?sid @ vf_data f @ rest"
    by (simp add: frame_bytes_def VIDEO_FRAME_HEADER_LEN_def)
  show "unat (from_le (take 4 (frame_bytes f @ rest)) :: u32) = length (vf_data f) + 17"
    using assms unfolding eq by (simp add: unat_of_nat_u32 video_consts del: of_nat_add)
  show "from_le (subslice 4 12 (frame_bytes f @ rest)) = vf_ts_ms f"
    unfolding eq by (subst subslice_exact) simp_all
  show "(frame_bytes f @ rest) ! 12 = frame_flag f"
    unfolding eq by (simp add: nth_append)
  have "subslice 13 17 ((?size @ ?ts @ [frame_flag f]) @ ?sid @ vf_data f @ rest) = ?sid"
    by (rule subslice_exact) simp_all
  then show "from_le (subslice 13 17 (frame_bytes f @ rest)) = vf_stream_id f"
    unfolding eq by simp
  have "subslice 17 (length (vf_data f) + 17) ((?size @ ?ts @ [frame_flag f] @ ?sid) @ vf_data f @ rest) = vf_data f"
    by (rule subslice_exact) simp_all
  then show "subslice 17 (length (vf_data f) + 17) (frame_bytes f @ rest) = vf_data f"
    unfolding eq by simp
qed

lemma parse_header_frame_bytes:
  assumes "wf_video_frame f"
  shows "parse_video_frame_header (frame_bytes f @ rest) =
      Inr (Some \<lparr>vh_size = length (vf_data f) + 17, vh_ts_ms = vf_ts_ms f, vh_is_key = vf_is_key f,
                 vh_bootstrap_end = vf_bootstrap_end f, vh_stream_id = vf_stream_id f\<rparr>)"
proof -
  from assms have l: "length (vf_data f) + VIDEO_FRAME_HEADER_LEN \<le> MAX_VIDEO_FRAME_LEN"
    by (simp add: wf_video_frame_def)
  from assms frame_bytes_fields [OF l, of rest] l show ?thesis
    by (auto simp: parse_video_frame_header_def Let_def frame_flag_def wf_video_frame_def video_consts)
qed

lemma parse_frame_bytes:
  assumes "wf_video_frame f"
  shows "parse_video_frame (frame_bytes f @ rest) = Inr (Some (f, length (frame_bytes f)))"
proof -
  from assms have l: "length (vf_data f) + VIDEO_FRAME_HEADER_LEN \<le> MAX_VIDEO_FRAME_LEN"
    by (simp add: wf_video_frame_def)
  from parse_header_frame_bytes [OF assms, of rest] frame_bytes_fields(5) [OF l, of rest] show ?thesis
    by (simp add: parse_video_frame_def VIDEO_FRAME_HEADER_LEN_def add.commute)
qed

lemma parse_video_frame_header_of:
  assumes "parse_video_frame buf = Inr (Some (f, n))"
  shows "\<exists>h. parse_video_frame_header buf = Inr (Some h) \<and> vh_is_key h = vf_is_key f \<and>
    vh_bootstrap_end h = vf_bootstrap_end f \<and> vh_stream_id h = vf_stream_id f \<and> vh_ts_ms h = vf_ts_ms f \<and> vh_size h = n"
  using assms by (auto simp: parse_video_frame_def rbind_Inr_iff split: option.splits if_splits)

lemma parse_video_frame_header_Some:
  assumes "parse_video_frame_header buf = Inr (Some h)"
  shows "17 \<le> length buf" and "vh_size h = unat (from_le (take 4 buf) :: u32)" and "17 \<le> vh_size h"
    and "vh_size h \<le> MAX_VIDEO_FRAME_LEN"
    and "vh_ts_ms h = from_le (subslice 4 12 buf)" and "vh_stream_id h = from_le (subslice 13 17 buf)"
    and "buf ! 12 = (if vh_bootstrap_end h then VIDEO_FRAME_FLAG_BOOTSTRAP_END
                     else if vh_is_key h then VIDEO_FRAME_FLAG_KEY else 0)"
    and "vh_bootstrap_end h \<longrightarrow> \<not> vh_is_key h \<and> vh_size h = 17"
  using assms
  by (simp_all add: parse_video_frame_header_def Let_def VIDEO_FRAME_HEADER_LEN_def split: if_splits)
    (auto simp: video_consts)

lemma parse_video_frame_sound:
  assumes "parse_video_frame buf = Inr (Some (f, n))"
  shows "wf_video_frame f \<and> n \<le> length buf \<and> take n buf = frame_bytes f"
proof -
  from assms obtain h where h: "parse_video_frame_header buf = Inr (Some h)" and hn: "n = vh_size h" "n \<le> length buf"
    and hf: "vf_ts_ms f = vh_ts_ms h" "vf_is_key f = vh_is_key h" "vf_bootstrap_end f = vh_bootstrap_end h"
      "vf_stream_id f = vh_stream_id h" "vf_data f = subslice 17 n buf"
    by (auto simp: parse_video_frame_def rbind_Inr_iff VIDEO_FRAME_HEADER_LEN_def split: option.splits if_splits)
  note p = parse_video_frame_header_Some [OF h]
  have n: "n = unat (from_le (take 4 buf) :: u32)" "17 \<le> n" "n \<le> MAX_VIDEO_FRAME_LEN" "n \<le> length buf"
    using p(2-4) hn by simp_all
  have f: "vf_ts_ms f = from_le (subslice 4 12 buf)" "vf_stream_id f = from_le (subslice 13 17 buf)"
      "vf_data f = subslice 17 n buf"
    by (simp_all add: hf p(5,6))
  have flag: "buf ! 12 = frame_flag f" "vf_bootstrap_end f \<longrightarrow> \<not> vf_is_key f \<and> n = 17"
    using p(7,8) by (simp_all add: frame_flag_def hf hn)
  have d: "length (vf_data f) + 17 = n" using n by (simp add: f)
  have size: "to_le 4 (of_nat n :: u32) = subslice 0 4 buf"
    using n by (simp add: to_le_from_le_widths)
  have "frame_bytes f = subslice 0 4 buf @ subslice 4 12 buf @ subslice 12 13 buf @ subslice 13 17 buf @ subslice 17 n buf"
    unfolding frame_bytes_def VIDEO_FRAME_HEADER_LEN_def d size f
    using n subslice_single [of 12 buf "subslice 13 17 buf @ subslice 17 n buf"]
    by (simp add: to_le_from_le_widths flag(1) del: subslice_0) (simp only: subslice_0)
  also have "\<dots> = take n buf"
    using n(2) by (simp add: subslice_join del: subslice_0) simp
  finally have "frame_bytes f = take n buf" .
  moreover have "wf_video_frame f"
    using flag(2) n(3) d by (auto simp: wf_video_frame_def VIDEO_FRAME_HEADER_LEN_def)
  ultimately show ?thesis using n(4) by simp
qed

text \<open>
  C15. The video frame codec is exact. A buffer parses to a frame of \<open>n\<close> bytes if and only if its
  first \<open>n\<close> bytes are that frame's encoding, the frame fits the cap, and a bootstrap boundary has
  no body and is no keyframe; what \<open>encode_video_frame\<close> and \<open>encode_video_bootstrap_end\<close> write is
  that encoding.
\<close>

theorem video_frame_exact:
  "((parse_video_frame buf = Inr (Some (f, n))) =
     (wf_video_frame f \<and> n = length (frame_bytes f) \<and> n \<le> length buf \<and> take n buf = frame_bytes f)) \<and>
   encode_video_frame ts k s body =
     frame_bytes \<lparr>vf_ts_ms = ts, vf_is_key = k, vf_bootstrap_end = False, vf_stream_id = s, vf_data = body\<rparr> \<and>
   encode_video_bootstrap_end s =
     frame_bytes \<lparr>vf_ts_ms = 0, vf_is_key = False, vf_bootstrap_end = True, vf_stream_id = s, vf_data = []\<rparr>"
  (is "?parse = ?exact \<and> _")
proof -
  have "?parse = ?exact"
  proof
    assume ?parse
    from parse_video_frame_sound [OF this] show ?exact by (metis length_take min.absorb2)
  next
    assume ?exact
    then show ?parse using parse_frame_bytes [of f "drop n buf"] by (metis append_take_drop_id)
  qed
  then show ?thesis by (simp add: encode_video_frame_bytes encode_video_bootstrap_end_bytes)
qed

section \<open>Authentication messages\<close>

lemma proof_byte_inj [simp]: "proof_byte a = proof_byte b \<longleftrightarrow> a = b"
  by (cases a; cases b) simp_all

lemma wire_id_inj [simp]: "wire_id a = wire_id b \<longleftrightarrow> a = b"
  by (metis option.inject wire_id_inverse)

lemma video_auth_message_inj:
  "video_auth_message a b c d = video_auth_message a' b' c' d' \<longleftrightarrow> a = a' \<and> b = b' \<and> c = c' \<and> d = d'"
  by (auto simp: video_auth_message_def to_le_inj_widths)

section \<open>Shared windows\<close>

text \<open>
  A frame taken from a record shows exactly the plaintext window and pins little else: the
  allocation it keeps alive exceeds the frame by at most the transport header and tag, unless the
  window had to be copied, and then it is what the allocator gave for a vector of the frame's length.
\<close>

theorem from_record_bounded:
  assumes "from_record alloc fallbacks buf off len = Some (f, fallbacks')"
  shows "sf_as_slice f = subslice off (off + len) (vec_data buf) \<and> length (sf_as_slice f) = len \<and> sf_len f = len \<and>
    (retained_bytes f \<le> len + TRANSPORT_HEADER_LEN + TAG_LEN \<and> fallbacks' = fallbacks \<or>
     retained_bytes f = alloc len \<and> fallbacks' = fallbacks + 1)"
  using assms
  by (auto simp: from_record_def Let_def sf_as_slice_def retained_bytes_def copy_from_slice_def from_vec_def
      split: if_splits)

theorem from_record_bounded_witness:
  "retained_bytes (fst (the (from_record id 0 \<lparr>vec_data = replicate 30 7, vec_capacity = 64\<rparr> 8 5))) = 5"
proof -
  let ?f = "from_record id 0 \<lparr>vec_data = replicate 30 7, vec_capacity = 64\<rparr> 8 5"
  have f: "?f = Some (copy_from_slice id (replicate 5 7), 1)"
    by (simp add: from_record_def subslice_def)
  from from_record_bounded [OF f] show ?thesis
    unfolding f by (simp add: retained_bytes_def copy_from_slice_def from_vec_def)
qed

section \<open>Records are a length-prefixed lane\<close>

lemma write_record_Inr:
  "write_record p out = Inr out' \<longleftrightarrow> length p \<le> MAX_VIDEO_RECORD_LEN \<and> out' = out @ prefixed p"
  by (auto simp: write_record_def prefixed_def MAX_VIDEO_RECORD_LEN_def)

lemma parse_record_alt:
  "parse_record buf =
     (let len = unat (from_le (take 4 buf) :: u32) in
      if length buf < 4 then Inr None
      else if len > MAX_VIDEO_RECORD_LEN then Inl Video_TooLarge
      else if length buf < 4 + len then Inr None
      else Inr (Some (subslice 4 (4 + len) buf, 4 + len)))"
  by (auto simp: parse_record_def VIDEO_LENGTH_PREFIX_LEN_def get_range_def Let_def)

interpretation video_lane: length_framing write_record parse_record
  by (rule prefixed_framing [of MAX_VIDEO_RECORD_LEN])
    (simp_all add: write_record_Inr parse_record_alt MAX_VIDEO_RECORD_LEN_def)

section \<open>The reader refines the record parser\<close>

text \<open>The bytes of the current record that the reader holds, and its representation invariant.\<close>

definition vr_abs :: "video_record_reader \<Rightarrow> bytes" where
  "vr_abs r = take (vr_prefix_len r) (vr_prefix r) @ vr_body r"

definition vr_inv :: "video_record_reader \<Rightarrow> bool" where
  "vr_inv r \<longleftrightarrow> length (vr_prefix r) = 4 \<and>
     (if vr_prefix_len r < 4 then vr_target r = None \<and> vr_body r = []
      else vr_prefix_len r = 4 \<and> vr_target r = Some (unat (from_le (vr_prefix r) :: u32)) \<and>
           unat (from_le (vr_prefix r) :: u32) \<le> MAX_VIDEO_RECORD_LEN \<and>
           length (vr_body r) \<le> unat (from_le (vr_prefix r) :: u32))"

lemma vr_new_inv [simp]: "vr_inv vr_new" "vr_abs vr_new = []" "\<not> record_ready vr_new"
  by (simp_all add: vr_inv_def vr_abs_def vr_new_def record_ready_def VIDEO_LENGTH_PREFIX_LEN_def)

lemma vr_parse:
  assumes "vr_inv r"
  shows "parse_record (vr_abs r) =
    (if record_ready r then Inr (Some (vr_body r, length (vr_abs r))) else Inr None)"
  using assms
  by (auto simp: parse_record_alt vr_abs_def vr_inv_def record_ready_def Let_def subslice_def split: if_splits)

lemma take_record_inv:
  assumes "vr_inv r"
  shows "case take_record r of
      (None, r') \<Rightarrow> r' = r \<and> \<not> record_ready r
    | (Some p, r') \<Rightarrow> record_ready r \<and> p = vr_body r \<and> vr_inv r' \<and> vr_abs r' = [] \<and> \<not> record_ready r'"
  using assms by (auto simp: take_record_def vr_inv_def vr_abs_def record_ready_def split: if_splits)

lemma put_prefix_len [simp]: "vr_prefix_len (put_prefix bs r) = vr_prefix_len r + length bs"
  by (simp add: put_prefix_def)

lemma put_prefix_inv:
  assumes "vr_inv r" and "vr_prefix_len r < 4" and "vr_prefix_len r + length bs < 4"
  shows "vr_inv (put_prefix bs r) \<and> vr_abs (put_prefix bs r) = vr_abs r @ bs"
  using assms by (auto simp: vr_inv_def put_prefix_def vr_abs_def)

lemma put_prefix_full:
  assumes "vr_inv r" and "vr_prefix_len r < 4" and "vr_prefix_len r + length bs = 4"
  shows "case begin_body (put_prefix bs r) of
      Inl e \<Rightarrow> e = Video_TooLarge \<and> parse_record (vr_abs r @ bs) = Inl Video_TooLarge
    | Inr r' \<Rightarrow> vr_inv r' \<and> vr_abs r' = vr_abs r @ bs"
proof -
  have "vr_prefix (put_prefix bs r) = vr_abs r @ bs" "vr_body (put_prefix bs r) = []"
    "length (vr_abs r @ bs) = 4" "vr_prefix_len (put_prefix bs r) = 4"
    using assms by (auto simp: vr_inv_def put_prefix_def vr_abs_def)
  then show ?thesis
    by (auto simp: begin_body_def Let_def vr_inv_def vr_abs_def [of "_\<lparr>vr_target := _\<rparr>"] parse_record_alt
        split: sum.splits if_splits)
qed

text \<open>
  One step towards the current record, whether the bytes come from a buffer or from the socket:
  \<open>took r bs r'\<close> says that \<open>bs\<close> was added to the record.
\<close>

definition took :: "video_record_reader \<Rightarrow> bytes \<Rightarrow> video_record_reader \<Rightarrow> bool" where
  "took r bs r' \<longleftrightarrow> vr_inv r' \<and> vr_abs r' = vr_abs r @ bs"

lemma body_took:
  assumes "vr_inv r" and "vr_target r = Some target" and "length bs \<le> target - length (vr_body r)"
  shows "took r bs (r\<lparr>vr_body := vr_body r @ bs\<rparr>)"
  using assms by (auto simp: took_def vr_inv_def vr_abs_def split: if_splits)

lemma vr_inv_target: "vr_inv r \<Longrightarrow> \<not> vr_prefix_len r < 4 \<Longrightarrow> \<exists>t. vr_target r = Some t \<and> length (vr_body r) \<le> t"
  by (auto simp: vr_inv_def)

lemma vr_accept_ok:
  assumes "vr_inv r" and "\<not> record_ready r" and "input \<noteq> []"
  shows "(\<exists>n r'. vr_accept r input = Some (Inr n, r') \<and> 0 < n \<and> n \<le> length input \<and> took r (take n input) r') \<or>
         (\<exists>n r'. vr_accept r input = Some (Inl Video_TooLarge, r') \<and>
            parse_record (vr_abs r @ take n input) = Inl Video_TooLarge)"
proof (cases "vr_prefix_len r < 4")
  case False
  with vr_inv_target [OF assms(1)] obtain t where t: "vr_target r = Some t" "length (vr_body r) \<le> t" by auto
  with assms(2) have "length (vr_body r) < t" by (auto simp: record_ready_def)
  let ?n = "min (length input) (t - length (vr_body r))"
  have "vr_accept r input = Some (Inr ?n, r\<lparr>vr_body := vr_body r @ take ?n input\<rparr>)"
    using False assms(2,3) t by (simp add: vr_accept_def VIDEO_LENGTH_PREFIX_LEN_def Let_def)
  moreover have "took r (take ?n input) (r\<lparr>vr_body := vr_body r @ take ?n input\<rparr>)"
    by (rule body_took [OF assms(1) t(1)]) simp
  moreover have "0 < ?n" using assms(3) \<open>length (vr_body r) < t\<close> by simp
  ultimately show ?thesis by (intro disjI1 exI [of _ ?n]) simp
next
  case True
  define n where "n = min (length input) (4 - vr_prefix_len r)"
  let ?r = "put_prefix (take n input) r"
  have n: "0 < n" "n \<le> length input" "length (take n input) = n" "vr_prefix_len r + n \<le> 4"
    using assms(3) True by (auto simp: n_def)
  have acc: "vr_accept r input =
      (if vr_prefix_len r + n = 4 then case begin_body ?r of Inl e \<Rightarrow> Some (Inl e, ?r) | Inr r2 \<Rightarrow> Some (Inr n, r2)
       else Some (Inr n, ?r))"
    using True assms(2,3) n(2)
    by (simp add: vr_accept_def VIDEO_LENGTH_PREFIX_LEN_def Let_def flip: n_def)
  show ?thesis
  proof (cases "vr_prefix_len r + n = 4")
    case False
    with n put_prefix_inv [OF assms(1) True, of "take n input"] show ?thesis
      by (intro disjI1 exI [of _ n] exI [of _ ?r]) (simp add: acc took_def)
  next
    case full: True
    show ?thesis
    proof (cases "begin_body ?r")
      case (Inl e)
      with put_prefix_full [OF assms(1) True, of "take n input"] n full
      show ?thesis by (intro disjI2 exI [of _ n] exI [of _ ?r]) (simp add: acc)
    next
      case (Inr r2)
      with put_prefix_full [OF assms(1) True, of "take n input"] n full
      show ?thesis by (intro disjI1 exI [of _ n] exI [of _ r2]) (simp add: acc took_def)
    qed
  qed
qed

lemma drain_residual_refines:
  assumes "vr_inv r" and "\<not> record_ready r" and "length (vr_abs r @ input) < k"
    and "drain_frames k parse_record (vr_abs r @ input) = (ps, rest, err)"
  shows "\<exists>r'. drain_residual r input = Some (ps, r', err) \<and>
           (err = None \<longrightarrow> vr_inv r' \<and> \<not> record_ready r' \<and> vr_abs r' = rest)"
  using assms
proof (induction "length input" arbitrary: r input k ps rule: less_induct)
  case less
  from less.prems(3) obtain k' where k: "k = Suc k'" by (cases k) auto
  show ?case
  proof (cases "input = []")
    case True
    with less.prems vr_parse [OF less.prems(1)] k show ?thesis
      by (subst drain_residual.simps) auto
  next
    case False
    from vr_accept_ok [OF less.prems(1,2) False] show ?thesis
    proof (elim disjE exE conjE)
      fix n r'
      assume acc: "vr_accept r input = Some (Inl Video_TooLarge, r')"
        and "parse_record (vr_abs r @ take n input) = Inl Video_TooLarge"
      from video_lane.parse_err_stable [OF this(2), of "drop n input"]
      have "parse_record (vr_abs r @ input) = Inl Video_TooLarge" by simp
      with less.prems(4) k acc False show ?thesis by (subst drain_residual.simps) auto
    next
      fix n r'
      assume acc: "vr_accept r input = Some (Inr n, r')" and n: "0 < n" "n \<le> length input"
        and took: "took r (take n input) r'"
      have r': "vr_inv r'" "vr_abs r' = vr_abs r @ take n input" using took by (simp_all add: took_def)
      have whole: "vr_abs r' @ drop n input = vr_abs r @ input" by (simp add: r'(2))
      have shorter: "length (drop n input) < length input" using n by simp
      note tr = take_record_inv [OF r'(1)]
      show ?thesis
      proof (cases "record_ready r'")
        case False
        then have t: "take_record r' = (None, r')" by (simp add: take_record_def)
        have "drain_residual r input = drain_residual r' (drop n input)"
          using acc t \<open>input \<noteq> []\<close> by (subst drain_residual.simps) simp
        with less.hyps [OF shorter r'(1) False, of k ps] less.prems(3,4) show ?thesis
          by (simp only: whole)
      next
        case True
        then obtain r2 where t: "take_record r' = (Some (vr_body r'), r2)"
          and r2: "vr_inv r2" "vr_abs r2 = []" "\<not> record_ready r2"
          using tr by (cases "take_record r'") (auto simp: take_record_def split: option.splits)
        have "parse_record (vr_abs r') = Inr (Some (vr_body r', length (vr_abs r')))"
          using vr_parse [OF r'(1)] True by simp
        from video_lane.parse_extend [OF this, of "drop n input"]
        have parse: "parse_record (vr_abs r @ input) = Inr (Some (vr_body r', length (vr_abs r')))"
          by (simp only: whole)
        have rest: "drop (length (vr_abs r')) (vr_abs r @ input) = drop n input"
          by (simp flip: whole)
        obtain ps' where ps: "ps = vr_body r' # ps'"
            "drain_frames k' parse_record (vr_abs r2 @ drop n input) = (ps', rest, err)"
          using less.prems(4) parse rest k r2(2) by (auto split: prod.splits)
        have "length (vr_abs r2 @ drop n input) < k'" using less.prems(3) k n r2(2) by simp
        from less.hyps [OF shorter r2(1,3) this ps(2)]
        obtain r3 where "drain_residual r2 (drop n input) = Some (ps', r3, err)"
          "err = None \<longrightarrow> vr_inv r3 \<and> \<not> record_ready r3 \<and> vr_abs r3 = rest" by blast
        then show ?thesis
          using acc t \<open>input \<noteq> []\<close> by (subst drain_residual.simps) (simp add: ps(1))
      qed
    qed
  qed
qed

lemma drain_residuals_refines:
  assumes "vr_inv r" and "\<not> record_ready r"
    and "feed_segments parse_record (vr_abs r) segs = (ps, rest, err)"
  shows "\<exists>r'. drain_residuals r segs = Some (ps, r', err) \<and>
           (err = None \<longrightarrow> vr_inv r' \<and> \<not> record_ready r' \<and> vr_abs r' = rest)"
  using assms
proof (induction segs arbitrary: r ps)
  case Nil
  then show ?case by simp
next
  case (Cons seg segs)
  obtain ps1 rest1 err1 where d:
    "drain_frames (Suc (length (vr_abs r @ seg))) parse_record (vr_abs r @ seg) = (ps1, rest1, err1)"
    by (metis prod_cases3)
  from drain_residual_refines [OF Cons.prems(1,2) lessI d] obtain r1 where
    r1: "drain_residual r seg = Some (ps1, r1, err1)"
      "err1 = None \<longrightarrow> vr_inv r1 \<and> \<not> record_ready r1 \<and> vr_abs r1 = rest1" by blast
  show ?case
  proof (cases err1)
    case (Some e)
    with Cons.prems(3) d r1 show ?thesis by (auto simp del: drain_frames.simps)
  next
    case None
    obtain qs rest2 err2 where f: "feed_segments parse_record rest1 segs = (qs, rest2, err2)"
      by (metis prod_cases3)
    with Cons.prems(3) d None have eq: "ps = ps1 @ qs" "rest = rest2" "err = err2"
      by (auto simp del: drain_frames.simps)
    from Cons.IH [of r1 qs] r1(2) None f eq(2,3) obtain r2 where
      "drain_residuals r1 segs = Some (qs, r2, err2)"
      "err2 = None \<longrightarrow> vr_inv r2 \<and> \<not> record_ready r2 \<and> vr_abs r2 = rest2" by auto
    with r1(1) None eq show ?thesis by auto
  qed
qed

text \<open>
  C16. The exact record reader terminates, never panics and refines the buffered parser. Fed with any
  chunks it hands out exactly the records, in the same order and with the same error, that
  \<open>parse_record\<close> finds in the concatenated stream, and it then holds exactly the bytes that
  parser would leave over: the beginning of one unfinished record.
\<close>

theorem record_reader_refines:
  "drain_frames (Suc (length (concat segs))) parse_record (concat segs) = (ps, rest, err) \<Longrightarrow>
   \<exists>r. drain_residuals vr_new segs = Some (ps, r, err) \<and>
       (err = None \<longrightarrow> vr_inv r \<and> \<not> record_ready r \<and> vr_abs r = rest)"
proof -
  assume "drain_frames (Suc (length (concat segs))) parse_record (concat segs) = (ps, rest, err)"
  then obtain rest' where "feed_segments parse_record (vr_abs vr_new) segs = (ps, rest', err)"
      "err = None \<longrightarrow> rest' = rest"
    using video_lane.feed_segments_whole [of "[]" "Suc (length (concat segs))" segs ps rest err]
      video_lane.parse_nil by (auto simp del: drain_frames.simps)
  with drain_residuals_refines [OF vr_new_inv(1,3) this(1)] show ?thesis by auto
qed

theorem record_reader_refines_witness:
  "\<exists>r. drain_residuals vr_new [[2, 0], [0, 0, 7], [8, 0, 0, 0, 0, 1]] = Some ([[7, 8], []], r, None) \<and>
     vr_inv r \<and> \<not> record_ready r \<and> vr_abs r = [1]"
proof -
  have "drain_frames (Suc (length (concat [[2, 0], [0, 0, 7], [8, 0, 0, 0, 0, 1]]))) parse_record
      (concat [[2, 0], [0, 0, 7], [8, 0, 0, 0, 0, 1 :: byte]]) = ([[7, 8], []], [1], None)"
    by (simp add: parse_record_alt Let_def from_le_def subslice_def MAX_VIDEO_RECORD_LEN_def unat_of_nat)
  from record_reader_refines [OF this] show ?thesis by auto
qed

section \<open>The socket pump\<close>

definition recv_bounded :: "'env recv_fun \<Rightarrow> bool" where
  "recv_bounded recv \<longleftrightarrow> (\<forall>env n bs env'. recv env n = (Inr bs, env') \<longrightarrow> length bs \<le> n)"

lemma recv_retry_result: "recv_retry recv env n = Some res \<Longrightarrow> \<exists>env0. recv env0 n = res"
  by (erule recv_retry.raw_induct [where P = "\<lambda>recv env n res. \<exists>env0. recv env0 n = res", rotated])
    (auto split: prod.splits if_splits)

lemma recv_retry_bounded: "recv_bounded recv \<Longrightarrow> recv_retry recv env n = Some (Inr bs, env') \<Longrightarrow> length bs \<le> n"
  by (drule recv_retry_result) (auto simp: recv_bounded_def)

lemma vr_fill_took:
  assumes "recv_bounded recv" and "vr_inv r" and "vr_fill recv env r m = Some (Inr n, r', env')"
  shows "\<exists>bs k. length bs = n \<and> n \<le> m \<and> took r bs r' \<and> recv_retry recv env k = Some (Inr bs, env')"
proof (cases "vr_prefix_len r < 4")
  case True
  with assms(3) obtain bs where bs: "recv_retry recv env (min (4 - vr_prefix_len r) m) = Some (Inr bs, env')" "n = length bs"
    and r': "if vr_prefix_len r + n = 4 then begin_body (put_prefix bs r) = Inr r' else r' = put_prefix bs r"
    by (auto simp: vr_fill_def VIDEO_LENGTH_PREFIX_LEN_def Let_def put_prefix_def
        split: option.splits sum.splits if_splits)
  have n: "n \<le> min (4 - vr_prefix_len r) m" using recv_retry_bounded [OF assms(1) bs(1)] bs(2) by simp
  have "took r bs r'"
  proof (cases "vr_prefix_len r + n = 4")
    case full: True
    with put_prefix_full [OF assms(2) True, of bs] r' bs(2) show ?thesis by (simp add: took_def)
  next
    case False
    with n True have "vr_prefix_len r + length bs < 4" using bs(2) by linarith
    from put_prefix_inv [OF assms(2) True this] r' False show ?thesis by (simp add: took_def)
  qed
  with n bs show ?thesis by auto
next
  case False
  with vr_inv_target [OF assms(2)] obtain t where t: "vr_target r = Some t" by auto
  with False assms(3) obtain bs where bs: "recv_retry recv env (min (t - length (vr_body r)) m) = Some (Inr bs, env')"
      "n = length bs" "r' = r\<lparr>vr_body := vr_body r @ bs\<rparr>"
    by (auto simp: vr_fill_def VIDEO_LENGTH_PREFIX_LEN_def split: option.splits sum.splits)
  from recv_retry_bounded [OF assms(1) bs(1)] have "length bs \<le> t - length (vr_body r)" "length bs \<le> m" by simp_all
  with body_took [OF assms(2) t, of bs] bs show ?thesis by blast
qed

lemma vr_fill_blocked:
  "vr_fill recv env r m = Some (Inl WouldBlock, r', env') \<Longrightarrow>
     r' = r \<and> (\<exists>k. recv_retry recv env k = Some (Inl WouldBlock, env'))"
  by (auto simp: vr_fill_def Let_def split: if_splits option.splits sum.splits)

lemma vr_fill_returns:
  assumes "\<And>env n. \<exists>res. recv_retry recv env n = Some res" and "vr_inv r"
  shows "\<exists>res r' env'. vr_fill recv env r m = Some (res, r', env')"
proof (cases "vr_prefix_len r < 4")
  case True
  obtain x env' where "recv_retry recv env (min (4 - vr_prefix_len r) m) = Some (x, env')"
    using assms(1) by (metis surj_pair)
  with True show ?thesis
    by (cases x) (auto simp: vr_fill_def VIDEO_LENGTH_PREFIX_LEN_def Let_def split: sum.split)
next
  case False
  with vr_inv_target [OF assms(2)] obtain t where t: "vr_target r = Some t" by auto
  obtain x env' where "recv_retry recv env (min (t - length (vr_body r)) m) = Some (x, env')"
    using assms(1) by (metis surj_pair)
  with False t show ?thesis by (cases x) (auto simp: vr_fill_def VIDEO_LENGTH_PREFIX_LEN_def)
qed

lemma took_refl: "vr_inv r \<Longrightarrow> took r [] r"
  by (simp add: took_def)

lemma took_trans: "took r bs r' \<Longrightarrow> took r' cs r'' \<Longrightarrow> took r (bs @ cs) r''"
  by (simp add: took_def)

lemma took_nothing_ready: "vr_inv r \<Longrightarrow> took r [] r' \<Longrightarrow> record_ready r' \<longleftrightarrow> record_ready r"
  by (metis append_Nil2 option.distinct(1) sum.inject(2) took_def vr_parse)

text \<open>How a run over a ready source may end, with the bytes the socket handed out.\<close>

definition record_run :: "'env recv_fun \<Rightarrow> nat \<Rightarrow> 'env \<Rightarrow> video_record_reader \<Rightarrow> read_pump_outcome
    \<Rightarrow> (io_error, read_pump_outcome) result \<times> video_record_reader \<times> bool \<times> 'env \<Rightarrow> bool" where
  "record_run recv budget env r out res =
     (case res of
        (Inl e, _, _, _) \<Rightarrow> e \<noteq> WouldBlock
      | (Inr out', r', ready', env') \<Rightarrow>
          hit_limit out' = hit_limit out \<and> bytes_read out' \<le> budget \<and>
          (\<exists>bs env1. receives recv env bs env1 \<and> took r bs r' \<and> bytes_read out' = bytes_read out + length bs \<and>
             pump_end recv (record_ready r' \<or> bytes_read out' = budget) ready' (disconnected out') env1 env'))"

lemma record_run_none:
  assumes "took r [] r'" and "bytes_read out' = bytes_read out" and "hit_limit out' = hit_limit out" and "bytes_read out \<le> budget"
    and "pump_end recv (record_ready r' \<or> bytes_read out = budget) ready' (disconnected out') env env'"
  shows "record_run recv budget env r out (Inr out', r', ready', env')"
  using assms received_none [of recv env] unfolding record_run_def prod.case sum.case
  by (intro conjI exI [of _ "[]"] exI [of _ env]) simp_all

lemma record_run_more:
  assumes "recv_retry recv env k = Some (Inr bs, env1)" and "bs \<noteq> []" and "took r bs r1"
    and "record_run recv budget env1 r1 (out\<lparr>bytes_read := bytes_read out + length bs\<rparr>) res"
  shows "record_run recv budget env r out res"
proof -
  obtain a r' ready' env' where res: "res = (a, r', ready', env')" by (metis prod_cases4)
  show ?thesis
  proof (cases a)
    case (Inl e)
    then show ?thesis using assms(4) by (simp add: record_run_def res)
  next
    case (Inr out')
    with assms(4) res obtain cs env2 where c: "hit_limit out' = hit_limit out" "bytes_read out' \<le> budget"
        "receives recv env1 cs env2" "took r1 cs r'" "bytes_read out' = bytes_read out + length (bs @ cs)"
        "pump_end recv (record_ready r' \<or> bytes_read out' = budget) ready' (disconnected out') env2 env'"
      by (auto simp: record_run_def add.assoc)
    show ?thesis
      unfolding res Inr record_run_def prod.case sum.case
      using c received_more [OF assms(1,2) c(3)] took_trans [OF assms(3) c(4)] by blast
  qed
qed

lemma record_loop_ok:
  assumes "recv_bounded recv" and "\<And>env n. \<exists>res. recv_retry recv env n = Some res"
    and "vr_inv r" and "bytes_read out \<le> budget" and "\<not> disconnected out"
  shows "\<exists>res. record_loop recv budget env r True out = Some res \<and> record_run recv budget env r out res"
  using assms(3-5)
proof (induction "budget - bytes_read out" arbitrary: env r out rule: less_induct)
  case less
  show ?case
  proof (cases "\<not> record_ready r \<and> bytes_read out < budget")
    case False
    then have "record_loop recv budget env r True out = Some (Inr out, r, True, env)"
      by (subst record_loop.simps) (simp only: if_False simp_thms)
    moreover have "record_ready r \<or> bytes_read out = budget" using False less.prems(2) by auto
    ultimately show ?thesis
      using less.prems took_refl [OF less.prems(1)] record_run_none [of r r out out budget recv True env env]
      by (simp add: pump_end_def)
  next
    case go: True
    obtain x r' env' where fill: "vr_fill recv env r (budget - bytes_read out) = Some (x, r', env')"
      using vr_fill_returns [OF assms(2) less.prems(1)] by blast
    show ?thesis
    proof (cases x)
      case (Inl e)
      with fill go have l: "record_loop recv budget env r True out =
          Some (if e = WouldBlock then (Inr out, r', False, env') else (Inl e, r', True, env'))"
        by (subst record_loop.simps) simp
      show ?thesis
      proof (cases "e = WouldBlock")
        case True
        then have w: "r' = r" "\<exists>k. recv_retry recv env k = Some (Inl WouldBlock, env')"
          using vr_fill_blocked [OF fill [unfolded Inl True]] by blast+
        then have "record_run recv budget env r out (Inr out, r', False, env')"
          using go less.prems took_refl [OF less.prems(1)] by (intro record_run_none) (simp_all add: pump_end_def)
        with l True show ?thesis by simp
      qed (use l in \<open>simp add: record_run_def\<close>)
    next
      case (Inr n)
      from vr_fill_took [OF assms(1) less.prems(1)] fill Inr obtain bs k where
        bs: "length bs = n" "n \<le> budget - bytes_read out" "took r bs r'" "recv_retry recv env k = Some (Inr bs, env')" by blast
      then have r': "vr_inv r'" by (simp add: took_def)
      let ?out = "out\<lparr>bytes_read := bytes_read out + length bs\<rparr>"
      show ?thesis
      proof (cases "n = 0")
        case True
        with fill Inr go have "record_loop recv budget env r True out =
            Some (Inr (out\<lparr>disconnected := True\<rparr>), r', False, env')"
          by (subst record_loop.simps) simp
        moreover have "record_run recv budget env r out (Inr (out\<lparr>disconnected := True\<rparr>), r', False, env')"
          using bs True go less.prems took_nothing_ready [OF less.prems(1)]
          by (intro record_run_none) (auto simp: pump_end_def)
        ultimately show ?thesis by simp
      next
        case False
        with fill Inr go bs(1) have step: "record_loop recv budget env r True out = record_loop recv budget env' r' True ?out"
          by (subst record_loop.simps) simp
        have "budget - bytes_read ?out < budget - bytes_read out" using go False bs(1) by (auto intro!: diff_less_mono2)
        moreover have "bytes_read ?out \<le> budget" "\<not> disconnected ?out" using bs(1,2) go less.prems(3) by auto
        ultimately obtain res where
          res: "record_loop recv budget env' r' True ?out = Some res" "record_run recv budget env' r' ?out res"
          using less.hyps [OF _ r'] by blast
        have "bs \<noteq> []" using False bs(1) by auto
        from record_run_more [OF bs(4) this bs(3) res(2)] res(1) step show ?thesis by simp
      qed
    qed
  qed
qed

text \<open>
  C0. The record pump always returns when single receives do, reads only what belongs to the current record,
  and never loses a wake-up. What it appended to the record is exactly what the socket handed out, at most
  the budget, and never reaches into the next record. Of a source that was not ready it reads nothing.
  Of a ready source it stops for one of three reasons: it has a whole record or spent its budget, then the
  source stays ready, the socket is not asked again, and \<open>hit_limit\<close> is set if there is no whole record for
  the caller to take; or the socket's last answer was that it would block; or its last answer was the end of
  the stream, then \<open>disconnected\<close> is set. Readiness is cleared in the last two cases only.
\<close>

theorem record_pump_contract:
  assumes "recv_bounded recv" and "\<forall>env n. \<exists>res. recv_retry recv env n = Some res" and "vr_inv r"
  shows "\<exists>res r' ready' env'. read_video_record recv env r ready budget = Some (res, r', ready', env') \<and>
    (case res of
       Inl e \<Rightarrow> e \<noteq> WouldBlock
     | Inr out \<Rightarrow>
         vr_inv r' \<and> bytes_read out \<le> budget \<and>
         (\<exists>bs env1. receives recv env bs env1 \<and> vr_abs r' = vr_abs r @ bs \<and> bytes_read out = length bs \<and>
           (if \<not> ready then bs = [] \<and> \<not> ready' \<and> \<not> hit_limit out \<and> \<not> disconnected out \<and> env' = env1
            else if record_ready r' \<or> bytes_read out = budget
            then ready' \<and> (hit_limit out \<longleftrightarrow> \<not> record_ready r') \<and> \<not> disconnected out \<and> env' = env1
            else \<not> ready' \<and> \<not> hit_limit out \<and>
              (\<exists>n. recv_retry recv env1 n = Some (if disconnected out then Inr [] else Inl WouldBlock, env')))))"
proof (cases ready)
  case False
  then have "record_loop recv budget env r ready o' = Some (Inr o', r, False, env)" for o' by (subst record_loop.simps) simp
  then show ?thesis using False assms(3) received_none [of recv env] by (auto simp: read_video_record_def)
next
  case True
  let ?out = "\<lparr>bytes_read = 0, hit_limit = False, disconnected = False\<rparr>"
  from record_loop_ok [OF assms(1) _ assms(3), of ?out budget env] assms(2) obtain a r' ready' env' where
    l: "record_loop recv budget env r True ?out = Some (a, r', ready', env')"
      "record_run recv budget env r ?out (a, r', ready', env')" by (auto simp: split_paired_Ex)
  show ?thesis
  proof (cases a)
    case (Inl e)
    with l True show ?thesis by (simp add: read_video_record_def record_run_def)
  next
    case (Inr out)
    with l(2) obtain bs env1 where b: "receives recv env bs env1" "took r bs r'" "bytes_read out = length bs"
        "pump_end recv (record_ready r' \<or> bytes_read out = budget) ready' (disconnected out) env1 env'"
        "\<not> hit_limit out" "bytes_read out \<le> budget"
      by (auto simp: record_run_def)
    define o' where "o' = (if ready' \<and> \<not> record_ready r' \<and> bytes_read out \<ge> budget then out\<lparr>hit_limit := True\<rparr> else out)"
    have rd: "read_video_record recv env r ready budget = Some (Inr o', r', ready', env')"
      using l(1) True Inr by (simp add: read_video_record_def o'_def)
    have o: "bytes_read o' = bytes_read out" "disconnected o' = disconnected out"
        "hit_limit o' \<longleftrightarrow> ready' \<and> \<not> record_ready r' \<and> budget \<le> bytes_read out"
      using b(5) by (simp_all add: o'_def)
    have t: "vr_inv r'" "vr_abs r' = vr_abs r @ bs" using b(2) by (simp_all add: took_def)
    have "if record_ready r' \<or> bytes_read o' = budget
        then ready' \<and> (hit_limit o' \<longleftrightarrow> \<not> record_ready r') \<and> \<not> disconnected o' \<and> env' = env1
        else \<not> ready' \<and> \<not> hit_limit o' \<and>
          (\<exists>n. recv_retry recv env1 n = Some (if disconnected o' then Inr [] else Inl WouldBlock, env'))"
      using b(4) unfolding pump_end_def o by (cases "record_ready r' \<or> bytes_read out = budget") auto
    moreover have "bytes_read o' \<le> budget" "bytes_read o' = length bs" using b(3,6) o(1) by simp_all
    ultimately show ?thesis
      unfolding rd using t b(1) True
      by (intro exI [of _ "Inr o'"] exI [of _ r'] exI [of _ ready'] exI [of _ env']) (simp only: sum.case simp_thms if_False, blast)
  qed
qed

lemma script_recv_bounded: "recv_bounded script_recv"
proof (unfold recv_bounded_def, intro allI impI)
  fix env n bs env'
  assume "script_recv env n = (Inr bs, env')"
  then show "length bs \<le> n" by (cases "(env, n)" rule: script_recv.cases) auto
qed

theorem record_pump_contract_witness:
  "\<exists>res r' ready' env'. read_video_record script_recv [Inr [2, 0, 0, 0, 7, 8, 9]] vr_new True 64
     = Some (res, r', ready', env')"
proof -
  have "\<forall>env n. \<exists>res. recv_retry script_recv env n = Some res"
    using script_recv_returns by blast
  from record_pump_contract [OF script_recv_bounded this vr_new_inv(1), of "[Inr [2, 0, 0, 0, 7, 8, 9]]" True 64]
  show ?thesis by blast
qed

end
