(* ===== verification/Video_Fanout.thy ===== *)
theory Video_Fanout
  imports Video
begin

text \<open>
  Local delivery of decrypted screen-share frames (\<open>src/video/fanout.rs\<close>): the active-stream
  fence, the keyframe-led fast-start caches, the replay filter of an upstream bootstrap, and the
  queue of each native viewer.

  An \<open>Arc<NativeQueue>\<close> is an index into the list \<open>fan_queues\<close> of all queues ever made, so that a
  queue which was unregistered but is still held by its consumer stays an object. \<open>native\<close> maps a
  viewer and stream to such an index; a hash map that is iterated is an association list. Counters
  are 64-bit words, byte counts are natural numbers. Log lines and condition variables have no
  counterpart: a blocked \<open>pop\<close> is a pop that is not taken.
\<close>

section \<open>Definitions\<close>

type_synonym frame = shared_video_frame
type_synonym stream_id = u32

definition MAX_PENDING_FRAMES :: nat where "MAX_PENDING_FRAMES = 2"
definition MAX_BOOTSTRAP_FRAMES :: nat where "MAX_BOOTSTRAP_FRAMES = FAST_START_MAX_FRAMES"
definition MAX_PENDING_BYTES :: nat where "MAX_PENDING_BYTES = MAX_VIDEO_RECORD_LEN"
definition FAST_START_MAX_BYTES :: nat where "FAST_START_MAX_BYTES = MAX_VIDEO_RECORD_LEN"

definition header_of :: "frame \<Rightarrow> video_frame_header option" where
  "header_of f = (case parse_video_frame_header (sf_as_slice f) of Inr (Some h) \<Rightarrow> Some h | _ \<Rightarrow> None)"

definition is_bootstrap_boundary :: "frame \<Rightarrow> bool" where
  "is_bootstrap_boundary f = (case header_of f of None \<Rightarrow> False | Some h \<Rightarrow> vh_bootstrap_end h)"

subsection \<open>The fast-start cache\<close>

record fast_start =
  fs_frames :: "frame list"
  fs_bytes :: nat

definition fs_default :: fast_start where
  "fs_default = \<lparr>fs_frames = [], fs_bytes = 0\<rparr>"

definition latest_timestamp :: "fast_start \<Rightarrow> i64 option" where
  "latest_timestamp c =
     (if fs_frames c = [] then None else map_option vh_ts_ms (header_of (last (fs_frames c))))"

definition fs_push :: "frame \<Rightarrow> bool \<Rightarrow> fast_start \<Rightarrow> fast_start" where
  "fs_push f is_key c =
     (if \<not> is_key \<and> fs_frames c = [] then c
      else
        let c1 = (if is_key then fs_default else c) in
        if length (fs_frames c1) \<ge> MAX_BOOTSTRAP_FRAMES \<or> fs_bytes c1 + retained_bytes f > FAST_START_MAX_BYTES
        then fs_default
        else \<lparr>fs_frames = fs_frames c1 @ [f], fs_bytes = fs_bytes c1 + retained_bytes f\<rparr>)"

subsection \<open>The queue of a native viewer\<close>

record native_queue =
  q_viewer_id :: u64
  q_stream_id :: stream_id
  q_frames :: "frame list"
  q_pending_bytes :: nat
  seen_keyframe :: bool
  awaiting_keyframe :: bool
  bootstrapping :: bool
  bootstrap_complete :: bool
  bootstrap_boundary_pending :: bool
  q_closed :: bool
  received_frames :: u64
  written_frames :: u64
  dropped_frames :: u64
  overflows :: u64

definition q_new :: "u64 \<Rightarrow> stream_id \<Rightarrow> native_queue" where
  "q_new viewer stream = \<lparr>q_viewer_id = viewer, q_stream_id = stream, q_frames = [], q_pending_bytes = 0,
     seen_keyframe = False, awaiting_keyframe = False, bootstrapping = False, bootstrap_complete = False,
     bootstrap_boundary_pending = False, q_closed = False, received_frames = 0, written_frames = 0,
     dropped_frames = 0, overflows = 0\<rparr>"

text \<open>\<open>alloc\<close> is the allocator's answer to \<open>Vec::with_capacity\<close>, as in \<open>copy_from_slice\<close>.\<close>

definition bootstrap_boundary :: "(nat \<Rightarrow> nat) \<Rightarrow> stream_id \<Rightarrow> frame" where
  "bootstrap_boundary alloc stream =
     from_vec \<lparr>vec_data = encode_video_bootstrap_end stream, vec_capacity = alloc VIDEO_FRAME_HEADER_LEN\<rparr>"

definition push_bootstrap_boundary :: "(nat \<Rightarrow> nat) \<Rightarrow> native_queue \<Rightarrow> native_queue" where
  "push_bootstrap_boundary alloc q =
     (let boundary = bootstrap_boundary alloc (q_stream_id q) in
      q\<lparr>q_pending_bytes := q_pending_bytes q + retained_bytes boundary,
        q_frames := q_frames q @ [boundary], bootstrap_boundary_pending := True\<rparr>)"

definition clear_frames :: "native_queue \<Rightarrow> native_queue \<times> u64" where
  "clear_frames q =
     (let boundary = (if bootstrap_boundary_pending q then find is_bootstrap_boundary (q_frames q) else None);
          discarded = of_nat (length (filter (\<lambda>f. \<not> is_bootstrap_boundary f) (q_frames q)))
      in (case boundary of
            None \<Rightarrow> q\<lparr>q_frames := [], q_pending_bytes := 0\<rparr>
          | Some b \<Rightarrow> q\<lparr>q_frames := [b], q_pending_bytes := retained_bytes b\<rparr>, discarded))"

definition seed :: "(nat \<Rightarrow> nat) \<Rightarrow> frame list option \<Rightarrow> bool \<Rightarrow> native_queue \<Rightarrow> native_queue" where
  "seed alloc frames complete q =
     (let q1 = q\<lparr>q_frames := q_frames q @ (case frames of None \<Rightarrow> [] | Some fs \<Rightarrow> fs)\<rparr>;
          q2 = (if complete then push_bootstrap_boundary alloc q1 else q1)
      in q2\<lparr>q_pending_bytes := sum_list (map retained_bytes (q_frames q2)),
            seen_keyframe := (case frames of None \<Rightarrow> False | Some fs \<Rightarrow> fs \<noteq> []),
            bootstrapping := True, bootstrap_complete := complete\<rparr>)"

definition finish_bootstrap :: "(nat \<Rightarrow> nat) \<Rightarrow> native_queue \<Rightarrow> native_queue" where
  "finish_bootstrap alloc q =
     (if bootstrap_complete q then q
      else push_bootstrap_boundary alloc (q\<lparr>bootstrap_complete := True\<rparr>))"

definition begin_awaiting_keyframe :: "native_queue \<Rightarrow> native_queue" where
  "begin_awaiting_keyframe q =
     q\<lparr>awaiting_keyframe := True, bootstrapping := False, dropped_frames := dropped_frames q + 1,
       overflows := overflows q + 1\<rparr>"

definition clear_counted :: "native_queue \<Rightarrow> native_queue" where
  "clear_counted q = (case clear_frames q of (q', n) \<Rightarrow> q'\<lparr>dropped_frames := dropped_frames q' + n\<rparr>)"

definition over_limit :: "native_queue \<Rightarrow> frame \<Rightarrow> bool" where
  "over_limit q f =
     (length (q_frames q) \<ge> (if bootstrapping q then MAX_BOOTSTRAP_FRAMES else MAX_PENDING_FRAMES) \<or>
      q_pending_bytes q + retained_bytes f > MAX_PENDING_BYTES)"

definition enqueue_frame :: "frame \<Rightarrow> native_queue \<Rightarrow> native_queue" where
  "enqueue_frame f q =
     (if retained_bytes f > MAX_PENDING_BYTES then begin_awaiting_keyframe q
      else q\<lparr>q_pending_bytes := q_pending_bytes q + retained_bytes f, q_frames := q_frames q @ [f]\<rparr>)"

definition q_push :: "frame \<Rightarrow> bool \<Rightarrow> native_queue \<Rightarrow> native_queue" where
  "q_push f is_key q0 =
     (if q_closed q0 then q0
      else
        let q = q0\<lparr>received_frames := received_frames q0 + 1\<rparr> in
        if \<not> seen_keyframe q \<and> \<not> is_key then q\<lparr>dropped_frames := dropped_frames q + 1\<rparr>
        else
          let q = (if seen_keyframe q then q else q\<lparr>seen_keyframe := True\<rparr>) in
          if awaiting_keyframe q then
            (if \<not> is_key then q\<lparr>dropped_frames := dropped_frames q + 1\<rparr>
             else enqueue_frame f ((clear_counted q)\<lparr>awaiting_keyframe := False\<rparr>))
          else if over_limit q f then
            (if is_key then enqueue_frame f (clear_counted q) else begin_awaiting_keyframe q)
          else enqueue_frame f q)"

text \<open>\<open>pop\<close> without the wait: \<open>None\<close> where the code blocks or, on a closed queue, ends.\<close>

definition q_pop :: "native_queue \<Rightarrow> (frame \<times> native_queue) option" where
  "q_pop q =
     (case q_frames q of
        [] \<Rightarrow> None
      | f # fs \<Rightarrow>
          let q1 = q\<lparr>q_frames := fs, q_pending_bytes := q_pending_bytes q - retained_bytes f,
                     written_frames := written_frames q + 1\<rparr>;
              q2 = (if is_bootstrap_boundary f then q1\<lparr>bootstrap_boundary_pending := False\<rparr> else q1);
              q3 = (if fs = [] \<and> bootstrap_complete q2 then q2\<lparr>bootstrapping := False\<rparr> else q2)
          in Some (f, q3))"

definition q_close :: "native_queue \<Rightarrow> native_queue" where
  "q_close q = q\<lparr>q_closed := True, q_frames := [], q_pending_bytes := 0, bootstrap_boundary_pending := False\<rparr>"

subsection \<open>The fan-out\<close>

record upstream_bootstrap =
  replay_through_ts_ms :: "i64 option"
  skipped_frames :: u64

record fanout =
  fan_web :: bool
  fan_web_sent :: "frame list"
  active_streams :: "stream_id set"
  native :: "((u64 \<times> stream_id) \<times> nat) list"
  fan_queues :: "native_queue list"
  fan_fast_start :: "stream_id \<Rightarrow> fast_start option"
  fan_bootstrap :: "stream_id \<Rightarrow> upstream_bootstrap option"
  malformed_frames :: u64
  inactive_frames :: u64

definition fan_new :: "bool \<Rightarrow> fanout" where
  "fan_new web = \<lparr>fan_web = web, fan_web_sent = [], active_streams = {}, native = [], fan_queues = [],
     fan_fast_start = (\<lambda>_. None), fan_bootstrap = (\<lambda>_. None), malformed_frames = 0, inactive_frames = 0\<rparr>"

definition stream_queues :: "stream_id \<Rightarrow> fanout \<Rightarrow> nat list" where
  "stream_queues stream st = map snd (filter (\<lambda>((_, i), _). i = stream) (native st))"

definition upd_queue :: "nat \<Rightarrow> (native_queue \<Rightarrow> native_queue) \<Rightarrow> fanout \<Rightarrow> fanout" where
  "upd_queue i g st =
     (if i < length (fan_queues st) then st\<lparr>fan_queues := (fan_queues st)[i := g (fan_queues st ! i)]\<rparr> else st)"

text \<open>
  \<open>send\<close> holds the lock while it decides and collects the viewer queues, and pushes into them
  after it gave the lock back: \<open>send_locked\<close> is the first part and returns the pushes to make.
\<close>

definition finish_locked :: "stream_id \<Rightarrow> fanout \<Rightarrow> fanout \<times> nat list" where
  "finish_locked stream st =
     (case fan_bootstrap st stream of
        None \<Rightarrow> (st, [])
      | Some _ \<Rightarrow> (st\<lparr>fan_bootstrap := (fan_bootstrap st)(stream := None)\<rparr>, stream_queues stream st))"

datatype queue_call = Push_Frame frame bool | Finish_Bootstrap | Close_Queue

definition accept_frame :: "frame \<Rightarrow> stream_id \<Rightarrow> bool \<Rightarrow> fanout \<Rightarrow> fanout \<times> (nat \<times> queue_call) list" where
  "accept_frame f stream is_key st =
     (let st1 = (if fan_web st then st\<lparr>fan_web_sent := fan_web_sent st @ [f]\<rparr> else st);
          cache = (case fan_fast_start st1 stream of None \<Rightarrow> fs_default | Some c \<Rightarrow> c);
          st2 = st1\<lparr>fan_fast_start := (fan_fast_start st1)(stream := Some (fs_push f is_key cache))\<rparr>
      in (st2, map (\<lambda>i. (i, Push_Frame f is_key)) (stream_queues stream st2)))"

definition send_locked :: "frame \<Rightarrow> fanout \<Rightarrow> fanout \<times> (nat \<times> queue_call) list" where
  "send_locked f st =
     (case parse_video_frame (sf_as_slice f) of
        Inr (Some (parsed, consumed)) \<Rightarrow>
          if consumed \<noteq> sf_len f then (st\<lparr>malformed_frames := malformed_frames st + 1\<rparr>, [])
          else
            let stream = vf_stream_id parsed in
            if vf_bootstrap_end parsed then
              (case finish_locked stream st of (st', ids) \<Rightarrow> (st', map (\<lambda>i. (i, Finish_Bootstrap)) ids))
            else if stream \<notin> active_streams st then (st\<lparr>inactive_frames := inactive_frames st + 1\<rparr>, [])
            else
              (case fan_bootstrap st stream of
                 Some b \<Rightarrow>
                   if (case replay_through_ts_ms b of None \<Rightarrow> False | Some ts \<Rightarrow> sint (vf_ts_ms parsed) \<le> sint ts)
                   then (st\<lparr>fan_bootstrap := (fan_bootstrap st)(stream := Some (b\<lparr>skipped_frames := skipped_frames b + 1\<rparr>))\<rparr>, [])
                   else accept_frame f stream (vf_is_key parsed) st
               | None \<Rightarrow> accept_frame f stream (vf_is_key parsed) st)
      | _ \<Rightarrow> (st\<lparr>malformed_frames := malformed_frames st + 1\<rparr>, []))"

definition run_call :: "(nat \<Rightarrow> nat) \<Rightarrow> queue_call \<Rightarrow> native_queue \<Rightarrow> native_queue" where
  "run_call alloc call q =
     (case call of
        Push_Frame f is_key \<Rightarrow> q_push f is_key q
      | Finish_Bootstrap \<Rightarrow> finish_bootstrap alloc q
      | Close_Queue \<Rightarrow> q_close q)"

definition run_calls :: "(nat \<Rightarrow> nat) \<Rightarrow> fanout \<times> (nat \<times> queue_call) list \<Rightarrow> fanout" where
  "run_calls alloc r = (case r of (st, calls) \<Rightarrow> fold (\<lambda>(i, call). upd_queue i (run_call alloc call)) calls st)"

definition fan_send :: "(nat \<Rightarrow> nat) \<Rightarrow> frame \<Rightarrow> fanout \<Rightarrow> fanout" where
  "fan_send alloc f st = run_calls alloc (send_locked f st)"

definition begin_upstream_bootstrap :: "stream_id \<Rightarrow> fanout \<Rightarrow> fanout" where
  "begin_upstream_bootstrap stream st =
     (if stream \<notin> active_streams st then st
      else
        let ts = Option.bind (fan_fast_start st stream) latest_timestamp
        in st\<lparr>fan_bootstrap := (fan_bootstrap st)(stream := Some \<lparr>replay_through_ts_ms = ts, skipped_frames = 0\<rparr>)\<rparr>)"

definition register_native ::
  "(nat \<Rightarrow> nat) \<Rightarrow> u64 \<Rightarrow> stream_id \<Rightarrow> bool \<Rightarrow> fanout \<Rightarrow> (string, nat \<times> fanout) result" where
  "register_native alloc viewer stream wait_for_upstream st =
     (if stream \<notin> active_streams st then Inl ''screen share is no longer available''
      else if map_of (native st) (viewer, stream) \<noteq> None then Inl ''screen share is already playing''
      else
        let cached = fan_fast_start st stream;
            wait = wait_for_upstream \<or> fan_bootstrap st stream \<noteq> None;
            q = seed alloc (map_option fs_frames cached) (\<not> wait) (q_new viewer stream);
            i = length (fan_queues st)
        in Inr (i, st\<lparr>native := ((viewer, stream), i) # native st, fan_queues := fan_queues st @ [q]\<rparr>))"

definition has_native :: "stream_id \<Rightarrow> fanout \<Rightarrow> bool" where
  "has_native stream st \<longleftrightarrow> list_ex (\<lambda>((_, i), _). i = stream) (native st)"

definition start_stream :: "stream_id \<Rightarrow> fanout \<Rightarrow> fanout" where
  "start_stream stream st = st\<lparr>active_streams := insert stream (active_streams st)\<rparr>"

definition close_locked :: "stream_id \<Rightarrow> fanout \<Rightarrow> fanout \<times> (nat \<times> queue_call) list" where
  "close_locked stream st =
     (st\<lparr>active_streams := active_streams st - {stream},
         fan_fast_start := (fan_fast_start st)(stream := None),
         fan_bootstrap := (fan_bootstrap st)(stream := None),
         native := filter (\<lambda>((_, i), _). i \<noteq> stream) (native st)\<rparr>,
      map (\<lambda>i. (i, Close_Queue)) (stream_queues stream st))"

definition close_stream :: "(nat \<Rightarrow> nat) \<Rightarrow> stream_id \<Rightarrow> fanout \<Rightarrow> fanout" where
  "close_stream alloc stream st = run_calls alloc (close_locked stream st)"

text \<open>Dropping a \<open>NativeViewerHandle\<close> unregisters whatever is under its key and closes its own queue.\<close>

definition drop_locked :: "nat \<Rightarrow> fanout \<Rightarrow> fanout \<times> (nat \<times> queue_call) list" where
  "drop_locked i st =
     (if i < length (fan_queues st) then
        let q = fan_queues st ! i in
        (st\<lparr>native := filter (\<lambda>(k, _). k \<noteq> (q_viewer_id q, q_stream_id q)) (native st)\<rparr>, [(i, Close_Queue)])
      else (st, []))"

definition drop_handle :: "(nat \<Rightarrow> nat) \<Rightarrow> nat \<Rightarrow> fanout \<Rightarrow> fanout" where
  "drop_handle alloc i st = run_calls alloc (drop_locked i st)"

section \<open>Decodable output\<close>

text \<open>
  \<open>decodes key prev history out d\<close>: \<open>out\<close> is what is left of \<open>history\<close> when some frames are left
  out, and every frame in it that is no keyframe directly follows, in the history, a frame that is in
  \<open>out\<close> too. \<open>prev\<close> says whether the frame before the history was delivered; when \<open>d\<close> holds, the last
  frame of the history was.
\<close>

fun decodes :: "('f \<Rightarrow> bool) \<Rightarrow> bool \<Rightarrow> 'f list \<Rightarrow> 'f list \<Rightarrow> bool \<Rightarrow> bool" where
  "decodes key prev [] out d \<longleftrightarrow> out = [] \<and> (d \<longrightarrow> prev)"
| "decodes key prev (h # hs) out d \<longleftrightarrow>
     decodes key False hs out d \<or>
     (case out of [] \<Rightarrow> False | f # fs \<Rightarrow> f = h \<and> (key h \<or> prev) \<and> decodes key True hs fs d)"

lemma decodes_none: "decodes key prev hs [] False"
  by (induction hs arbitrary: prev) auto

lemma decodes_weaken: "decodes key prev hs out d \<Longrightarrow> decodes key prev hs out False"
  by (induction hs arbitrary: prev out) (auto split: list.splits)

lemma decodes_skip: "decodes key prev hs out d \<Longrightarrow> decodes key prev (hs @ [f]) out False"
  by (induction hs arbitrary: prev out) (auto split: list.splits)

lemma decodes_take: "decodes key prev hs out d \<Longrightarrow> key f \<or> d \<Longrightarrow> decodes key prev (hs @ [f]) (out @ [f]) True"
proof (induction hs arbitrary: prev out)
  case Nil
  then show ?case by auto
next
  case (Cons h hs)
  from Cons.prems(1) consider "decodes key False hs out d"
    | fs where "out = h # fs" "key h \<or> prev" "decodes key True hs fs d"
    by (auto split: list.splits)
  then show ?case
  proof cases
    case 1
    from Cons.IH [OF this Cons.prems(2)] show ?thesis by simp
  next
    case 2
    from Cons.IH [OF this(3) Cons.prems(2)] 2 show ?thesis by simp
  qed
qed

lemma decodes_prefix: "decodes key prev hs (a @ b) d \<Longrightarrow> decodes key prev hs a False"
proof (induction hs arbitrary: prev a)
  case Nil
  then show ?case by simp
next
  case (Cons h hs)
  show ?case
  proof (cases a)
    case Nil
    then show ?thesis using decodes_none [of key prev "h # hs"] by simp
  next
    case (Cons x xs)
    with Cons.prems Cons.IH [of False a] Cons.IH [of True xs] show ?thesis by auto
  qed
qed

lemma decodes_all: "decodes key True hs hs True"
  by (induction hs) auto

lemma decodes_key_led: "hs \<noteq> [] \<Longrightarrow> key (hd hs) \<Longrightarrow> decodes key False hs hs True"
  by (cases hs) (auto simp: decodes_all)

section \<open>The viewer queue\<close>

definition frame_key :: "frame \<Rightarrow> bool" where
  "frame_key f = (case header_of f of None \<Rightarrow> False | Some h \<Rightarrow> vh_is_key h)"

abbreviation pictures :: "frame list \<Rightarrow> frame list" where
  "pictures \<equiv> filter (\<lambda>f. \<not> is_bootstrap_boundary f)"

abbreviation boundaries :: "frame list \<Rightarrow> frame list" where
  "boundaries \<equiv> filter is_bootstrap_boundary"

abbreviation total_bytes :: "frame list \<Rightarrow> nat" where
  "total_bytes fs \<equiv> sum_list (map retained_bytes fs)"

lemma bootstrap_boundary_is [simp]: "is_bootstrap_boundary (bootstrap_boundary alloc s)"
proof -
  let ?f = "\<lparr>vf_ts_ms = 0, vf_is_key = False, vf_bootstrap_end = True, vf_stream_id = s, vf_data = []\<rparr>"
  have "wf_video_frame ?f" by (simp add: wf_video_frame_def video_consts)
  from parse_header_frame_bytes [OF this, of "[]"] show ?thesis
    by (simp add: is_bootstrap_boundary_def header_of_def bootstrap_boundary_def from_vec_def sf_as_slice_def
        encode_video_bootstrap_end_bytes)
qed

lemma bootstrap_boundary_retained [simp]:
  "retained_bytes (bootstrap_boundary alloc s) = alloc VIDEO_FRAME_HEADER_LEN"
  by (simp add: bootstrap_boundary_def retained_bytes_def from_vec_def)

text \<open>
  \<open>queue_shape\<close> is the representation invariant of a queue; \<open>view_ok alloc q hs out\<close> relates it to
  the frames \<open>hs\<close> offered to the viewer (the seeded cache, then the live frames pushed while it was
  open) and the frames \<open>out\<close> it has taken.
\<close>

definition queue_shape :: "(nat \<Rightarrow> nat) \<Rightarrow> native_queue \<Rightarrow> bool" where
  "queue_shape alloc q \<longleftrightarrow>
     q_pending_bytes q = total_bytes (q_frames q) \<and>
     length (boundaries (q_frames q)) = (if bootstrap_boundary_pending q then 1 else 0) \<and>
     (\<forall>b \<in> set (boundaries (q_frames q)). retained_bytes b = alloc VIDEO_FRAME_HEADER_LEN) \<and>
     length (pictures (q_frames q)) \<le> MAX_BOOTSTRAP_FRAMES \<and>
     total_bytes (pictures (q_frames q)) \<le> MAX_PENDING_BYTES"

definition boundary_count :: "native_queue \<Rightarrow> nat" where
  "boundary_count q = (if bootstrap_complete q then 1 else 0)"

definition next_fits :: "native_queue \<Rightarrow> bool" where
  "next_fits q \<longleftrightarrow> \<not> q_closed q \<and> seen_keyframe q \<and> \<not> awaiting_keyframe q"

definition view_ok :: "(nat \<Rightarrow> nat) \<Rightarrow> native_queue \<Rightarrow> frame list \<Rightarrow> frame list \<Rightarrow> bool" where
  "view_ok alloc q hs out \<longleftrightarrow>
     queue_shape alloc q \<and>
     list_all (\<lambda>f. \<not> is_bootstrap_boundary f) hs \<and>
     decodes frame_key False hs (pictures out @ pictures (q_frames q)) (next_fits q) \<and>
     written_frames q = of_nat (length out) \<and>
     length (boundaries out) + length (boundaries (q_frames q)) \<le> boundary_count q \<and>
     (q_closed q \<or>
        length (boundaries out) + length (boundaries (q_frames q)) = boundary_count q \<and>
        written_frames q + of_nat (length (q_frames q)) + dropped_frames q = of_nat (length hs + boundary_count q))"

lemma total_bytes_split: "total_bytes fs = total_bytes (pictures fs) + total_bytes (boundaries fs)"
  by (induction fs) simp_all

lemma length_split: "length fs = length (pictures fs) + length (boundaries fs)"
  by (induction fs) simp_all

text \<open>Dropping the queued pictures keeps an unwritten boundary and counts what was lost.\<close>

lemma clear_counted_facts:
  assumes "queue_shape alloc q"
  shows "queue_shape alloc (clear_counted q)"
    and "pictures (q_frames (clear_counted q)) = []"
    and "boundaries (q_frames (clear_counted q)) = boundaries (q_frames q)"
    and "dropped_frames (clear_counted q) = dropped_frames q + of_nat (length (pictures (q_frames q)))"
    and "\<exists>fs n d. clear_counted q = q\<lparr>q_frames := fs, q_pending_bytes := n, dropped_frames := d\<rparr>"
proof -
  have s: "length (boundaries (q_frames q)) = (if bootstrap_boundary_pending q then 1 else 0)"
    using assms by (simp add: queue_shape_def)
  let ?b = "if bootstrap_boundary_pending q then find is_bootstrap_boundary (q_frames q) else None"
  have b: "(case ?b of None \<Rightarrow> [] | Some b \<Rightarrow> [b]) = boundaries (q_frames q)"
  proof (cases "bootstrap_boundary_pending q")
    case True
    with s obtain b where b: "boundaries (q_frames q) = [b]" by (auto simp: length_Suc_conv)
    have "find is_bootstrap_boundary fs = Some b" if "boundaries fs = [b]" for fs
      using that by (induction fs) (auto split: if_splits)
    with b True show ?thesis by simp
  qed (use s in simp)
  let ?fs = "boundaries (q_frames q)"
  have clear: "clear_counted q = q\<lparr>q_frames := ?fs, q_pending_bytes := total_bytes ?fs,
      dropped_frames := dropped_frames q + of_nat (length (pictures (q_frames q)))\<rparr>"
  proof (cases ?b)
    case None
    then have "?fs = []" using b by simp
    with None show ?thesis by (simp add: clear_counted_def clear_frames_def)
  next
    case (Some x)
    then have "?fs = [x]" using b by simp
    with Some show ?thesis by (simp add: clear_counted_def clear_frames_def)
  qed
  show "pictures (q_frames (clear_counted q)) = []" "boundaries (q_frames (clear_counted q)) = boundaries (q_frames q)"
    "dropped_frames (clear_counted q) = dropped_frames q + of_nat (length (pictures (q_frames q)))"
    "\<exists>fs n d. clear_counted q = q\<lparr>q_frames := fs, q_pending_bytes := n, dropped_frames := d\<rparr>"
    by (auto simp: clear)
  show "queue_shape alloc (clear_counted q)"
    using assms by (simp add: queue_shape_def clear)
qed

text \<open>The two ways a push ends: the frame is left out, or it is queued behind what is there.\<close>

lemma view_skip:
  assumes "view_ok alloc q hs out" and "\<not> q_closed q" and "\<not> is_bootstrap_boundary f"
    and "queue_shape alloc q'" and "q_closed q' = q_closed q" and "q_frames q' = q_frames q"
    and "bootstrap_complete q' = bootstrap_complete q" and "written_frames q' = written_frames q"
    and "dropped_frames q' = dropped_frames q + 1"
    and "\<not> next_fits q'"
  shows "view_ok alloc q' (hs @ [f]) out"
  using assms by (auto simp: view_ok_def boundary_count_def ac_simps intro: decodes_skip)

lemma view_take:
  assumes "view_ok alloc q hs out" and "\<not> q_closed q" and "\<not> is_bootstrap_boundary f"
    and "queue_shape alloc q'" and "q_closed q' = q_closed q" and "q_frames q' = q_frames q @ [f]"
    and "bootstrap_complete q' = bootstrap_complete q" and "written_frames q' = written_frames q"
    and "dropped_frames q' = dropped_frames q"
    and "frame_key f \<or> next_fits q" and "next_fits q'"
  shows "view_ok alloc q' (hs @ [f]) out"
  using assms decodes_take [of frame_key False hs "pictures out @ pictures (q_frames q)" "next_fits q" f]
  by (auto simp: view_ok_def boundary_count_def ac_simps)

lemma view_clear:
  assumes "view_ok alloc q hs out" and "\<not> q_closed q"
  shows "view_ok alloc ((clear_counted q)\<lparr>awaiting_keyframe := True\<rparr>) hs out"
proof -
  have shape: "queue_shape alloc q" using assms by (simp add: view_ok_def)
  note c = clear_counted_facts [OF shape]
  from c(5) obtain fs n d where q': "clear_counted q = q\<lparr>q_frames := fs, q_pending_bytes := n, dropped_frames := d\<rparr>"
    by blast
  have "length fs = length (boundaries (q_frames q))"
    using c(2,3) length_split [of fs] by (simp add: q')
  moreover have "d = dropped_frames q + of_nat (length (pictures (q_frames q)))" using c(4) by (simp add: q')
  moreover have "decodes frame_key False hs (pictures out) False"
    using assms(1) by (auto simp: view_ok_def intro: decodes_prefix)
  moreover have "queue_shape alloc ((clear_counted q)\<lparr>awaiting_keyframe := True\<rparr>)"
    using c(1) by (simp add: queue_shape_def)
  ultimately show ?thesis
    using assms c(2,3) length_split [of "q_frames q"]
    by (auto simp: view_ok_def q' boundary_count_def next_fits_def ac_simps)
qed

definition core :: "native_queue \<Rightarrow> frame list \<times> nat \<times> bool \<times> bool \<times> u64 \<times> u64 \<times> bool" where
  "core q = (q_frames q, q_pending_bytes q, q_closed q, bootstrap_complete q, written_frames q, dropped_frames q,
     bootstrap_boundary_pending q)"

lemma shape_core: "core q' = core q \<Longrightarrow> queue_shape alloc q' = queue_shape alloc q"
  by (simp add: core_def queue_shape_def)

lemma view_enqueue:
  assumes v: "view_ok alloc q hs out" and o: "\<not> q_closed q" and f: "\<not> is_bootstrap_boundary f"
    and room: "length (pictures (q_frames q)) < MAX_BOOTSTRAP_FRAMES"
      "retained_bytes f \<le> MAX_PENDING_BYTES \<Longrightarrow> total_bytes (pictures (q_frames q)) + retained_bytes f \<le> MAX_PENDING_BYTES"
    and fits: "frame_key f \<or> next_fits q"
    and q1: "core q1 = core q" "seen_keyframe q1" "\<not> awaiting_keyframe q1"
  shows "view_ok alloc (enqueue_frame f q1) (hs @ [f]) out"
proof -
  have c: "q_frames q1 = q_frames q" "q_pending_bytes q1 = q_pending_bytes q" "q_closed q1 = q_closed q"
      "bootstrap_complete q1 = bootstrap_complete q" "written_frames q1 = written_frames q"
      "dropped_frames q1 = dropped_frames q" "bootstrap_boundary_pending q1 = bootstrap_boundary_pending q"
    using q1(1) by (simp_all add: core_def)
  have shape: "queue_shape alloc q" using v by (simp add: view_ok_def)
  show ?thesis
  proof (cases "retained_bytes f > MAX_PENDING_BYTES")
    case True
    then have e: "enqueue_frame f q1 = begin_awaiting_keyframe q1" by (simp add: enqueue_frame_def)
    have "queue_shape alloc (begin_awaiting_keyframe q1)"
      using shape by (simp add: queue_shape_def begin_awaiting_keyframe_def c)
    with v o f show ?thesis unfolding e
      by (rule view_skip) (simp_all add: begin_awaiting_keyframe_def next_fits_def c)
  next
    case False
    let ?q = "q1\<lparr>q_pending_bytes := q_pending_bytes q1 + retained_bytes f, q_frames := q_frames q1 @ [f]\<rparr>"
    have e: "enqueue_frame f q1 = ?q" using False by (simp add: enqueue_frame_def)
    have "queue_shape alloc ?q"
      using shape room False f by (auto simp: queue_shape_def c)
    with v o f show ?thesis unfolding e
      by (rule view_take) (use fits q1(2,3) o in \<open>simp_all add: next_fits_def c\<close>)
  qed
qed

lemma not_over_limit:
  assumes "queue_shape alloc q" and "\<not> over_limit q f"
  shows "length (pictures (q_frames q)) < MAX_BOOTSTRAP_FRAMES"
    and "total_bytes (pictures (q_frames q)) + retained_bytes f \<le> MAX_PENDING_BYTES"
proof -
  have "length (q_frames q) < MAX_BOOTSTRAP_FRAMES"
    using assms(2)
    by (auto simp: over_limit_def MAX_BOOTSTRAP_FRAMES_def MAX_PENDING_FRAMES_def FAST_START_MAX_FRAMES_def split: if_splits)
  then show "length (pictures (q_frames q)) < MAX_BOOTSTRAP_FRAMES"
    by (rule le_less_trans [OF length_filter_le])
  show "total_bytes (pictures (q_frames q)) + retained_bytes f \<le> MAX_PENDING_BYTES"
    using assms total_bytes_split [of "q_frames q"] by (simp add: over_limit_def queue_shape_def)
qed

lemma view_push_cleared:
  assumes v: "view_ok alloc q hs out" and o: "\<not> q_closed q" and f: "\<not> is_bootstrap_boundary f" "frame_key f"
    and q1: "core q1 = core (clear_counted q)" "seen_keyframe q1" "\<not> awaiting_keyframe q1"
  shows "view_ok alloc (enqueue_frame f q1) (hs @ [f]) out"
proof -
  let ?c = "(clear_counted q)\<lparr>awaiting_keyframe := True\<rparr>"
  have shape: "queue_shape alloc q" using v by (simp add: view_ok_def)
  note c = clear_counted_facts [OF shape]
  have "\<not> q_closed ?c" using c(5) o by auto
  moreover have "core q1 = core ?c" using q1(1) by (simp add: core_def)
  ultimately show ?thesis
    using view_enqueue [OF view_clear [OF v o], of f q1] f q1(2,3) c(2)
    by (simp add: MAX_BOOTSTRAP_FRAMES_def FAST_START_MAX_FRAMES_def)
qed

lemma view_push:
  assumes v: "view_ok alloc q hs out" and f: "\<not> is_bootstrap_boundary f"
  shows "view_ok alloc (q_push f (frame_key f) q) (if q_closed q then hs else hs @ [f]) out"
proof (cases "q_closed q")
  case True
  then show ?thesis using v by (simp add: q_push_def)
next
  case o: False
  define q1 where "q1 = (if seen_keyframe q then q\<lparr>received_frames := received_frames q + 1\<rparr>
    else q\<lparr>received_frames := received_frames q + 1, seen_keyframe := True\<rparr>)"
  have core: "core q1 = core q" "awaiting_keyframe q1 = awaiting_keyframe q" "seen_keyframe q1"
    by (simp_all add: q1_def core_def)
  have shape: "queue_shape alloc q" using v by (simp add: view_ok_def)
  have skip: "view_ok alloc q' (hs @ [f]) out"
    if "core q' = core (q\<lparr>dropped_frames := dropped_frames q + 1\<rparr>)" "\<not> next_fits q'" for q'
  proof -
    have "queue_shape alloc q'" using shape that(1) by (simp add: queue_shape_def core_def)
    with v o f show ?thesis by (rule view_skip) (use that in \<open>simp_all add: core_def\<close>)
  qed
  consider (early) "\<not> seen_keyframe q" "\<not> frame_key f" | (go) "seen_keyframe q \<or> frame_key f" by blast
  then have "view_ok alloc (q_push f (frame_key f) q) (hs @ [f]) out"
  proof cases
    case early
    then have "q_push f (frame_key f) q =
        q\<lparr>received_frames := received_frames q + 1, dropped_frames := dropped_frames q + 1\<rparr>"
      using o by (simp add: q_push_def Let_def)
    then show ?thesis using skip early by (simp add: core_def next_fits_def)
  next
    case go
    have "q_push f (frame_key f) q =
        (if awaiting_keyframe q1 then
           (if \<not> frame_key f then q1\<lparr>dropped_frames := dropped_frames q1 + 1\<rparr>
            else enqueue_frame f ((clear_counted q1)\<lparr>awaiting_keyframe := False\<rparr>))
         else if over_limit q1 f then
           (if frame_key f then enqueue_frame f (clear_counted q1) else begin_awaiting_keyframe q1)
         else enqueue_frame f q1)"
      using o go by (auto simp: q_push_def Let_def q1_def)
    moreover have "view_ok alloc (q1\<lparr>dropped_frames := dropped_frames q1 + 1\<rparr>) (hs @ [f]) out" if "awaiting_keyframe q1"
      by (rule skip) (use that core in \<open>simp_all add: core_def next_fits_def q1_def\<close>)
    moreover have "view_ok alloc (begin_awaiting_keyframe q1) (hs @ [f]) out"
      by (rule skip) (use core in \<open>simp_all add: core_def next_fits_def begin_awaiting_keyframe_def q1_def\<close>)
    moreover have "view_ok alloc (enqueue_frame f q2) (hs @ [f]) out"
      if "frame_key f" "core q2 = core (clear_counted q)" "seen_keyframe q2" "\<not> awaiting_keyframe q2" for q2
      using view_push_cleared [OF v o f] that by blast
    moreover have "core (clear_counted q1) = core (clear_counted q)"
      by (simp add: clear_counted_def clear_frames_def core_def q1_def Let_def split: option.split)
    moreover have "seen_keyframe (clear_counted q1)" "awaiting_keyframe (clear_counted q1) = awaiting_keyframe q1"
      by (simp_all add: clear_counted_def clear_frames_def q1_def Let_def split: option.split)
    moreover have "view_ok alloc (enqueue_frame f q1) (hs @ [f]) out" if "\<not> awaiting_keyframe q1" "\<not> over_limit q1 f"
    proof (rule view_enqueue [OF v o f])
      have "\<not> over_limit q f" using that(2) by (auto simp: over_limit_def q1_def split: if_splits)
      from not_over_limit [OF shape this]
      show "length (pictures (q_frames q)) < MAX_BOOTSTRAP_FRAMES"
        "total_bytes (pictures (q_frames q)) + retained_bytes f \<le> MAX_PENDING_BYTES" by simp_all
      show "frame_key f \<or> next_fits q" using go that(1) o core(2) by (auto simp: next_fits_def)
    qed (use core that in simp_all)
    ultimately show ?thesis by (auto simp: core_def)
  qed
  then show ?thesis using o by simp
qed

lemma view_close: "view_ok alloc q hs out \<Longrightarrow> view_ok alloc (q_close q) hs out"
  by (auto simp: view_ok_def queue_shape_def q_close_def next_fits_def boundary_count_def intro: decodes_prefix)

lemma view_finish:
  assumes "view_ok alloc q hs out"
  shows "view_ok alloc (finish_bootstrap alloc q) hs out"
proof (cases "bootstrap_complete q")
  case True
  then show ?thesis using assms by (simp add: finish_bootstrap_def)
next
  case False
  with assms have "bootstrap_boundary_pending q = False"
    by (auto simp: view_ok_def queue_shape_def boundary_count_def split: if_splits)
  with False assms show ?thesis
    by (auto simp: finish_bootstrap_def push_bootstrap_boundary_def Let_def view_ok_def queue_shape_def
        boundary_count_def next_fits_def ac_simps)
qed

lemma view_pop:
  assumes "view_ok alloc q hs out" and "q_pop q = Some (f, q')"
  shows "view_ok alloc q' hs (out @ [f])"
proof -
  from assms(2) obtain fs where fs: "q_frames q = f # fs" by (auto simp: q_pop_def Let_def split: list.splits)
  have b: "length (boundaries (f # fs)) = (if bootstrap_boundary_pending q then 1 else 0)"
    using assms(1) by (simp add: view_ok_def queue_shape_def fs)
  have q': "q_frames q' = fs" "q_pending_bytes q' = q_pending_bytes q - retained_bytes f" "q_closed q' = q_closed q"
      "bootstrap_complete q' = bootstrap_complete q" "written_frames q' = written_frames q + 1"
      "dropped_frames q' = dropped_frames q" "next_fits q' = next_fits q"
      "bootstrap_boundary_pending q' = (if is_bootstrap_boundary f then False else bootstrap_boundary_pending q)"
    using assms(2) by (auto simp: q_pop_def fs next_fits_def Let_def split: if_splits)
  have "queue_shape alloc q'"
    using assms(1) b by (auto simp: view_ok_def queue_shape_def q' fs split: if_splits)
  then show ?thesis
    using assms(1) by (auto simp: view_ok_def q' fs boundary_count_def ac_simps split: if_splits)
qed

text \<open>The cache: empty or led by a keyframe, counted and bounded.\<close>

definition fs_ok :: "fast_start \<Rightarrow> bool" where
  "fs_ok c \<longleftrightarrow> (fs_frames c = [] \<or> frame_key (hd (fs_frames c)) \<and> list_all (\<lambda>f. \<not> frame_key f) (tl (fs_frames c))) \<and>
     list_all (\<lambda>f. \<not> is_bootstrap_boundary f) (fs_frames c) \<and>
     fs_bytes c = total_bytes (fs_frames c) \<and> length (fs_frames c) \<le> MAX_BOOTSTRAP_FRAMES \<and>
     fs_bytes c \<le> FAST_START_MAX_BYTES"

lemma fs_default_ok [simp]: "fs_ok fs_default"
  by (simp add: fs_ok_def fs_default_def)

lemma fs_push_ok: "fs_ok c \<Longrightarrow> \<not> is_bootstrap_boundary f \<Longrightarrow> fs_ok (fs_push f (frame_key f) c)"
  by (cases "fs_frames c") (auto simp: fs_push_def Let_def fs_ok_def fs_default_def)

lemma view_seed:
  assumes "case cached of None \<Rightarrow> True | Some c \<Rightarrow> fs_ok c"
  shows "view_ok alloc (seed alloc (map_option fs_frames cached) complete (q_new viewer stream))
           (case cached of None \<Rightarrow> [] | Some c \<Rightarrow> fs_frames c) []"
proof -
  let ?fs = "case cached of None \<Rightarrow> [] | Some c \<Rightarrow> fs_frames c"
  have fs: "list_all (\<lambda>f. \<not> is_bootstrap_boundary f) ?fs" "length ?fs \<le> MAX_BOOTSTRAP_FRAMES"
      "total_bytes ?fs \<le> MAX_PENDING_BYTES" "?fs \<noteq> [] \<longrightarrow> frame_key (hd ?fs)"
    using assms by (auto simp: fs_ok_def FAST_START_MAX_BYTES_def MAX_PENDING_BYTES_def split: option.splits)
  have nb: "pictures ?fs = ?fs" "boundaries ?fs = []"
    using fs(1) by (auto simp: list_all_iff filter_empty_conv intro!: filter_True)
  have d: "decodes frame_key False ?fs ?fs (?fs \<noteq> [])"
    using fs(4) decodes_key_led [of ?fs frame_key] by (cases ?fs) auto
  have seed: "seed alloc (map_option fs_frames cached) complete (q_new viewer stream) =
      (q_new viewer stream)\<lparr>q_frames := ?fs @ (if complete then [bootstrap_boundary alloc stream] else []),
        q_pending_bytes := total_bytes (?fs @ (if complete then [bootstrap_boundary alloc stream] else [])),
        seen_keyframe := ?fs \<noteq> [], bootstrapping := True, bootstrap_complete := complete,
        bootstrap_boundary_pending := complete\<rparr>"
    by (cases cached) (simp_all add: seed_def Let_def push_bootstrap_boundary_def q_new_def)
  show ?thesis
    unfolding seed using fs d
    by (auto simp: view_ok_def queue_shape_def next_fits_def boundary_count_def q_new_def nb)
qed

section \<open>The fan-out under any interleaving\<close>

text \<open>
  A run of the whole component. The part of an operation that holds the lock is one event; the calls
  it makes on queues after it gave the lock back are \<open>pending\<close> and are carried out one by one, in any
  order that keeps the calls on one queue in sequence (one worker feeds a stream). A consumer pops,
  or closes its queue, at any time. \<open>accepted\<close> records for each viewer the cache it was seeded with
  and every frame of its stream accepted while it was registered; \<open>taken\<close> records what it popped.
\<close>

record world =
  fan :: fanout
  pending :: "(nat \<times> queue_call) list"
  accepted :: "frame list list"
  taken :: "frame list list"

datatype fan_event =
    Ev_Send frame | Ev_Call nat | Ev_Begin stream_id | Ev_Register u64 stream_id bool
  | Ev_Start stream_id | Ev_Close stream_id | Ev_Pop nat | Ev_Close_Queue nat | Ev_Drop nat

fun pushes :: "nat \<Rightarrow> (nat \<times> queue_call) list \<Rightarrow> frame list" where
  "pushes i [] = []"
| "pushes i ((j, Push_Frame f k) # cs) = (if i = j then f # pushes i cs else pushes i cs)"
| "pushes i (_ # cs) = pushes i cs"

definition locked :: "fanout \<times> (nat \<times> queue_call) list \<Rightarrow> world \<Rightarrow> world" where
  "locked r w = (case r of (st, calls) \<Rightarrow>
     w\<lparr>fan := st, pending := pending w @ calls,
       accepted := map (\<lambda>i. accepted w ! i @ pushes i calls) [0..<length (accepted w)]\<rparr>)"

fun world_step :: "(nat \<Rightarrow> nat) \<Rightarrow> world \<Rightarrow> fan_event \<Rightarrow> world" where
  "world_step alloc w (Ev_Send f) = locked (send_locked f (fan w)) w"
| "world_step alloc w (Ev_Call n) =
     (if n < length (pending w) \<and> fst (pending w ! n) \<notin> fst ` set (take n (pending w)) then
        w\<lparr>fan := upd_queue (fst (pending w ! n)) (run_call alloc (snd (pending w ! n))) (fan w),
          pending := take n (pending w) @ drop (Suc n) (pending w)\<rparr>
      else w)"
| "world_step alloc w (Ev_Begin s) = w\<lparr>fan := begin_upstream_bootstrap s (fan w)\<rparr>"
| "world_step alloc w (Ev_Register v s wait) =
     (case register_native alloc v s wait (fan w) of
        Inl _ \<Rightarrow> w
      | Inr (i, st) \<Rightarrow>
          w\<lparr>fan := st, accepted := accepted w @ [case fan_fast_start (fan w) s of None \<Rightarrow> [] | Some c \<Rightarrow> fs_frames c],
            taken := taken w @ [[]]\<rparr>)"
| "world_step alloc w (Ev_Start s) = w\<lparr>fan := start_stream s (fan w)\<rparr>"
| "world_step alloc w (Ev_Close s) = locked (close_locked s (fan w)) w"
| "world_step alloc w (Ev_Pop i) =
     (if i < length (fan_queues (fan w)) then
        (case q_pop (fan_queues (fan w) ! i) of
           None \<Rightarrow> w
         | Some (f, q) \<Rightarrow> w\<lparr>fan := upd_queue i (\<lambda>_. q) (fan w), taken := (taken w)[i := taken w ! i @ [f]]\<rparr>)
      else w)"
| "world_step alloc w (Ev_Close_Queue i) = w\<lparr>fan := upd_queue i q_close (fan w)\<rparr>"
| "world_step alloc w (Ev_Drop i) = locked (drop_locked i (fan w)) w"

definition run_world :: "(nat \<Rightarrow> nat) \<Rightarrow> bool \<Rightarrow> fan_event list \<Rightarrow> world" where
  "run_world alloc web evs =
     foldl (world_step alloc) \<lparr>fan = fan_new web, pending = [], accepted = [], taken = []\<rparr> evs"

text \<open>The invariant of the fan-out's own state.\<close>

definition fan_inv :: "fanout \<Rightarrow> bool" where
  "fan_inv st \<longleftrightarrow>
     (\<forall>((v, s), i) \<in> set (native st). s \<in> active_streams st \<and> i < length (fan_queues st) \<and>
        q_viewer_id (fan_queues st ! i) = v \<and> q_stream_id (fan_queues st ! i) = s) \<and>
     distinct (map fst (native st)) \<and>
     (\<forall>s c. fan_fast_start st s = Some c \<longrightarrow> s \<in> active_streams st \<and> fs_ok c) \<and>
     (\<forall>s b. fan_bootstrap st s = Some b \<longrightarrow> s \<in> active_streams st)"

definition call_ok :: "nat \<times> queue_call \<Rightarrow> bool" where
  "call_ok c = (case snd c of Push_Frame f k \<Rightarrow> \<not> is_bootstrap_boundary f \<and> k = frame_key f | _ \<Rightarrow> True)"

definition calls_ok :: "fanout \<Rightarrow> (nat \<times> queue_call) list \<Rightarrow> bool" where
  "calls_ok st calls \<longleftrightarrow> (\<forall>c \<in> set calls. call_ok c \<and> fst c < length (fan_queues st))"

definition viewers_ok :: "(nat \<Rightarrow> nat) \<Rightarrow> world \<Rightarrow> bool" where
  "viewers_ok alloc w \<longleftrightarrow>
     length (accepted w) = length (fan_queues (fan w)) \<and> length (taken w) = length (fan_queues (fan w)) \<and>
     calls_ok (fan w) (pending w) \<and>
     (\<forall>i < length (fan_queues (fan w)). \<exists>hs rest.
        view_ok alloc (fan_queues (fan w) ! i) hs (taken w ! i) \<and>
        accepted w ! i = hs @ rest \<and>
        (q_closed (fan_queues (fan w) ! i) \<or> rest = pushes i (pending w)))"

lemma pushes_append [simp]: "pushes i (cs @ ds) = pushes i cs @ pushes i ds"
  by (induction i cs rule: pushes.induct) auto

lemma pushes_close [simp]: "pushes i (map (\<lambda>j. (j, Close_Queue)) js) = []"
  and pushes_finish [simp]: "pushes i (map (\<lambda>j. (j, Finish_Bootstrap)) js) = []"
  by (induction js) simp_all

lemma pushes_other: "i \<notin> fst ` set cs \<Longrightarrow> pushes i cs = []"
  by (induction i cs rule: pushes.induct) auto

lemma parsed_frame_facts:
  assumes "parse_video_frame (sf_as_slice f) = Inr (Some (p, n))"
  shows "is_bootstrap_boundary f = vf_bootstrap_end p" and "frame_key f = vf_is_key p"
  using parse_video_frame_header_of [OF assms] by (auto simp: is_bootstrap_boundary_def frame_key_def header_of_def)

text \<open>Every locked part leaves the queues alone and keeps the invariant; the calls it asks for are well formed.\<close>

lemma length_upd_queue [simp]: "length (fan_queues (upd_queue i g st)) = length (fan_queues st)"
  by (simp add: upd_queue_def)

lemma stream_queues_bound: "fan_inv st \<Longrightarrow> i \<in> set (stream_queues s st) \<Longrightarrow> i < length (fan_queues st)"
  by (auto simp: fan_inv_def stream_queues_def)

lemma accept_frame_ok:
  assumes "fan_inv st" and "s \<in> active_streams st" and "\<not> is_bootstrap_boundary f"
    and "accept_frame f s (frame_key f) st = (st', calls)"
  shows "fan_queues st' = fan_queues st \<and> fan_inv st' \<and> calls_ok st calls"
proof -
  let ?c = "case fan_fast_start st s of None \<Rightarrow> fs_default | Some c \<Rightarrow> c"
  have "fs_ok ?c" using assms(1) by (auto simp: fan_inv_def split: option.split)
  note push = fs_push_ok [OF this assms(3)]
  have "stream_queues s st' = stream_queues s st" "calls = map (\<lambda>i. (i, Push_Frame f (frame_key f))) (stream_queues s st')"
    using assms(4) by (auto simp: accept_frame_def Let_def stream_queues_def)
  then have "calls_ok st calls"
    using stream_queues_bound [OF assms(1)] assms(3) by (auto simp: calls_ok_def call_ok_def)
  moreover have "fan_queues st' = fan_queues st \<and> fan_inv st'"
    using assms push by (cases "fan_web st") (auto simp: accept_frame_def Let_def fan_inv_def split: if_splits)
  ultimately show ?thesis by simp
qed

lemma send_locked_ok:
  assumes "fan_inv st" and "send_locked f st = (st', calls)"
  shows "fan_queues st' = fan_queues st \<and> fan_inv st' \<and> calls_ok st calls"
proof (cases "\<exists>p. parse_video_frame (sf_as_slice f) = Inr (Some (p, sf_len f))")
  case False
  then have "st' = st\<lparr>malformed_frames := malformed_frames st + 1\<rparr>" "calls = []"
    using assms(2) by (auto simp: send_locked_def split: sum.splits option.splits if_splits)
  then show ?thesis using assms(1) by (simp add: fan_inv_def calls_ok_def)
next
  case True
  then obtain p where p: "parse_video_frame (sf_as_slice f) = Inr (Some (p, sf_len f))" by blast
  note facts = parsed_frame_facts [OF p]
  let ?s = "vf_stream_id p"
  consider (boundary) "vf_bootstrap_end p"
      "st' = fst (finish_locked ?s st)" "calls = map (\<lambda>i. (i, Finish_Bootstrap)) (snd (finish_locked ?s st))"
    | (inactive) "st' = st\<lparr>inactive_frames := inactive_frames st + 1\<rparr>" "calls = []"
    | (replayed) b where "?s \<in> active_streams st" "calls = []"
        "st' = st\<lparr>fan_bootstrap := (fan_bootstrap st)(?s := Some b)\<rparr>"
    | (accept) "?s \<in> active_streams st" "\<not> vf_bootstrap_end p" "accept_frame f ?s (vf_is_key p) st = (st', calls)"
    using assms(2) p
    by (auto simp: send_locked_def Let_def split: if_splits option.splits prod.splits)
  then show ?thesis
  proof cases
    case boundary
    then show ?thesis using assms(1) stream_queues_bound [OF assms(1)]
      by (auto simp: finish_locked_def fan_inv_def call_ok_def calls_ok_def split: option.splits)
  next
    case accept
    with accept_frame_ok [OF assms(1)] facts show ?thesis by auto
  qed (use assms(1) in \<open>auto simp: fan_inv_def calls_ok_def\<close>)
qed

lemma close_locked_ok:
  assumes "fan_inv st" and "close_locked s st = (st', calls)"
  shows "fan_queues st' = fan_queues st \<and> fan_inv st' \<and> calls_ok st calls"
  using assms stream_queues_bound [OF assms(1)]
  by (auto simp: close_locked_def fan_inv_def call_ok_def calls_ok_def distinct_map_filter split: if_splits)

lemma drop_locked_ok:
  assumes "fan_inv st" and "drop_locked i st = (st', calls)"
  shows "fan_queues st' = fan_queues st \<and> fan_inv st' \<and> calls_ok st calls"
  using assms
  by (auto simp: drop_locked_def Let_def fan_inv_def call_ok_def calls_ok_def distinct_map_filter split: if_splits)

lemma upd_queue_inv:
  assumes "fan_inv st" and "\<And>q. q_viewer_id (g q) = q_viewer_id q \<and> q_stream_id (g q) = q_stream_id q"
  shows "fan_inv (upd_queue i g st)"
proof -
  have "q_viewer_id (fan_queues (upd_queue i g st) ! j) = q_viewer_id (fan_queues st ! j) \<and>
        q_stream_id (fan_queues (upd_queue i g st) ! j) = q_stream_id (fan_queues st ! j)"
    if "j < length (fan_queues st)" for j
    using that assms(2) by (simp add: upd_queue_def nth_list_update)
  moreover have "length (fan_queues (upd_queue i g st)) = length (fan_queues st)"
    "native (upd_queue i g st) = native st" "active_streams (upd_queue i g st) = active_streams st"
    "fan_fast_start (upd_queue i g st) = fan_fast_start st" "fan_bootstrap (upd_queue i g st) = fan_bootstrap st"
    by (simp_all add: upd_queue_def)
  ultimately show ?thesis using assms(1) by (fastforce simp: fan_inv_def)
qed

lemma register_native_inv:
  assumes "fan_inv st" and "register_native alloc v s wait st = Inr (i, st')"
  shows "fan_inv st'"
proof -
  from assms(2) obtain q where s: "s \<in> active_streams st" "map_of (native st) (v, s) = None"
    and st': "i = length (fan_queues st)" "st' = st\<lparr>native := ((v, s), i) # native st, fan_queues := fan_queues st @ [q]\<rparr>"
    and q: "q_viewer_id q = v" "q_stream_id q = s"
    by (auto simp: register_native_def Let_def seed_def push_bootstrap_boundary_def q_new_def split: if_splits)
  from s(2) have "(v, s) \<notin> fst ` set (native st)" by (simp add: map_of_eq_None_iff)
  with assms(1) s(1) q show ?thesis
    by (fastforce simp: fan_inv_def st' nth_append)
qed

text \<open>The viewers under each kind of event.\<close>

lemma viewers_locked:
  assumes "viewers_ok alloc w" and "fan_queues st' = fan_queues (fan w)" and "calls_ok (fan w) calls"
  shows "viewers_ok alloc (locked (st', calls) w)"
proof -
  have "\<exists>hs rest. view_ok alloc (fan_queues (fan w) ! i) hs (taken w ! i) \<and> accepted w ! i @ pushes i calls = hs @ rest \<and>
      (q_closed (fan_queues (fan w) ! i) \<or> rest = pushes i (pending w @ calls))" if i: "i < length (fan_queues (fan w))" for i
  proof -
    from assms(1) i obtain hs rest where "view_ok alloc (fan_queues (fan w) ! i) hs (taken w ! i)"
      "accepted w ! i = hs @ rest" "q_closed (fan_queues (fan w) ! i) \<or> rest = pushes i (pending w)"
      by (auto simp: viewers_ok_def)
    then show ?thesis by (intro exI [of _ hs] exI [of _ "rest @ pushes i calls"]) auto
  qed
  moreover have "calls_ok st' (pending w @ calls)" using assms by (auto simp: viewers_ok_def calls_ok_def)
  ultimately show ?thesis using assms by (simp add: viewers_ok_def locked_def)
qed

lemma viewers_upd:
  assumes w: "viewers_ok alloc w" and i: "i < length (fan_queues (fan w))"
    and q: "\<And>hs. view_ok alloc (fan_queues (fan w) ! i) hs (taken w ! i) \<Longrightarrow> view_ok alloc (g (fan_queues (fan w) ! i)) hs out"
      "q_closed (fan_queues (fan w) ! i) \<Longrightarrow> q_closed (g (fan_queues (fan w) ! i))"
  shows "viewers_ok alloc (w\<lparr>fan := upd_queue i g (fan w), taken := (taken w)[i := out]\<rparr>)"
proof -
  let ?qs = "(fan_queues (fan w))[i := g (fan_queues (fan w) ! i)]"
  have l: "length (taken w) = length (fan_queues (fan w))" using w by (simp add: viewers_ok_def)
  have "\<exists>hs rest. view_ok alloc (?qs ! j) hs ((taken w)[i := out] ! j) \<and> accepted w ! j = hs @ rest \<and>
      (q_closed (?qs ! j) \<or> rest = pushes j (pending w))" if j: "j < length (fan_queues (fan w))" for j
  proof -
    from w j obtain hs rest where v: "view_ok alloc (fan_queues (fan w) ! j) hs (taken w ! j)"
      "accepted w ! j = hs @ rest" "q_closed (fan_queues (fan w) ! j) \<or> rest = pushes j (pending w)"
      by (auto simp: viewers_ok_def)
    show ?thesis
    proof (cases "i = j")
      case True
      with v q j l show ?thesis by (intro exI [of _ hs] exI [of _ rest]) auto
    next
      case False
      with v j l show ?thesis by (intro exI [of _ hs] exI [of _ rest]) auto
    qed
  qed
  with w i show ?thesis by (simp add: viewers_ok_def upd_queue_def calls_ok_def)
qed

lemma run_call_view:
  assumes "view_ok alloc q hs out" and "call_ok (i, c)"
  shows "view_ok alloc (run_call alloc c q) (if q_closed q then hs else hs @ pushes i [(i, c)]) out"
    and "q_closed q \<Longrightarrow> q_closed (run_call alloc c q)"
proof -
  show "view_ok alloc (run_call alloc c q) (if q_closed q then hs else hs @ pushes i [(i, c)]) out"
    using assms view_push [OF assms(1)] view_finish [OF assms(1)] view_close [OF assms(1)]
    by (cases c) (auto simp: run_call_def call_ok_def)
  show "q_closed q \<Longrightarrow> q_closed (run_call alloc c q)"
    by (cases c) (simp_all add: run_call_def q_push_def finish_bootstrap_def push_bootstrap_boundary_def Let_def q_close_def)
qed

lemma viewers_call:
  assumes w: "viewers_ok alloc w" and p: "pending w = pre @ (i, c) # post" and first: "i \<notin> fst ` set pre"
  shows "viewers_ok alloc (w\<lparr>fan := upd_queue i (run_call alloc c) (fan w), pending := pre @ post\<rparr>)"
proof -
  let ?q = "\<lambda>j. fan_queues (upd_queue i (run_call alloc c) (fan w)) ! j"
  have c: "call_ok (i, c)" and cs: "calls_ok (upd_queue i (run_call alloc c) (fan w)) (pre @ post)"
    using w p by (auto simp: viewers_ok_def calls_ok_def)
  have pi: "pushes i (pending w) = pushes i [(i, c)] @ pushes i (pre @ post)"
    using pushes_other [OF first] by (simp add: p) (cases c; simp)
  have pj: "pushes j (pending w) = pushes j (pre @ post)" if "j \<noteq> i" for j
    using that by (simp add: p) (cases c; simp)
  have "\<exists>hs rest. view_ok alloc (?q j) hs (taken w ! j) \<and> accepted w ! j = hs @ rest \<and>
      (q_closed (?q j) \<or> rest = pushes j (pre @ post))" if j: "j < length (fan_queues (fan w))" for j
  proof -
    from w j obtain hs rest where v: "view_ok alloc (fan_queues (fan w) ! j) hs (taken w ! j)"
      "accepted w ! j = hs @ rest" "q_closed (fan_queues (fan w) ! j) \<or> rest = pushes j (pending w)"
      by (auto simp: viewers_ok_def)
    show ?thesis
    proof (cases "j = i")
      case False
      then have "?q j = fan_queues (fan w) ! j" by (simp add: upd_queue_def)
      with v pj [OF False] show ?thesis by auto
    next
      case True
      then have q: "?q j = run_call alloc c (fan_queues (fan w) ! j)" using j by (simp add: upd_queue_def)
      note r = run_call_view [OF v(1) c]
      show ?thesis
      proof (cases "q_closed (fan_queues (fan w) ! j)")
        case closed: True
        with r v(2) show ?thesis by (auto simp: q)
      next
        case False
        with v(3) pi True have "rest = pushes i [(i, c)] @ pushes i (pre @ post)" by simp
        with r(1) False v(2) have "view_ok alloc (?q j) (hs @ pushes i [(i, c)]) (taken w ! j)"
          "accepted w ! j = (hs @ pushes i [(i, c)]) @ pushes j (pre @ post)"
          by (simp_all add: q) (simp add: True)
        then show ?thesis by blast
      qed
    qed
  qed
  with w cs show ?thesis by (simp add: viewers_ok_def)
qed

lemma viewers_register:
  assumes w: "viewers_ok alloc w" and inv: "fan_inv (fan w)"
    and r: "register_native alloc v s wait (fan w) = Inr (i, st)"
  shows "viewers_ok alloc (w\<lparr>fan := st,
      accepted := accepted w @ [case fan_fast_start (fan w) s of None \<Rightarrow> [] | Some c \<Rightarrow> fs_frames c],
      taken := taken w @ [[]]\<rparr>)"
proof -
  let ?n = "length (fan_queues (fan w))" and ?cached = "fan_fast_start (fan w) s"
  let ?q = "seed alloc (map_option fs_frames ?cached) (\<not> (wait \<or> fan_bootstrap (fan w) s \<noteq> None)) (q_new v s)"
  have qs: "fan_queues st = fan_queues (fan w) @ [?q]"
    using r by (auto simp: register_native_def Let_def split: if_splits)
  have ok: "case ?cached of None \<Rightarrow> True | Some c \<Rightarrow> fs_ok c"
    using inv by (auto simp: fan_inv_def split: option.split)
  have "pushes ?n (pending w) = []" using w by (intro pushes_other) (auto simp: viewers_ok_def calls_ok_def)
  with view_seed [OF ok] have "\<exists>hs rest. view_ok alloc ?q hs [] \<and>
      (case ?cached of None \<Rightarrow> [] | Some c \<Rightarrow> fs_frames c) = hs @ rest \<and> (q_closed ?q \<or> rest = pushes ?n (pending w))"
    by (metis append_Nil2)
  with w show ?thesis
    by (auto simp: viewers_ok_def calls_ok_def qs nth_append less_Suc_eq)
qed

lemma call_keeps_ids:
  "q_viewer_id (run_call alloc c q) = q_viewer_id q \<and> q_stream_id (run_call alloc c q) = q_stream_id q"
  by (cases c) (auto simp: run_call_def q_push_def Let_def enqueue_frame_def begin_awaiting_keyframe_def
      clear_counted_def clear_frames_def finish_bootstrap_def push_bootstrap_boundary_def q_close_def
      split: option.split)

lemma pop_keeps_ids: "q_pop q = Some (f, q') \<Longrightarrow> q_viewer_id q' = q_viewer_id q \<and> q_stream_id q' = q_stream_id q"
  by (auto simp: q_pop_def Let_def split: list.splits if_splits)

lemma world_step_inv:
  assumes "fan_inv (fan w) \<and> viewers_ok alloc w"
  shows "fan_inv (fan (world_step alloc w ev)) \<and> viewers_ok alloc (world_step alloc w ev)"
proof -
  from assms have inv: "fan_inv (fan w)" and vs: "viewers_ok alloc w" by simp_all
  have locked: "fan_inv (fan (locked r w)) \<and> viewers_ok alloc (locked r w)"
    if "fan_queues (fst r) = fan_queues (fan w) \<and> fan_inv (fst r) \<and> calls_ok (fan w) (snd r)" for r
    using viewers_locked [OF vs, of "fst r" "snd r"] that by (simp add: locked_def split_beta)
  show ?thesis
  proof (cases ev)
    case (Ev_Send f)
    obtain st' calls where r: "send_locked f (fan w) = (st', calls)" by fastforce
    from locked [of "(st', calls)"] send_locked_ok [OF inv r] r Ev_Send show ?thesis by simp
  next
    case (Ev_Call n)
    show ?thesis
    proof (cases "n < length (pending w) \<and> fst (pending w ! n) \<notin> fst ` set (take n (pending w))")
      case True
      then have p: "pending w = take n (pending w) @ (fst (pending w ! n), snd (pending w ! n)) # drop (Suc n) (pending w)"
        by (simp add: id_take_nth_drop [symmetric])
      from True viewers_call [OF vs p] upd_queue_inv [OF inv call_keeps_ids] Ev_Call show ?thesis by simp
    next
      case False
      with Ev_Call assms show ?thesis by (simp only: world_step.simps if_False)
    qed
  next
    case (Ev_Begin s)
    then show ?thesis using inv vs
      by (auto simp: begin_upstream_bootstrap_def Let_def fan_inv_def viewers_ok_def calls_ok_def)
  next
    case (Ev_Register v s wait)
    then show ?thesis using inv vs viewers_register [OF vs inv] register_native_inv [OF inv]
      by (auto split: sum.split)
  next
    case (Ev_Start s)
    then show ?thesis using inv vs by (auto simp: start_stream_def fan_inv_def viewers_ok_def calls_ok_def)
  next
    case (Ev_Close s)
    obtain st' calls where r: "close_locked s (fan w) = (st', calls)" by fastforce
    from locked [of "(st', calls)"] close_locked_ok [OF inv r] r Ev_Close show ?thesis by simp
  next
    case (Ev_Pop i)
    show ?thesis
    proof (cases "i < length (fan_queues (fan w)) \<and> q_pop (fan_queues (fan w) ! i) \<noteq> None")
      case True
      then obtain f q where pop: "q_pop (fan_queues (fan w) ! i) = Some (f, q)" and i: "i < length (fan_queues (fan w))"
        by auto
      have "q_closed q = q_closed (fan_queues (fan w) ! i)"
        using pop by (auto simp: q_pop_def Let_def split: list.splits if_splits)
      then have "viewers_ok alloc (w\<lparr>fan := upd_queue i (\<lambda>_. q) (fan w), taken := (taken w)[i := taken w ! i @ [f]]\<rparr>)"
        using view_pop [OF _ pop] by (intro viewers_upd [OF vs i]) auto
      moreover have "fan_inv (upd_queue i (\<lambda>_. q) (fan w))"
        using inv i pop_keeps_ids [OF pop] by (fastforce simp: fan_inv_def upd_queue_def nth_list_update)
      ultimately show ?thesis using Ev_Pop pop i by simp
    next
      case False
      with Ev_Pop assms show ?thesis by (auto split: option.split)
    qed
  next
    case (Ev_Close_Queue i)
    have "viewers_ok alloc (w\<lparr>fan := upd_queue i q_close (fan w)\<rparr>)"
    proof (cases "i < length (fan_queues (fan w))")
      case True
      from viewers_upd [OF vs True, of q_close "taken w ! i"] view_close show ?thesis by (simp add: q_close_def)
    qed (use vs in \<open>simp add: upd_queue_def\<close>)
    moreover have "fan_inv (upd_queue i q_close (fan w))" by (rule upd_queue_inv [OF inv]) (simp add: q_close_def)
    ultimately show ?thesis using Ev_Close_Queue by simp
  next
    case (Ev_Drop i)
    obtain st' calls where r: "drop_locked i (fan w) = (st', calls)" by fastforce
    from locked [of "(st', calls)"] drop_locked_ok [OF inv r] r Ev_Drop show ?thesis by simp
  qed
qed

lemma run_world_inv: "fan_inv (fan (run_world alloc web evs)) \<and> viewers_ok alloc (run_world alloc web evs)"
proof -
  have run: "fan_inv (fan (foldl (world_step alloc) w evs)) \<and> viewers_ok alloc (foldl (world_step alloc) w evs)"
    if "fan_inv (fan w) \<and> viewers_ok alloc w" for w
    using that
  proof (induction evs arbitrary: w)
    case (Cons ev evs)
    from Cons.IH [OF world_step_inv [OF Cons.prems]] show ?case by (simp only: foldl_Cons)
  qed simp
  have "fan_inv (fan_new web)" by (simp add: fan_inv_def fan_new_def)
  moreover have "viewers_ok alloc \<lparr>fan = fan_new web, pending = [], accepted = [], taken = []\<rparr>"
    by (simp add: viewers_ok_def calls_ok_def fan_new_def)
  ultimately show ?thesis unfolding run_world_def by (intro run) simp
qed

section \<open>A concrete run\<close>

definition demo_frame :: "bool \<Rightarrow> byte \<Rightarrow> frame" where
  "demo_frame k b = from_vec \<lparr>vec_data = encode_video_frame (ucast b) k 7 [b], vec_capacity = 18\<rparr>"

definition demo_events :: "fan_event list" where
  "demo_events = [Ev_Start 7, Ev_Send (demo_frame False 1), Ev_Send (demo_frame True 2), Ev_Register 1 7 False,
     Ev_Send (demo_frame False 3), Ev_Call 0, Ev_Pop 0, Ev_Pop 0, Ev_Pop 0]"

lemma demo_frame_parse:
  "parse_video_frame (sf_as_slice (demo_frame k b)) = Inr (Some (\<lparr>vf_ts_ms = ucast b, vf_is_key = k,
     vf_bootstrap_end = False, vf_stream_id = 7, vf_data = [b]\<rparr>, 18))"
proof -
  let ?f = "\<lparr>vf_ts_ms = ucast b, vf_is_key = k, vf_bootstrap_end = False, vf_stream_id = 7, vf_data = [b]\<rparr>"
  have "wf_video_frame ?f" by (simp add: wf_video_frame_def video_consts)
  from parse_frame_bytes [OF this, of "[]"] show ?thesis
    by (simp add: demo_frame_def sf_as_slice_def from_vec_def encode_video_frame_bytes VIDEO_FRAME_HEADER_LEN_def)
qed

lemma demo_frame_facts [simp]:
  "is_bootstrap_boundary (demo_frame k b) = False" "retained_bytes (demo_frame k b) = 18" "sf_len (demo_frame k b) = 18"
  using parsed_frame_facts [OF demo_frame_parse]
  by (simp_all add: demo_frame_def retained_bytes_def from_vec_def encode_video_frame_bytes VIDEO_FRAME_HEADER_LEN_def)

lemmas demo_eval = run_world_def demo_events_def fan_new_def send_locked_def demo_frame_parse start_stream_def
  accept_frame_def fs_push_def fs_default_def MAX_BOOTSTRAP_FRAMES_def video_consts FAST_START_MAX_BYTES_def
  stream_queues_def register_native_def seed_def q_new_def push_bootstrap_boundary_def upd_queue_def run_call_def
  q_push_def over_limit_def MAX_PENDING_BYTES_def enqueue_frame_def q_pop_def locked_def

lemma demo_run:
  "taken (run_world id False demo_events) = [[demo_frame True 2, bootstrap_boundary id 7, demo_frame False 3]]"
  "length (fan_queues (fan (run_world id False demo_events))) = 1"
  "fan_fast_start (fan (run_world id False demo_events)) 7 =
     Some \<lparr>fs_frames = [demo_frame True 2, demo_frame False 3], fs_bytes = 36\<rparr>"
  by (simp_all add: demo_eval Let_def)

section \<open>Properties of every run\<close>

text \<open>
  C19. The fan-out's three invariants hold in every reachable state. Viewers, caches and pending
  bootstraps exist only for active streams, so a stream id that is reused inherits nothing; no
  viewer and stream pair is registered twice; and every fast-start cache is empty or is one keyframe
  followed by deltas, with its bytes counted exactly and within its frame and byte bounds.
\<close>

theorem fanout_invariants:
  "let st = fan (run_world alloc web evs) in
    (((v, s), i) \<in> set (native st) \<longrightarrow> s \<in> active_streams st) \<and> distinct (map fst (native st)) \<and>
    (fan_bootstrap st s \<noteq> None \<longrightarrow> s \<in> active_streams st) \<and>
    (\<forall>c. fan_fast_start st s = Some c \<longrightarrow>
       s \<in> active_streams st \<and>
       (fs_frames c = [] \<or> frame_key (hd (fs_frames c)) \<and> list_all (\<lambda>f. \<not> frame_key f) (tl (fs_frames c))) \<and>
       fs_bytes c = sum_list (map retained_bytes (fs_frames c)) \<and> fs_bytes c \<le> FAST_START_MAX_BYTES \<and>
       length (fs_frames c) \<le> MAX_BOOTSTRAP_FRAMES)"
proof -
  have "(((v, s), i) \<in> set (native st) \<longrightarrow> s \<in> active_streams st) \<and> distinct (map fst (native st)) \<and>
      (fan_bootstrap st s \<noteq> None \<longrightarrow> s \<in> active_streams st) \<and>
      (\<forall>c. fan_fast_start st s = Some c \<longrightarrow> s \<in> active_streams st \<and> fs_ok c)"
    if "fan_inv st" for st
    using that by (auto simp: fan_inv_def)
  from this [OF conjunct1 [OF run_world_inv, of alloc web evs]]
  show ?thesis unfolding Let_def fs_ok_def by blast
qed

theorem fanout_invariants_witness:
  "7 \<in> active_streams (fan (run_world id False demo_events)) \<and>
   sum_list (map retained_bytes [demo_frame True 2, demo_frame False 3]) \<le> FAST_START_MAX_BYTES"
  using fanout_invariants [of id False demo_events 1 7 0] demo_run(3) by (auto simp: Let_def)



text \<open>
  A viewer's queue is bounded and accountable. It never holds more than one cached group of
  pictures and one boundary, nor more bytes than its bound plus that boundary; and as long as it is
  open, every picture offered to it is accounted for exactly once, as taken, queued or counted as
  dropped.
\<close>

theorem viewer_queue_accounts:
  fixes evs :: "fan_event list"
  assumes "i < length (fan_queues (fan (run_world alloc web evs)))"
  shows "let w = run_world alloc web evs; q = fan_queues (fan w) ! i in
    length (q_frames q) \<le> MAX_BOOTSTRAP_FRAMES + 1 \<and>
    q_pending_bytes q = sum_list (map retained_bytes (q_frames q)) \<and>
    q_pending_bytes q \<le> MAX_PENDING_BYTES + alloc VIDEO_FRAME_HEADER_LEN \<and>
    written_frames q = of_nat (length (taken w ! i)) \<and>
    (q_closed q \<or>
       written_frames q + of_nat (length (q_frames q)) + dropped_frames q + of_nat (length (pushes i (pending w)))
         = of_nat (length (accepted w ! i)) + (if bootstrap_complete q then 1 else 0))"
proof -
  let ?w = "run_world alloc web evs"
  let ?q = "fan_queues (fan ?w) ! i"
  obtain hs rest where v: "view_ok alloc ?q hs (taken ?w ! i)" and a: "accepted ?w ! i = hs @ rest"
    and r: "q_closed ?q \<or> rest = pushes i (pending ?w)"
    using run_world_inv [of alloc web evs] assms by (auto simp: viewers_ok_def)
  then have shape: "queue_shape alloc ?q" by (simp add: view_ok_def)
  have "total_bytes (boundaries (q_frames ?q)) \<le> alloc VIDEO_FRAME_HEADER_LEN"
    using shape by (cases "boundaries (q_frames ?q)") (auto simp: queue_shape_def split: if_splits)
  with shape total_bytes_split [of "q_frames ?q"] length_split [of "q_frames ?q"]
  have "length (q_frames ?q) \<le> MAX_BOOTSTRAP_FRAMES + 1" "q_pending_bytes ?q = total_bytes (q_frames ?q)"
    "q_pending_bytes ?q \<le> MAX_PENDING_BYTES + alloc VIDEO_FRAME_HEADER_LEN"
    by (auto simp: queue_shape_def split: if_splits)
  moreover have "q_closed ?q \<or>
      written_frames ?q + of_nat (length (q_frames ?q)) + dropped_frames ?q + of_nat (length (pushes i (pending ?w)))
         = of_nat (length (accepted ?w ! i)) + (if bootstrap_complete ?q then 1 else 0)"
    using v a r by (auto simp: view_ok_def boundary_count_def)
  ultimately show ?thesis using v by (simp add: Let_def view_ok_def)
qed

theorem viewer_queue_accounts_witness:
  "written_frames (fan_queues (fan (run_world id False demo_events)) ! 0) = 3"
  using viewer_queue_accounts [of 0 id False demo_events] demo_run by (simp add: Let_def)

end
