(* ===== verification/Event_Queue.thy ===== *)
theory Event_Queue
  imports Prelude
begin

text \<open>
  The queues that carry events from the worker threads to the server's event loop
  (\<open>crates/server/src/event_queue.rs\<close>, \<open>crates/server/src/mls_delivery.rs\<close>) and the part of the event loop
  that drains them (\<open>Server::run\<close> of \<open>crates/server/src/lib.rs\<close>).

  All queues share one word of ready flags and one waker, and a producer wakes the loop only when it finds
  the word empty. The atomic actions are the ones of the code: an append under the queue's lock, the
  \<open>fetch_or\<close> of a flag, the wake, the \<open>swap\<close> that takes the flags, and a bounded drain under the lock
  followed, where items remain, by a signal of the loop's own. They interleave freely. The theory shows
  that no interleaving loses an event: the loop never sleeps over a queue with items, each queue is
  delivered in order, and the loop alone empties all of them.

  \<open>Waker::wake\<close> is taken to succeed; the code logs its failure and goes on.
\<close>

unbundle bit_operations_syntax

section \<open>The notifier and a queue\<close>

definition event_flag :: "nat \<Rightarrow> u64" where
  "event_flag f = push_bit f 1"

definition VOICE_EVENTS :: nat where "VOICE_EVENTS = 0"
definition ROOM_LOG_EVENTS :: nat where "ROOM_LOG_EVENTS = 1"
definition ROOM_STATE_EVENTS :: nat where "ROOM_STATE_EVENTS = 2"
definition HISTORY_EVENTS :: nat where "HISTORY_EVENTS = 3"
definition MLS_EVENTS :: nat where "MLS_EVENTS = 4"
definition IDENTITY_EVENTS :: nat where "IDENTITY_EVENTS = 5"
definition BUG_REPORT_EVENTS :: nat where "BUG_REPORT_EVENTS = 6"
definition ADMIN_EVENTS :: nat where "ADMIN_EVENTS = 7"

text \<open>\<open>fetch_or\<close>: whether the caller has to wake the loop, and the new word.\<close>

definition en_signal :: "nat \<Rightarrow> u64 \<Rightarrow> bool \<times> u64" where
  "en_signal f ready = (ready = 0, ready OR event_flag f)"

definition take_ready :: "u64 \<Rightarrow> u64 \<times> u64" where
  "take_ready ready = (ready, 0)"

definition drain_up_to :: "nat \<Rightarrow> 'a list \<Rightarrow> 'a list \<times> 'a list \<times> bool" where
  "drain_up_to limit pending =
     (let count = min limit (length pending) in (take count pending, drop count pending, drop count pending \<noteq> []))"

section \<open>Threads and the loop\<close>

text \<open>What a producer does next: nothing, set a flag, or wake the loop.\<close>

datatype producer = Idle | Signalling nat | Waking

text \<open>
  Where the event loop is: blocked in \<open>poll\<close>, about to take the flags, or serving the flags it took over
  the rest of its queues. \<open>Resignal\<close> and \<open>Rewake\<close> are the two halves of the signal after a bounded drain.
\<close>

datatype event_loop =
    Polling
  | Taking
  | Serving u64 "(nat \<times> nat) list"
  | Resignal nat u64 "(nat \<times> nat) list"
  | Rewake u64 "(nat \<times> nat) list"

text \<open>The queues in the order of the loop with the limit of each drain.\<close>

definition drain_order :: "(nat \<times> nat) list" where
  "drain_order = [(ROOM_LOG_EVENTS, 64), (ROOM_STATE_EVENTS, 16), (HISTORY_EVENTS, 16), (MLS_EVENTS, 32),
     (IDENTITY_EVENTS, 8), (BUG_REPORT_EVENTS, 16), (ADMIN_EVENTS, 16)]"

record 'a event_system =
  ready :: u64
  woken :: bool
  pending :: "nat \<Rightarrow> 'a list"
  producers :: "nat \<Rightarrow> producer"
  loop_at :: event_loop
  delivered :: "nat \<Rightarrow> 'a list"

definition system_init :: "'a event_system" where
  "system_init = \<lparr>ready = 0, woken = False, pending = (\<lambda>_. []), producers = (\<lambda>_. Idle), loop_at = Polling,
     delivered = (\<lambda>_. [])\<rparr>"

text \<open>One action of the loop, \<open>None\<close> while \<open>poll\<close> has nothing to report.\<close>

definition loop_step :: "'a event_system \<Rightarrow> 'a event_system option" where
  "loop_step s =
     (case loop_at s of
        Polling \<Rightarrow> if woken s then Some (s\<lparr>woken := False, loop_at := Taking\<rparr>) else None
      | Taking \<Rightarrow> (case take_ready (ready s) of (taken, rest) \<Rightarrow> Some (s\<lparr>ready := rest, loop_at := Serving taken drain_order\<rparr>))
      | Serving taken [] \<Rightarrow> Some (s\<lparr>loop_at := Polling\<rparr>)
      | Serving taken ((f, limit) # qs) \<Rightarrow>
          if taken AND event_flag f = 0 then Some (s\<lparr>loop_at := Serving taken qs\<rparr>)
          else
            (case drain_up_to limit (pending s f) of
               (drained, left, remains) \<Rightarrow>
                 Some (s\<lparr>pending := (pending s)(f := left), delivered := (delivered s)(f := delivered s f @ drained),
                         loop_at := (if remains then Resignal f taken qs else Serving taken qs)\<rparr>))
      | Resignal f taken qs \<Rightarrow>
          (case en_signal f (ready s) of
             (wake, word) \<Rightarrow> Some (s\<lparr>ready := word, loop_at := (if wake then Rewake taken qs else Serving taken qs)\<rparr>))
      | Rewake taken qs \<Rightarrow> Some (s\<lparr>woken := True, loop_at := Serving taken qs\<rparr>))"

text \<open>
  One action of a producer with the events it pushes. A push names the queue of its flag; the voice relay
  keeps its own batch and only signals.
\<close>

inductive producer_step :: "nat \<Rightarrow> (nat \<times> 'a) list \<Rightarrow> 'a event_system \<Rightarrow> 'a event_system \<Rightarrow> bool" for t where
  push: "producers s t = Idle \<Longrightarrow> f \<in> fst ` set drain_order \<Longrightarrow>
    producer_step t [(f, e)] s
      (s\<lparr>pending := (pending s)(f := pending s f @ [e]), producers := (producers s)(t := Signalling f)\<rparr>)"
| voice: "producers s t = Idle \<Longrightarrow>
    producer_step t [] s (s\<lparr>producers := (producers s)(t := Signalling VOICE_EVENTS)\<rparr>)"
| signal: "producers s t = Signalling f \<Longrightarrow> en_signal f (ready s) = (wake, word) \<Longrightarrow>
    producer_step t [] s (s\<lparr>ready := word, producers := (producers s)(t := (if wake then Waking else Idle))\<rparr>)"
| wake: "producers s t = Waking \<Longrightarrow>
    producer_step t [] s (s\<lparr>woken := True, producers := (producers s)(t := Idle)\<rparr>)"

text \<open>A run of the system with the events pushed so far, oldest first. \<open>poll\<close> may report other events.\<close>

inductive system_runs :: "(nat \<times> 'a) list \<Rightarrow> 'a event_system \<Rightarrow> bool" where
  start: "system_runs [] system_init"
| by_producer: "system_runs log s \<Longrightarrow> producer_step t evs s s' \<Longrightarrow> system_runs (log @ evs) s'"
| by_loop: "system_runs log s \<Longrightarrow> loop_step s = Some s' \<Longrightarrow> system_runs log s'"
| by_other: "system_runs log s \<Longrightarrow> loop_at s = Polling \<Longrightarrow> system_runs log (s\<lparr>loop_at := Serving 0 drain_order\<rparr>)"

text \<open>The loop alone, for a number of actions.\<close>

fun loop_run :: "nat \<Rightarrow> 'a event_system \<Rightarrow> 'a event_system" where
  "loop_run 0 s = s"
| "loop_run (Suc n) s = (case loop_step s of None \<Rightarrow> s | Some s' \<Rightarrow> loop_run n s')"

definition pushed :: "nat \<Rightarrow> (nat \<times> 'a) list \<Rightarrow> 'a list" where
  "pushed f log = map snd (filter (\<lambda>ev. fst ev = f) log)"

section \<open>Flags\<close>

lemma flag_and_iff [simp]: "taken AND event_flag f = 0 \<longleftrightarrow> \<not> bit taken f"
proof
  assume "taken AND event_flag f = 0"
  then have "\<not> bit (taken AND event_flag f) f" by simp
  then show "\<not> bit taken f" using bit_imp_le_length [of taken f]
    by (auto simp: event_flag_def bit_simps)
next
  assume "\<not> bit taken f"
  then show "taken AND event_flag f = 0" by (intro bit_word_eqI) (auto simp: event_flag_def bit_simps)
qed

lemma flag_or_bit: "f < 64 \<Longrightarrow> bit (word OR event_flag f) g \<longleftrightarrow> bit word g \<or> g = f"
  by (auto simp: event_flag_def bit_simps)

lemma flag_or_nonzero: "f < 64 \<Longrightarrow> word OR event_flag f \<noteq> 0"
  using flag_or_bit [of f word f] by (metis bit_0_eq bot_apply bot_bool_def)

lemma drain_order_flags: "fst ` set drain_order = {1..7}"
  by (auto simp: drain_order_def ROOM_LOG_EVENTS_def ROOM_STATE_EVENTS_def HISTORY_EVENTS_def MLS_EVENTS_def
      IDENTITY_EVENTS_def BUG_REPORT_EVENTS_def ADMIN_EVENTS_def)

lemma drain_order_limits: "\<forall>(f, limit) \<in> set drain_order. 0 < limit"
  by (simp add: drain_order_def)

section \<open>No event is lost\<close>

text \<open>The flags and queues the loop still has in hand, and those it has yet to visit.\<close>

fun in_hand :: "event_loop \<Rightarrow> nat \<Rightarrow> bool" where
  "in_hand Polling f = False"
| "in_hand Taking f = False"
| "in_hand (Serving taken qs) f = (bit taken f \<and> f \<in> fst ` set qs)"
| "in_hand (Resignal g taken qs) f = (f = g \<or> bit taken f \<and> f \<in> fst ` set qs)"
| "in_hand (Rewake taken qs) f = (bit taken f \<and> f \<in> fst ` set qs)"

fun to_visit :: "event_loop \<Rightarrow> (nat \<times> nat) list" where
  "to_visit (Serving taken qs) = qs"
| "to_visit (Resignal g taken qs) = qs"
| "to_visit (Rewake taken qs) = qs"
| "to_visit _ = []"

definition queued_seen :: "'a event_system \<Rightarrow> bool" where
  "queued_seen s \<longleftrightarrow> (\<forall>f. pending s f \<noteq> [] \<longrightarrow> f \<in> {1..7} \<and>
     (bit (ready s) f \<or> (\<exists>t. producers s t = Signalling f) \<or> in_hand (loop_at s) f))"

definition ready_seen :: "'a event_system \<Rightarrow> bool" where
  "ready_seen s \<longleftrightarrow> (ready s \<noteq> 0 \<longrightarrow> woken s \<or> (\<exists>t. producers s t = Waking) \<or> loop_at s = Taking
     \<or> (\<exists>taken qs. loop_at s = Rewake taken qs))"

definition flags_ok :: "'a event_system \<Rightarrow> bool" where
  "flags_ok s \<longleftrightarrow> (\<forall>t f. producers s t = Signalling f \<longrightarrow> f < 64) \<and> set (to_visit (loop_at s)) \<subseteq> set drain_order
     \<and> (\<forall>g taken qs. loop_at s = Resignal g taken qs \<longrightarrow> g < 64)"

definition in_order :: "(nat \<times> 'a) list \<Rightarrow> 'a event_system \<Rightarrow> bool" where
  "in_order log s \<longleftrightarrow> (\<forall>f. delivered s f @ pending s f = pushed f log)"

lemmas system_inv_defs = queued_seen_def ready_seen_def flags_ok_def in_order_def

definition system_inv :: "(nat \<times> 'a) list \<Rightarrow> 'a event_system \<Rightarrow> bool" where
  "system_inv log s \<longleftrightarrow> queued_seen s \<and> ready_seen s \<and> flags_ok s \<and> in_order log s"

lemma system_inv_init: "system_inv [] system_init"
  by (simp add: system_inv_def system_inv_defs system_init_def pushed_def)

lemma pushed_append: "pushed f (log @ evs) = pushed f log @ pushed f evs"
  by (simp add: pushed_def)

lemma producer_keeps:
  assumes "producer_step t evs s s'" and inv: "system_inv log s"
  shows "system_inv (log @ evs) s'"
  using assms(1)
proof cases
  case (push f e)
  then have f: "f \<in> {1..7}" by (simp only: drain_order_flags)
  have "queued_seen s'" using inv push(2,3) f unfolding push(2) system_inv_def queued_seen_def
    by (auto split: if_splits) (metis producer.distinct(1))
  moreover have "ready_seen s'" using inv push(3) unfolding push(2) system_inv_def ready_seen_def
    by simp (metis producer.distinct(3))
  moreover have "flags_ok s'" using inv f unfolding push(2) system_inv_def flags_ok_def by auto
  moreover have "in_order (log @ evs) s'" using inv unfolding push(1,2) system_inv_def in_order_def
    by (auto simp: pushed_append) (simp_all add: pushed_def)
  ultimately show ?thesis by (simp add: system_inv_def)
next
  case voice
  have "queued_seen s'" using inv voice(3) unfolding voice(2) system_inv_def queued_seen_def
    by simp (metis producer.distinct(1))
  moreover have "ready_seen s'" using inv voice(3) unfolding voice(2) system_inv_def ready_seen_def
    by simp (metis producer.distinct(3))
  moreover have "flags_ok s'" using inv unfolding voice(2) system_inv_def flags_ok_def by (auto simp: VOICE_EVENTS_def)
  moreover have "in_order (log @ evs) s'" using inv unfolding voice(1,2) system_inv_def in_order_def by simp
  ultimately show ?thesis by (simp add: system_inv_def)
next
  case (signal f wake word)
  then have f: "f < 64" and w: "word = ready s OR event_flag f" "wake = (ready s = 0)"
    using inv by (auto simp: system_inv_def flags_ok_def en_signal_def)
  have other: "\<exists>u. producers s' u = Signalling g" if "producers s u = Signalling g" "g \<noteq> f" for u g
    using that signal(3) by (intro exI [of _ u]) (auto simp: signal(2))
  have "queued_seen s'" unfolding queued_seen_def
  proof (intro allI impI)
    fix g assume "pending s' g \<noteq> []"
    then have g: "g \<in> {1..7}" "bit (ready s) g \<or> (\<exists>t. producers s t = Signalling g) \<or> in_hand (loop_at s) g"
      using inv by (auto simp: system_inv_def queued_seen_def signal(2))
    then show "g \<in> {1..7} \<and> (bit (ready s') g \<or> (\<exists>t. producers s' t = Signalling g) \<or> in_hand (loop_at s') g)"
    proof (cases "g = f")
      case False
      then have "producers s u = Signalling g \<Longrightarrow> \<exists>t. producers s' t = Signalling g" for u using other by blast
      moreover have "bit (ready s) g \<Longrightarrow> bit (ready s') g" "loop_at s' = loop_at s" using f by (simp_all add: signal(2) w flag_or_bit)
      ultimately show ?thesis using g by metis
    qed (use f in \<open>simp add: signal(2) w flag_or_bit\<close>)
  qed
  moreover have "ready_seen s'" using inv signal(3) f unfolding signal(2) w system_inv_def ready_seen_def
    by simp (metis producer.distinct(5))
  moreover have "flags_ok s'" using inv unfolding signal(2) system_inv_def flags_ok_def by (auto split: if_splits)
  moreover have "in_order (log @ evs) s'" using inv unfolding signal(1,2) system_inv_def in_order_def by simp
  ultimately show ?thesis by (simp add: system_inv_def)
next
  case wake
  have "queued_seen s'" using inv wake(3) unfolding wake(2) system_inv_def queued_seen_def
    by simp (metis producer.distinct(5))
  moreover have "ready_seen s'" unfolding wake(2) ready_seen_def by simp
  moreover have "flags_ok s'" using inv unfolding wake(2) system_inv_def flags_ok_def by auto
  moreover have "in_order (log @ evs) s'" using inv unfolding wake(1,2) system_inv_def in_order_def by simp
  ultimately show ?thesis by (simp add: system_inv_def)
qed

lemma serve_seen:
  assumes "queued_seen s" and "loop_at s = Serving taken ((f, limit) # qs)"
    and "pending s' = (pending s)(f := left)" and "ready s' = ready s" and "producers s' = producers s"
    and "loop_at s' = Resignal f taken qs \<or> loop_at s' = Serving taken qs \<and> (left = [] \<or> \<not> bit taken f \<and> left = pending s f)"
    and "left \<noteq> [] \<Longrightarrow> pending s f \<noteq> []"
  shows "queued_seen s'"
  unfolding queued_seen_def
proof (intro allI impI)
  fix g assume g: "pending s' g \<noteq> []"
  then have p: "pending s g \<noteq> []" using assms(3,7) by (auto split: if_splits)
  then have h: "g \<in> {1..7}" "bit (ready s) g \<or> (\<exists>t. producers s t = Signalling g) \<or> in_hand (loop_at s) g"
    using assms(1) by (auto simp: queued_seen_def)
  then show "g \<in> {1..7} \<and> (bit (ready s') g \<or> (\<exists>t. producers s' t = Signalling g) \<or> in_hand (loop_at s') g)"
    using assms(2-6) g by (cases "g = f") force+
qed

lemma loop_keeps:
  assumes "loop_step s = Some s'" and inv: "system_inv log s"
  shows "system_inv log s'"
proof (cases "loop_at s")
  case Polling
  then have "s' = s\<lparr>woken := False, loop_at := Taking\<rparr>" using assms(1) by (simp add: loop_step_def split: if_splits)
  then show ?thesis using inv Polling by (simp add: system_inv_def system_inv_defs)
next
  case Taking
  then have s': "s' = s\<lparr>ready := 0, loop_at := Serving (ready s) drain_order\<rparr>"
    using assms(1) by (simp add: loop_step_def take_ready_def)
  have "in_hand (loop_at s') f \<longleftrightarrow> bit (ready s) f \<and> f \<in> {1..7}" for f by (simp add: s' drain_order_flags)
  then show ?thesis using inv Taking by (auto simp: system_inv_def system_inv_defs s')
next
  case (Serving taken qs)
  show ?thesis
  proof (cases qs)
    case Nil
    then have "s' = s\<lparr>loop_at := Polling\<rparr>" using assms(1) Serving by (simp add: loop_step_def)
    then show ?thesis using inv Serving Nil by (simp add: system_inv_def system_inv_defs)
  next
    case (Cons q rest)
    obtain f limit where q: "q = (f, limit)" by (cases q)
    have at: "loop_at s = Serving taken ((f, limit) # rest)" using Serving Cons q by simp
    have f: "f \<in> {1..7}" using inv at drain_order_flags by (force simp: system_inv_def flags_ok_def)
    define count where "count = min limit (length (pending s f))"
    show ?thesis
    proof (cases "bit taken f")
      case False
      then have s': "s' = s\<lparr>loop_at := Serving taken rest\<rparr>" using assms(1) at by (simp add: loop_step_def)
      have "queued_seen s'"
        by (rule serve_seen [of s taken f limit rest s' "pending s f"]) (use inv at False in \<open>simp_all add: system_inv_def s'\<close>)
      then show ?thesis using inv at by (auto simp: system_inv_def system_inv_defs s')
    next
      case True
      then have s': "s' = s\<lparr>pending := (pending s)(f := drop count (pending s f)),
          delivered := (delivered s)(f := delivered s f @ take count (pending s f)),
          loop_at := (if drop count (pending s f) \<noteq> [] then Resignal f taken rest else Serving taken rest)\<rparr>"
        using assms(1) at by (simp add: loop_step_def drain_up_to_def count_def Let_def)
      have "queued_seen s'"
        by (rule serve_seen [of s taken f limit rest s' "drop count (pending s f)"])
          (use inv at in \<open>auto simp: system_inv_def s'\<close>)
      moreover have "ready_seen s'" using inv at by (auto simp: system_inv_def ready_seen_def s')
      moreover have "flags_ok s'" using inv at f by (auto simp: system_inv_def flags_ok_def s')
      moreover have "in_order log s'" using inv by (auto simp: system_inv_def in_order_def s')
      ultimately show ?thesis by (simp add: system_inv_def)
    qed
  qed
next
  case (Resignal f taken qs)
  then have s': "s' = s\<lparr>ready := ready s OR event_flag f,
      loop_at := (if ready s = 0 then Rewake taken qs else Serving taken qs)\<rparr>"
    using assms(1) by (simp add: loop_step_def en_signal_def)
  have "f < 64" using inv Resignal by (simp add: system_inv_def flags_ok_def)
  then have "queued_seen s'" using inv Resignal by (auto simp: system_inv_def queued_seen_def s' flag_or_bit)
  moreover have "ready_seen s'" using inv Resignal by (auto simp: system_inv_def ready_seen_def s')
  ultimately show ?thesis using inv Resignal by (auto simp: system_inv_def flags_ok_def in_order_def s')
next
  case (Rewake taken qs)
  then have "s' = s\<lparr>woken := True, loop_at := Serving taken qs\<rparr>" using assms(1) by (simp add: loop_step_def)
  then show ?thesis using inv Rewake by (simp add: system_inv_def system_inv_defs)
qed

lemma system_runs_inv: "system_runs log s \<Longrightarrow> system_inv log s"
proof (induction rule: system_runs.induct)
  case (by_other log s)
  then show ?case by (simp add: system_inv_def system_inv_defs)
qed (simp_all add: system_inv_init producer_keeps loop_keeps)

section \<open>The loop empties the queues\<close>

text \<open>
  Items queued, wakes pending, and the distance to the next \<open>poll\<close>: every action of the loop makes this
  smaller in lexicographic order.
\<close>

fun loop_distance :: "event_loop \<Rightarrow> nat" where
  "loop_distance Polling = 0"
| "loop_distance (Serving taken qs) = 3 * length qs + 1"
| "loop_distance (Rewake taken qs) = 3 * length qs + 2"
| "loop_distance (Resignal f taken qs) = 3 * length qs + 3"
| "loop_distance Taking = 3 * length drain_order + 2"

fun signals_itself :: "event_loop \<Rightarrow> bool" where
  "signals_itself (Resignal f taken qs) = True"
| "signals_itself (Rewake taken qs) = True"
| "signals_itself _ = False"

definition queued :: "'a event_system \<Rightarrow> nat" where
  "queued s = (\<Sum>f\<in>{1..7}. length (pending s f))"

definition loop_rank :: "'a event_system \<Rightarrow> nat \<times> nat \<times> nat" where
  "loop_rank s = (queued s, of_bool (woken s) + of_bool (signals_itself (loop_at s)), loop_distance (loop_at s))"

lemma queued_update:
  assumes "f \<in> {1..7}"
  shows "queued (s\<lparr>pending := (pending s)(f := xs)\<rparr>) + length (pending s f) = queued s + length xs"
proof -
  have "(\<Sum>g\<in>{1..7}. length (((pending s)(f := xs)) g)) = length xs + (\<Sum>g\<in>{1..7} - {f}. length (pending s g))"
    using assms by (simp add: sum.remove)
  moreover have "queued s = length (pending s f) + (\<Sum>g\<in>{1..7} - {f}. length (pending s g))"
    unfolding queued_def using assms by (intro sum.remove) simp_all
  ultimately show ?thesis unfolding queued_def by simp
qed

lemma queued_parts [simp]:
  "queued (s\<lparr>woken := w\<rparr>) = queued s" "queued (s\<lparr>loop_at := l\<rparr>) = queued s" "queued (s\<lparr>ready := r\<rparr>) = queued s"
  "queued (s\<lparr>delivered := d\<rparr>) = queued s"
  by (simp_all add: queued_def)

lemma loop_step_rank:
  assumes "loop_step s = Some s'" and inv: "flags_ok s"
  shows "(loop_rank s', loop_rank s) \<in> less_than <*lex*> less_than <*lex*> less_than"
proof (cases "loop_at s")
  case (Serving taken qs)
  show ?thesis
  proof (cases qs)
    case (Cons q rest)
    obtain f limit where q: "q = (f, limit)" by (cases q)
    have at: "loop_at s = Serving taken ((f, limit) # rest)" using Serving Cons q by simp
    have f: "f \<in> {1..7}" using inv at drain_order_flags by (force simp: flags_ok_def)
    have l: "0 < limit" using inv at drain_order_limits by (fastforce simp: flags_ok_def)
    define count where "count = min limit (length (pending s f))"
    show ?thesis
    proof (cases "bit taken f")
      case True
      then have s': "s' = s\<lparr>pending := (pending s)(f := drop count (pending s f)),
          delivered := (delivered s)(f := delivered s f @ take count (pending s f)),
          loop_at := (if drop count (pending s f) \<noteq> [] then Resignal f taken rest else Serving taken rest)\<rparr>"
        using assms(1) at by (simp add: loop_step_def drain_up_to_def count_def Let_def)
      have "queued s' + length (pending s f) = queued s + length (drop count (pending s f))"
        using queued_update [OF f, of s "drop count (pending s f)"] by (simp add: s' queued_def)
      then show ?thesis using at l by (auto simp: loop_rank_def s' count_def)
    qed (use assms(1) at in \<open>auto simp: loop_step_def loop_rank_def\<close>)
  qed (use assms(1) Serving in \<open>auto simp: loop_step_def loop_rank_def\<close>)
qed (use assms(1) in \<open>auto simp: loop_step_def loop_rank_def take_ready_def en_signal_def split: if_splits\<close>)

lemma loop_step_producers: "loop_step s = Some s' \<Longrightarrow> producers s' = producers s"
  by (auto simp: loop_step_def take_ready_def en_signal_def drain_up_to_def Let_def
      split: event_loop.splits list.splits if_splits prod.splits)

lemma loop_run_stops:
  "system_inv log s \<Longrightarrow> \<exists>n. \<forall>m \<ge> n. loop_step (loop_run m s) = None \<and> system_inv log (loop_run m s)
     \<and> producers (loop_run m s) = producers s"
proof (induction "loop_rank s" arbitrary: s
    rule: wf_induct [OF wf_lex_prod [OF wf_less_than wf_lex_prod [OF wf_less_than wf_less_than]]])
  case 1
  show ?case
  proof (cases "loop_step s")
    case None
    then have "loop_run m s = s" for m by (cases m) simp_all
    with None 1(2) show ?thesis by simp
  next
    case (Some s')
    have inv: "system_inv log s'" by (rule loop_keeps [OF Some 1(2)])
    from 1(1) loop_step_rank [OF Some] 1(2) inv obtain n where n: "\<forall>m \<ge> n. loop_step (loop_run m s') = None
      \<and> system_inv log (loop_run m s') \<and> producers (loop_run m s') = producers s'" by (metis system_inv_def)
    then have "\<forall>m \<ge> Suc n. loop_step (loop_run m s) = None \<and> system_inv log (loop_run m s)
      \<and> producers (loop_run m s) = producers s"
      using Some loop_step_producers [OF Some] by (metis Suc_le_D Suc_le_mono loop_run.simps(2) option.simps(5))
    then show ?thesis by blast
  qed
qed

lemma quiet_empty:
  assumes "system_inv log s" and "loop_at s = Polling" and "\<not> woken s" and "\<forall>t. producers s t = Idle"
  shows "pending s f = []"
proof (rule ccontr)
  assume "pending s f \<noteq> []"
  then have "bit (ready s) f" using assms by (auto simp: system_inv_def queued_seen_def)
  then have "ready s \<noteq> 0" by auto
  then show False using assms by (simp add: system_inv_def ready_seen_def)
qed

lemma loop_blocked: "loop_step s = None \<longleftrightarrow> loop_at s = Polling \<and> \<not> woken s"
  by (auto simp: loop_step_def take_ready_def en_signal_def drain_up_to_def Let_def
      split: event_loop.splits list.splits if_splits prod.splits)

section \<open>Properties\<close>

text \<open>
  C30. No wakeup is lost. However the producers and the event loop interleave, when the loop is blocked in
  \<open>poll\<close> with no wake pending and no producer is inside a push, every queue is empty and everything that
  was pushed has been delivered, each queue in the order of its pushes.
\<close>

theorem no_lost_wakeup:
  assumes "system_runs log s" and "loop_at s = Polling" and "\<not> woken s" and "\<forall>t. producers s t = Idle"
  shows "pending s f = [] \<and> delivered s f = pushed f log"
proof -
  have inv: "system_inv log s" by (rule system_runs_inv [OF assms(1)])
  have "pending s f = []" by (rule quiet_empty [OF inv assms(2-4)])
  then show ?thesis using inv by (metis append_Nil2 in_order_def system_inv_def)
qed


section \<open>Witnesses\<close>

text \<open>A producer pushed one history event and set the flag, but has not yet woken the loop.\<close>

lemma demo_events:
  "\<exists>s :: nat event_system. system_runs [(HISTORY_EVENTS, 7)] s \<and> (\<forall>t. producers s t = Idle) \<and> woken s"
proof -
  let ?s1 = "system_init\<lparr>pending := (\<lambda>_. [])(3 := [7 :: nat]), producers := (\<lambda>_. Idle)(0 := Signalling 3)\<rparr>"
  have "producer_step 0 [(3, 7)] system_init ?s1"
    using producer_step.push [of system_init 0 3 7] by (simp add: system_init_def drain_order_flags del: One_nat_def)
  from system_runs.by_producer [OF system_runs.start this] have r1: "system_runs [(3, 7)] ?s1" by simp
  let ?s2 = "?s1\<lparr>ready := event_flag 3, producers := (\<lambda>_. Idle)(0 := Waking)\<rparr>"
  have "producer_step 0 [] ?s1 ?s2"
    using producer_step.signal [of ?s1 0 3 True "event_flag 3"] by (simp add: system_init_def en_signal_def)
  from system_runs.by_producer [OF r1 this] have r2: "system_runs [(3, 7)] ?s2" by simp
  let ?s3 = "?s2\<lparr>woken := True, producers := \<lambda>_. Idle\<rparr>"
  have "producer_step 0 [] ?s2 ?s3"
    using producer_step.wake [of ?s2 0] by (simp add: system_init_def fun_upd_idem)
  from system_runs.by_producer [OF r2 this] have "system_runs [(3, 7)] ?s3" by simp
  then show ?thesis by (intro exI [of _ ?s3]) (simp add: HISTORY_EVENTS_def)
qed

lemma loop_run_runs: "system_runs log s \<Longrightarrow> system_runs log (loop_run n s)"
  by (induction n arbitrary: s) (auto split: option.split intro: system_runs.by_loop)

theorem no_lost_wakeup_witness:
  "\<exists>s :: nat event_system. system_runs [(HISTORY_EVENTS, 7)] s \<and> loop_at s = Polling \<and> delivered s HISTORY_EVENTS = [7]"
proof -
  obtain s :: "nat event_system" where s: "system_runs [(HISTORY_EVENTS, 7)] s" "\<forall>t. producers s t = Idle"
    using demo_events by blast
  obtain n where n: "loop_step (loop_run n s) = None" "producers (loop_run n s) = producers s"
    using loop_run_stops [OF system_runs_inv [OF s(1)]] by blast
  have r: "system_runs [(HISTORY_EVENTS, 7)] (loop_run n s)" by (rule loop_run_runs [OF s(1)])
  have i: "loop_at (loop_run n s) = Polling" "\<not> woken (loop_run n s)" "\<forall>t. producers (loop_run n s) t = Idle"
    using n s(2) by (simp_all add: loop_blocked)
  have "delivered (loop_run n s) HISTORY_EVENTS = [7]"
    using no_lost_wakeup [OF r i, of HISTORY_EVENTS] by (simp add: pushed_def)
  with r i(1) show ?thesis by blast
qed


end
