(* ===== verification/Username.thy ===== *)
theory Username
  imports Strings
begin

text \<open>
  Username validation and the uniqueness fold (\<open>crates/rpc/src/username.rs\<close>).

  The code walks a name character by character, so a name is the list of its code points here, and
  \<open>utf8_encode\<close> and \<open>from_utf8\<close> connect it with the bytes of a Rust \<open>str\<close>. The display width of a
  character is that of the crate \<open>unicode_width\<close> and the lower case is Unicode data; both are parameters.
\<close>

section \<open>Characters\<close>

type_synonym uchar = nat
type_synonym name = "uchar list"

text \<open>A Rust \<open>char\<close>: any code point but a surrogate.\<close>

definition is_scalar :: "uchar \<Rightarrow> bool" where
  "is_scalar c \<longleftrightarrow> c < 0xD800 \<or> 0xE000 \<le> c \<and> c < 0x110000"

definition utf8_char :: "uchar \<Rightarrow> bytes" where
  "utf8_char c =
     (if c < 0x80 then [of_nat c]
      else if c < 0x800 then [of_nat (192 + c div 64), of_nat (128 + c mod 64)]
      else if c < 0x10000 then [of_nat (224 + c div 64 div 64), of_nat (128 + c div 64 mod 64), of_nat (128 + c mod 64)]
      else [of_nat (240 + c div 64 div 64 div 64), of_nat (128 + c div 64 div 64 mod 64), of_nat (128 + c div 64 mod 64),
            of_nat (128 + c mod 64)])"

definition utf8_encode :: "name \<Rightarrow> bytes" where
  "utf8_encode s = concat (map utf8_char s)"

fun utf8_chars :: "bytes \<Rightarrow> name" where
  "utf8_chars [] = []"
| "utf8_chars (a # r) =
     (if a < 128 then unat a # utf8_chars r
      else if a < 224 then
        (case r of b # r' \<Rightarrow> ((unat a - 192) * 64 + (unat b - 128)) # utf8_chars r' | _ \<Rightarrow> [])
      else if a < 240 then
        (case r of b # c # r' \<Rightarrow> (((unat a - 224) * 64 + (unat b - 128)) * 64 + (unat c - 128)) # utf8_chars r' | _ \<Rightarrow> [])
      else
        (case r of b # c # d # r' \<Rightarrow>
           ((((unat a - 240) * 64 + (unat b - 128)) * 64 + (unat c - 128)) * 64 + (unat d - 128)) # utf8_chars r'
         | _ \<Rightarrow> []))"

definition from_utf8 :: "bytes \<Rightarrow> name option" where
  "from_utf8 bs = (if utf8_valid bs then Some (utf8_chars bs) else None)"

text \<open>\<open>char::is_control\<close> and \<open>char::is_whitespace\<close>: the categories \<open>Cc\<close> and \<open>White_Space\<close>.\<close>

definition is_control :: "uchar \<Rightarrow> bool" where
  "is_control c \<longleftrightarrow> c < 0x20 \<or> 0x7F \<le> c \<and> c < 0xA0"

definition is_whitespace :: "uchar \<Rightarrow> bool" where
  "is_whitespace c \<longleftrightarrow> 9 \<le> c \<and> c \<le> 13 \<or> 0x2000 \<le> c \<and> c \<le> 0x200A \<or>
     c \<in> {0x20, 0x85, 0xA0, 0x1680, 0x2028, 0x2029, 0x202F, 0x205F, 0x3000}"

record unicode_fns =
  char_width :: "uchar \<Rightarrow> nat option"
  to_lowercase :: "uchar \<Rightarrow> name"

section \<open>Validation and fold\<close>

definition MAX_USERNAME_BYTES :: nat where "MAX_USERNAME_BYTES = 64"
definition MAX_USERNAME_COLUMNS :: nat where "MAX_USERNAME_COLUMNS = 32"

datatype username_error = Empty | TooLong | TooWide | Control | Invisible | Whitespace

definition username_trim :: "name \<Rightarrow> name" where
  "username_trim s = rev (dropWhile (\<lambda>c. c = 0x20) (rev (dropWhile (\<lambda>c. c = 0x20) s)))"

fun count_columns :: "unicode_fns \<Rightarrow> nat \<Rightarrow> name \<Rightarrow> (username_error, nat) result" where
  "count_columns U columns [] = Inr columns"
| "count_columns U columns (c # s) =
     (if is_control c then Inl Control
      else if c \<noteq> 0x20 \<and> is_whitespace c then Inl Whitespace
      else (case char_width U c of
              None \<Rightarrow> Inl Invisible
            | Some width \<Rightarrow> if width = 0 then Inl Invisible else count_columns U (columns + width) s))"

definition username_validate :: "unicode_fns \<Rightarrow> name \<Rightarrow> (username_error, unit) result" where
  "username_validate U s0 =
     (let s = username_trim s0 in
      if s = [] then Inl Empty
      else if length (utf8_encode s) > MAX_USERNAME_BYTES then Inl TooLong
      else rbind (count_columns U 0 s) (\<lambda>columns. if columns > MAX_USERNAME_COLUMNS then Inl TooWide else Inr ()))"

definition username_is_valid :: "unicode_fns \<Rightarrow> name \<Rightarrow> bool" where
  "username_is_valid U s \<longleftrightarrow> username_validate U s = Inr ()"

text \<open>The repairs of \<open>to_lowercase\<close>: sharp s is two letters, the final sigma is a sigma.\<close>

definition fold_lower :: "uchar \<Rightarrow> name" where
  "fold_lower c = (if c = 0xDF then [0x73, 0x73] else if c = 0x3C2 then [0x3C3] else [c])"

fun fold_chars :: "unicode_fns \<Rightarrow> bool \<Rightarrow> name \<Rightarrow> name" where
  "fold_chars U pending_space [] = []"
| "fold_chars U pending_space (c # s) =
     (if c = 0x20 then fold_chars U True s
      else (if pending_space then [0x20] else []) @ concat (map fold_lower (to_lowercase U c)) @ fold_chars U False s)"

definition username_fold :: "unicode_fns \<Rightarrow> name \<Rightarrow> name" where
  "username_fold U s = fold_chars U False (username_trim s)"

section \<open>UTF-8\<close>

lemma unat_small: "n < 256 \<Longrightarrow> unat (of_nat n :: byte) = n"
  by (simp add: unat_of_nat)

lemma of_nat_eq_byte: "n < 256 \<Longrightarrow> (of_nat n :: byte) = numeral k \<longleftrightarrow> n = unat (numeral k :: byte)"
  by (metis unat_small word_unat_eq_iff)

lemma utf8_cont_of_nat: "k < 64 \<Longrightarrow> utf8_cont (of_nat (128 + k))"
  unfolding utf8_cont_def by (simp only: word_less_nat_alt word_le_nat_alt unat_small) (simp add: unat_small)

lemma digits64:
  obtains x y z w :: nat where "c = ((w * 64 + x) * 64 + y) * 64 + z" "x < 64" "y < 64" "z < 64"
    "c div 64 div 64 div 64 = w" "c div 64 div 64 mod 64 = x" "c div 64 mod 64 = y" "c mod 64 = z"
proof -
  have "c = ((c div 64 div 64 div 64 * 64 + c div 64 div 64 mod 64) * 64 + c div 64 mod 64) * 64 + c mod 64"
    by (metis div_mult_mod_eq)
  then show ?thesis by (intro that [of "c div 64 div 64 div 64" "c div 64 div 64 mod 64" "c div 64 mod 64" "c mod 64"]) simp_all
qed

lemmas byte_order = word_less_nat_alt word_le_nat_alt unat_small

lemma utf8_char_1:
  assumes "c < 0x80"
  shows "utf8_valid (utf8_char c @ r) = utf8_valid r" and "utf8_chars (utf8_char c @ r) = c # utf8_chars r"
proof -
  have u: "unat (of_nat c :: byte) = c" using assms by (simp add: unat_small)
  then have a: "(of_nat c :: byte) < 128" using assms by (simp add: word_less_nat_alt)
  show "utf8_valid (utf8_char c @ r) = utf8_valid r" "utf8_chars (utf8_char c @ r) = c # utf8_chars r"
    using assms a u by (simp_all add: utf8_char_def)
qed

lemma utf8_char_2:
  assumes "0x80 \<le> c" and "c < 0x800"
  shows "utf8_valid (utf8_char c @ r) = utf8_valid r" and "utf8_chars (utf8_char c @ r) = c # utf8_chars r"
proof -
  define x y where "x = c div 64" and "y = c mod 64"
  have c: "c = x * 64 + y" and y: "y < 64" by (simp_all add: x_def y_def)
  then have x: "2 \<le> x" "x < 32" using assms by simp_all
  have e: "utf8_char c = [of_nat (192 + x), of_nat (128 + y)]" using assms by (simp add: utf8_char_def x_def y_def)
  have u: "unat (of_nat (192 + x) :: byte) = 192 + x" "unat (of_nat (128 + y) :: byte) = 128 + y"
    using x y by (intro unat_small; simp)+
  have a: "\<not> (of_nat (192 + x) :: byte) < 128" "194 \<le> (of_nat (192 + x) :: byte)" "(of_nat (192 + x) :: byte) \<le> 223"
    "(of_nat (192 + x) :: byte) < 224" using x by (simp_all only: word_less_nat_alt word_le_nat_alt u) simp_all
  show "utf8_valid (utf8_char c @ r) = utf8_valid r"
    using a utf8_cont_of_nat [OF y] by (simp add: e del: of_nat_add)
  show "utf8_chars (utf8_char c @ r) = c # utf8_chars r"
    using a u by (simp add: e del: of_nat_add) (simp add: c)
qed

lemma utf8_char_3:
  assumes "0x800 \<le> c" and "c < 0x10000" and "c < 0xD800 \<or> 0xE000 \<le> c"
  shows "utf8_valid (utf8_char c @ r) = utf8_valid r" and "utf8_chars (utf8_char c @ r) = c # utf8_chars r"
proof -
  define x y z where "x = c div 64 div 64" and "y = c div 64 mod 64" and "z = c mod 64"
  have c: "c = (x * 64 + y) * 64 + z" by (simp add: x_def y_def z_def)
  have y: "y < 64" and z: "z < 64" by (simp_all add: y_def z_def)
  have x: "x < 16" and lo: "x = 0 \<Longrightarrow> 32 \<le> y" and hi: "x = 13 \<Longrightarrow> y < 32" using assms c y z by auto
  have e: "utf8_char c = [of_nat (224 + x), of_nat (128 + y), of_nat (128 + z)]"
    using assms by (simp add: utf8_char_def x_def y_def z_def)
  have u: "unat (of_nat (224 + x) :: byte) = 224 + x" "unat (of_nat (128 + y) :: byte) = 128 + y"
    "unat (of_nat (128 + z) :: byte) = 128 + z"
    using x y z by (intro unat_small; simp)+
  have a: "\<not> (of_nat (224 + x) :: byte) < 128" "\<not> (of_nat (224 + x) :: byte) \<le> 223" "224 \<le> (of_nat (224 + x) :: byte)"
    "(of_nat (224 + x) :: byte) \<le> 239" "\<not> (of_nat (224 + x) :: byte) < 224" "(of_nat (224 + x) :: byte) < 240"
    "(of_nat (224 + x) :: byte) = 224 \<longrightarrow> 160 \<le> (of_nat (128 + y) :: byte)"
    "(of_nat (224 + x) :: byte) = 237 \<longrightarrow> (of_nat (128 + y) :: byte) < 160"
    using x y lo hi by (simp_all only: word_less_nat_alt word_le_nat_alt u word_unat_eq_iff) simp_all
  show "utf8_valid (utf8_char c @ r) = utf8_valid r"
    using a utf8_cont_of_nat [OF y] utf8_cont_of_nat [OF z] by (simp add: e del: of_nat_add)
  show "utf8_chars (utf8_char c @ r) = c # utf8_chars r"
    using a u by (simp add: e del: of_nat_add) (simp add: c)
qed

lemma utf8_char_4:
  assumes "0x10000 \<le> c" and "c < 0x110000"
  shows "utf8_valid (utf8_char c @ r) = utf8_valid r" and "utf8_chars (utf8_char c @ r) = c # utf8_chars r"
proof -
  define w x y z where "w = c div 64 div 64 div 64" and "x = c div 64 div 64 mod 64" and "y = c div 64 mod 64" and "z = c mod 64"
  have c: "c = ((w * 64 + x) * 64 + y) * 64 + z" unfolding w_def x_def y_def z_def by (metis div_mult_mod_eq)
  have x: "x < 64" and y: "y < 64" and z: "z < 64" by (simp_all add: x_def y_def z_def)
  have w: "w < 5" and lo: "w = 0 \<Longrightarrow> 16 \<le> x" and hi: "w = 4 \<Longrightarrow> x < 16" using assms c x y z by auto
  have e: "utf8_char c = [of_nat (240 + w), of_nat (128 + x), of_nat (128 + y), of_nat (128 + z)]"
    using assms by (simp add: utf8_char_def w_def x_def y_def z_def)
  have u: "unat (of_nat (240 + w) :: byte) = 240 + w" "unat (of_nat (128 + x) :: byte) = 128 + x"
    "unat (of_nat (128 + y) :: byte) = 128 + y" "unat (of_nat (128 + z) :: byte) = 128 + z"
    using w x y z by (intro unat_small; simp)+
  have a: "\<not> (of_nat (240 + w) :: byte) < 128" "\<not> (of_nat (240 + w) :: byte) \<le> 223" "\<not> (of_nat (240 + w) :: byte) \<le> 239"
    "240 \<le> (of_nat (240 + w) :: byte)" "(of_nat (240 + w) :: byte) \<le> 244" "\<not> (of_nat (240 + w) :: byte) < 224"
    "\<not> (of_nat (240 + w) :: byte) < 240"
    "(of_nat (240 + w) :: byte) = 240 \<longrightarrow> 144 \<le> (of_nat (128 + x) :: byte)"
    "(of_nat (240 + w) :: byte) = 244 \<longrightarrow> (of_nat (128 + x) :: byte) < 144"
    using w x lo hi by (simp_all only: word_less_nat_alt word_le_nat_alt u word_unat_eq_iff) simp_all
  show "utf8_valid (utf8_char c @ r) = utf8_valid r"
    using a utf8_cont_of_nat [OF x] utf8_cont_of_nat [OF y] utf8_cont_of_nat [OF z] by (simp add: e del: of_nat_add)
  show "utf8_chars (utf8_char c @ r) = c # utf8_chars r"
    using a u by (simp add: e del: of_nat_add) (simp add: c)
qed

lemma utf8_char_step:
  assumes "is_scalar c"
  shows "utf8_valid (utf8_char c @ r) = utf8_valid r" and "utf8_chars (utf8_char c @ r) = c # utf8_chars r"
proof -
  consider "c < 0x80" | "0x80 \<le> c" "c < 0x800" | "0x800 \<le> c" "c < 0x10000" "c < 0xD800 \<or> 0xE000 \<le> c"
    | "0x10000 \<le> c" "c < 0x110000" using assms unfolding is_scalar_def by linarith
  then have "utf8_valid (utf8_char c @ r) = utf8_valid r \<and> utf8_chars (utf8_char c @ r) = c # utf8_chars r"
    by cases (simp_all only: utf8_char_1 utf8_char_2 utf8_char_3 utf8_char_4 simp_thms)
  then show "utf8_valid (utf8_char c @ r) = utf8_valid r" "utf8_chars (utf8_char c @ r) = c # utf8_chars r" by simp_all
qed

lemma from_utf8_encode: "list_all is_scalar s \<Longrightarrow> from_utf8 (utf8_encode s) = Some s"
proof -
  assume "list_all is_scalar s"
  then have "utf8_valid (utf8_encode s) \<and> utf8_chars (utf8_encode s) = s"
    by (induction s) (simp_all add: utf8_encode_def utf8_char_step)
  then show ?thesis by (simp add: from_utf8_def)
qed

section \<open>Trimming\<close>

lemma drop_spaces: "\<exists>m. s = replicate m 0x20 @ dropWhile (\<lambda>c. c = 0x20) (s :: name)"
proof (induction s)
  case (Cons c s)
  then obtain m where m: "s = replicate m 0x20 @ dropWhile (\<lambda>c. c = 0x20) s" by blast
  show ?case
  proof (cases "c = 0x20")
    case True
    with m have "c # s = replicate (Suc m) 0x20 @ dropWhile (\<lambda>c. c = 0x20) (c # s)" by simp
    then show ?thesis by blast
  next
    case False
    then show ?thesis by (intro exI [of _ 0]) simp
  qed
qed simp

lemma trim_tail:
  "\<exists>n. dropWhile (\<lambda>c. c = 0x20) s = username_trim s @ replicate n 0x20"
proof -
  let ?d = "dropWhile (\<lambda>c. c = 0x20)"
  obtain n where n: "rev (?d s) = replicate n 0x20 @ ?d (rev (?d s))" using drop_spaces by blast
  have "rev (rev (?d s)) = rev (?d (rev (?d s))) @ rev (replicate n 0x20)" by (subst n) (simp only: rev_append)
  then show ?thesis by (intro exI [of _ n]) (simp add: username_trim_def)
qed

lemma trim_shape: "\<exists>m n. s = replicate m 0x20 @ username_trim s @ replicate n 0x20"
proof -
  obtain m where m: "s = replicate m 0x20 @ dropWhile (\<lambda>c. c = 0x20) s" using drop_spaces by blast
  obtain n where n: "dropWhile (\<lambda>c. c = 0x20) s = username_trim s @ replicate n 0x20" using trim_tail by blast
  show ?thesis using m unfolding n by blast
qed

lemma trim_ends:
  assumes ne: "username_trim s \<noteq> []"
  shows "hd (username_trim s) \<noteq> 0x20 \<and> last (username_trim s) \<noteq> 0x20"
proof -
  let ?d = "dropWhile (\<lambda>c. c = 0x20)"
  have r: "?d (rev (?d s)) \<noteq> []" using ne by (simp add: username_trim_def)
  have l: "last (username_trim s) \<noteq> 0x20" using hd_dropWhile [OF r] by (simp add: username_trim_def last_rev)
  obtain n where "?d s = username_trim s @ replicate n 0x20" using trim_tail by blast
  then have h: "hd (?d s) = hd (username_trim s)" "?d s \<noteq> []" using ne by simp_all
  have "hd (?d s) \<noteq> 0x20" using hd_dropWhile [OF h(2)] by simp
  then show ?thesis using l h(1) by simp
qed

lemma trim_Nil [simp]: "username_trim [] = []"
  by (simp add: username_trim_def)

lemma trim_trim [simp]: "username_trim (username_trim s) = username_trim s"
proof (cases "username_trim s = []")
  case False
  let ?t = "username_trim s"
  have e: "hd ?t \<noteq> 0x20" "last ?t \<noteq> 0x20" using trim_ends [OF False] by simp_all
  have d: "dropWhile (\<lambda>c. c = 0x20) xs = xs" if "hd xs \<noteq> 0x20" "xs \<noteq> []" for xs :: name using that by (cases xs) auto
  have "username_trim ?t = rev (dropWhile (\<lambda>c. c = 0x20) (rev ?t))"
    by (subst username_trim_def) (simp add: d [OF e(1) False])
  also have "\<dots> = ?t" using d [of "rev ?t"] e(2) False by (simp add: hd_rev)
  finally show ?thesis .
qed simp

section \<open>What validation accepts\<close>

definition visible :: "unicode_fns \<Rightarrow> uchar \<Rightarrow> bool" where
  "visible U c \<longleftrightarrow> \<not> is_control c \<and> (c = 0x20 \<or> \<not> is_whitespace c) \<and> (\<exists>w > 0. char_width U c = Some w)"

lemma count_columns_eq:
  "count_columns U n s = Inr m \<longleftrightarrow> list_all (visible U) s \<and> m = n + (\<Sum>c\<leftarrow>s. the (char_width U c))"
  by (induction U n s rule: count_columns.induct) (auto simp: visible_def split: option.splits)

lemma visible_columns: "list_all (visible U) s \<Longrightarrow> length s \<le> (\<Sum>c\<leftarrow>s. the (char_width U c))"
  by (induction s) (auto simp: visible_def)

lemma validate_trim [simp]: "username_validate U (username_trim s) = username_validate U s"
  by (simp add: username_validate_def)

lemma validate_eq:
  "username_validate U s = Inr () \<longleftrightarrow> (let t = username_trim s in t \<noteq> [] \<and> length (utf8_encode t) \<le> 64
     \<and> list_all (visible U) t \<and> (\<Sum>c\<leftarrow>t. the (char_width U c)) \<le> 32)"
  by (auto simp: username_validate_def Let_def rbind_Inr_iff count_columns_eq MAX_USERNAME_BYTES_def MAX_USERNAME_COLUMNS_def)

section \<open>What the fold identifies\<close>

text \<open>The words of a name: the runs of characters between its spaces.\<close>

fun name_words :: "name \<Rightarrow> name list" where
  "name_words [] = []"
| "name_words (c # s) =
     (if c = 0x20 then name_words s
      else if s = [] \<or> hd s = 0x20 then [c] # name_words s
      else (case name_words s of [] \<Rightarrow> [[c]] | w # ws \<Rightarrow> (c # w) # ws))"

definition lower_word :: "unicode_fns \<Rightarrow> name \<Rightarrow> name" where
  "lower_word U w = concat (map (\<lambda>c. concat (map fold_lower (to_lowercase U c))) w)"

fun join_words :: "name list \<Rightarrow> name" where
  "join_words [] = []"
| "join_words [w] = w"
| "join_words (w # ws) = w @ 0x20 # join_words ws"

lemma name_words_nonempty: "s \<noteq> [] \<Longrightarrow> hd s \<noteq> 0x20 \<Longrightarrow> name_words s \<noteq> []"
  by (cases s) (auto split: list.splits)

lemma join_words_Cons: "join_words (w # ws) = w @ concat (map (\<lambda>v. 0x20 # v) ws)"
  by (induction ws arbitrary: w) simp_all

lemma fold_chars_words:
  "fold_chars U True s = concat (map (\<lambda>w. 0x20 # lower_word U w) (name_words s)) \<and>
   fold_chars U False s =
     (if s \<noteq> [] \<and> hd s \<noteq> 0x20 then join_words (map (lower_word U) (name_words s))
      else concat (map (\<lambda>w. 0x20 # lower_word U w) (name_words s)))"
proof (induction s)
  case (Cons c s)
  show ?case
  proof (cases "c = 0x20 \<or> s = [] \<or> hd s = 0x20")
    case True
    then show ?thesis using Cons by (auto simp: join_words_Cons lower_word_def o_def)
  next
    case False
    then obtain w ws where w: "name_words s = w # ws" using name_words_nonempty by (metis list.exhaust)
    then show ?thesis using Cons False by (simp add: join_words_Cons lower_word_def o_def)
  qed
qed simp

lemma name_words_spaces: "name_words (replicate m 0x20 @ s @ replicate n 0x20) = name_words s"
proof -
  have "name_words (replicate n 0x20) = []" by (induction n) simp_all
  then have "name_words (s @ replicate n 0x20) = name_words s"
    by (induction s) (auto simp: hd_append split: list.splits)
  moreover have "name_words (replicate m 0x20 @ t) = name_words t" for t by (induction m) simp_all
  ultimately show ?thesis by simp
qed

lemma name_words_trim: "name_words (username_trim s) = name_words s"
proof -
  obtain m n where s: "s = replicate m 0x20 @ username_trim s @ replicate n 0x20" using trim_shape by blast
  have "name_words s = name_words (replicate m 0x20 @ username_trim s @ replicate n 0x20)" by (subst s) (rule refl)
  then show ?thesis by (simp only: name_words_spaces)
qed

lemma fold_words: "username_fold U s = join_words (map (lower_word U) (name_words s))"
proof (cases "username_trim s = []")
  case True
  then show ?thesis using name_words_trim [of s] by (simp add: username_fold_def)
next
  case False
  then show ?thesis using fold_chars_words [of U "username_trim s"] trim_ends [OF False]
    by (simp add: username_fold_def name_words_trim)
qed

lemma fold_trim [simp]: "username_fold U (username_trim s) = username_fold U s"
  by (simp add: username_fold_def)

lemma name_words_wf: "\<forall>w \<in> set (name_words s). w \<noteq> [] \<and> 0x20 \<notin> set w"
  by (induction s) (auto split: list.splits)

lemma join_words_inj:
  "\<lbrakk>\<forall>w \<in> set ws. w \<noteq> [] \<and> 0x20 \<notin> set w; \<forall>w \<in> set vs. w \<noteq> [] \<and> 0x20 \<notin> set w; join_words ws = join_words vs\<rbrakk>
     \<Longrightarrow> ws = vs"
proof (induction ws arbitrary: vs)
  case Nil
  then show ?case by (cases vs) (auto simp: join_words_Cons)
next
  case (Cons w ws)
  then obtain v us where vs: "vs = v # us" by (cases vs) (auto simp: join_words_Cons)
  have head: "takeWhile (\<lambda>c. c \<noteq> 0x20) (join_words (x # xs)) = x" if "0x20 \<notin> set x" for x xs
  proof (cases xs)
    case Nil
    then show ?thesis using that by (auto simp: takeWhile_eq_all_conv)
  next
    case (Cons y ys)
    have "takeWhile (\<lambda>c. c \<noteq> 0x20) (x @ 0x20 # join_words xs) = x"
      using that by (subst takeWhile_append2) auto
    then show ?thesis using Cons by simp
  qed
  have wv: "w = v" using head [of w ws] head [of v us] Cons.prems vs by simp
  then have "concat (map (\<lambda>v. 0x20 # v) ws) = concat (map (\<lambda>v. 0x20 # v) us)"
    using Cons.prems(3) by (simp add: vs join_words_Cons)
  then have "join_words ws = join_words us"
    by (cases ws; cases us) (auto simp: join_words_Cons)
  then have "ws = us" using Cons.IH [of us] Cons.prems vs by simp
  with wv vs show ?case by simp
qed

lemma lower_word_wf:
  assumes "\<forall>c. c \<noteq> 0x20 \<longrightarrow> to_lowercase U c \<noteq> [] \<and> 0x20 \<notin> set (to_lowercase U c)"
    and "w \<noteq> []" and "0x20 \<notin> set w"
  shows "lower_word U w \<noteq> []" and "0x20 \<notin> set (lower_word U w)"
proof -
  have f: "fold_lower c \<noteq> []" "c \<noteq> 0x20 \<Longrightarrow> 0x20 \<notin> set (fold_lower c)" for c by (simp_all add: fold_lower_def)
  obtain c v where w: "w = c # v" using assms(2) by (cases w) auto
  then obtain d l where "to_lowercase U c = d # l" using assms(1,3) by (cases "to_lowercase U c") auto
  then show "lower_word U w \<noteq> []" using f(1) by (simp add: lower_word_def w)
  show "0x20 \<notin> set (lower_word U w)" 
  proof
    assume "0x20 \<in> set (lower_word U w)"
    then obtain c d where "c \<in> set w" "d \<in> set (to_lowercase U c)" "0x20 \<in> set (fold_lower d)" by (auto simp: lower_word_def)
    then show False using assms(1,3) f(2) by metis
  qed
qed

text \<open>
  The same words from the whole name: put it in lower case, write sharp s as two letters and the final
  sigma as a sigma, and split at the spaces.
\<close>

definition lowercase :: "unicode_fns \<Rightarrow> name \<Rightarrow> name" where
  "lowercase U s = concat (map (to_lowercase U) s)"

definition case_folded :: "name \<Rightarrow> name" where
  "case_folded s = concat (map (\<lambda>c. if c = 0xDF then [0x73, 0x73] else if c = 0x3C2 then [0x3C3] else [c]) s)"

definition keeps_spaces :: "unicode_fns \<Rightarrow> bool" where
  "keeps_spaces U \<longleftrightarrow>
     to_lowercase U 0x20 = [0x20] \<and> (\<forall>c. c \<noteq> 0x20 \<longrightarrow> to_lowercase U c \<noteq> [] \<and> 0x20 \<notin> set (to_lowercase U c))"

lemma name_words_word:
  assumes "w \<noteq> []" and "0x20 \<notin> set w"
  shows "name_words (w @ r) =
     (if r = [] \<or> hd r = 0x20 then w # name_words r else (case name_words r of [] \<Rightarrow> [w] | v # vs \<Rightarrow> (w @ v) # vs))"
  using assms
proof (induction w)
  case (Cons c w)
  show ?case
  proof (cases "w = []")
    case True
    then show ?thesis using Cons.prems by (auto split: list.splits)
  next
    case False
    then have "hd (w @ r) \<noteq> 0x20" using Cons.prems by (cases w) auto
    then show ?thesis using Cons False by (auto split: list.splits)
  qed
qed simp

lemma lower_char:
  assumes "keeps_spaces U" and "c \<noteq> 0x20"
  shows "case_folded (to_lowercase U c) = lower_word U [c]" and "lower_word U [c] \<noteq> []" and "0x20 \<notin> set (lower_word U [c])"
proof -
  have "\<forall>c. c \<noteq> 0x20 \<longrightarrow> to_lowercase U c \<noteq> [] \<and> 0x20 \<notin> set (to_lowercase U c)" using assms(1) by (simp add: keeps_spaces_def)
  from lower_word_wf [OF this, of "[c]"] assms(2)
  show "lower_word U [c] \<noteq> []" "0x20 \<notin> set (lower_word U [c])" by simp_all
  have f: "(\<lambda>c. if c = 0xDF then [0x73, 0x73] else if c = 0x3C2 then [0x3C3] else [c]) = fold_lower"
    by (simp add: fun_eq_iff fold_lower_def)
  show "case_folded (to_lowercase U c) = lower_word U [c]" by (simp add: case_folded_def lower_word_def f)
qed

lemma lowered_Cons:
  assumes "keeps_spaces U"
  shows "case_folded (lowercase U (c # s)) = (if c = 0x20 then [0x20] else lower_word U [c]) @ case_folded (lowercase U s)"
proof (cases "c = 0x20")
  case True
  then show ?thesis using assms by (simp add: keeps_spaces_def lowercase_def case_folded_def)
next
  case False
  have "case_folded (lowercase U (c # s)) = case_folded (to_lowercase U c) @ case_folded (lowercase U s)"
    by (simp add: lowercase_def case_folded_def)
  then show ?thesis using False lower_char(1) [OF assms False] by simp
qed

lemma lowered_words:
  assumes "keeps_spaces U"
  shows "name_words (case_folded (lowercase U s)) = map (lower_word U) (name_words s) \<and>
    (case_folded (lowercase U s) = [] \<longleftrightarrow> s = []) \<and>
    (s \<noteq> [] \<longrightarrow> (hd (case_folded (lowercase U s)) = 0x20 \<longleftrightarrow> hd s = 0x20))"
proof (induction s)
  case Nil
  then show ?case by (simp add: lowercase_def case_folded_def)
next
  case (Cons c s)
  show ?case
  proof (cases "c = 0x20")
    case True
    then show ?thesis using Cons lowered_Cons [OF assms] by simp
  next
    case False
    note w = lower_char [OF assms False]
    define d where "d = lower_word U [c]"
    define r where "r = case_folded (lowercase U s)"
    have d: "d \<noteq> []" "0x20 \<notin> set d" using w(2,3) by (simp_all add: d_def)
    have whole: "case_folded (lowercase U (c # s)) = d @ r" using lowered_Cons [OF assms] False by (simp add: d_def r_def)
    have word: "lower_word U (c # v) = d @ lower_word U v" for v by (simp add: d_def lower_word_def)
    have IH: "name_words r = map (lower_word U) (name_words s)" "r = [] \<longleftrightarrow> s = []" "s \<noteq> [] \<Longrightarrow> hd r = 0x20 \<longleftrightarrow> hd s = 0x20"
      using Cons by (simp_all add: r_def)
    have "name_words (d @ r) = map (lower_word U) (name_words (c # s))"
    proof (cases "s = [] \<or> hd s = 0x20")
      case True
      then show ?thesis using name_words_word [OF d] IH False by (auto simp: word lower_word_def [of U "[]"])
    next
      case False
      then have "name_words (c # s) = (case name_words s of [] \<Rightarrow> [[c]] | v # vs \<Rightarrow> (c # v) # vs)"
        using \<open>c \<noteq> 0x20\<close> by simp
      then show ?thesis using name_words_word [OF d] IH False
        by (cases "name_words s") (simp_all add: word lower_word_def [of U "[]"])
    qed
    moreover have "hd (d @ r) \<noteq> 0x20" using d by (cases d) auto
    ultimately show ?thesis unfolding whole using d(1) False by simp
  qed
qed

lemma fold_whole: "keeps_spaces U \<Longrightarrow> username_fold U s = join_words (name_words (case_folded (lowercase U s)))"
  using lowered_words by (simp add: fold_words)

lemma fold_replace:
  assumes "keeps_spaces U" and "case_folded (lowercase U x) = case_folded (lowercase U y)"
  shows "username_fold U (a @ x @ b) = username_fold U (a @ y @ b)"
proof -
  have "case_folded (lowercase U (a @ z @ b)) =
      case_folded (lowercase U a) @ case_folded (lowercase U z) @ case_folded (lowercase U b)" for z
    by (simp add: lowercase_def case_folded_def)
  with assms show ?thesis by (simp add: fold_whole)
qed

section \<open>Properties\<close>

text \<open>The rule a name without outer spaces breaks first, in the order in which the rules are tried.\<close>

definition char_fault :: "unicode_fns \<Rightarrow> uchar \<Rightarrow> username_error option" where
  "char_fault U c =
     (if c < 0x20 \<or> 0x7F \<le> c \<and> c < 0xA0 then Some Control
      else if c \<noteq> 0x20 \<and> is_whitespace c then Some Whitespace
      else if char_width U c = None \<or> char_width U c = Some 0 then Some Invisible else None)"

definition columns :: "unicode_fns \<Rightarrow> name \<Rightarrow> nat" where
  "columns U t = (\<Sum>c\<leftarrow>t. the (char_width U c))"

fun breaks :: "unicode_fns \<Rightarrow> name \<Rightarrow> username_error \<Rightarrow> bool" where
  "breaks U t Empty \<longleftrightarrow> t = []"
| "breaks U t TooLong \<longleftrightarrow> t \<noteq> [] \<and> 64 < length (utf8_encode t)"
| "breaks U t TooWide \<longleftrightarrow> t \<noteq> [] \<and> length (utf8_encode t) \<le> 64 \<and> (\<forall>c \<in> set t. char_fault U c = None) \<and> 32 < columns U t"
| "breaks U t e \<longleftrightarrow> length (utf8_encode t) \<le> 64 \<and>
     (\<exists>p c q. t = p @ c # q \<and> (\<forall>d \<in> set p. char_fault U d = None) \<and> char_fault U c = Some e)"

lemma visible_fault: "visible U c \<longleftrightarrow> char_fault U c = None"
  by (cases "char_width U c") (auto simp: visible_def char_fault_def is_control_def)

lemma first_fault_Cons:
  "(\<exists>p d q. c # t = p @ d # q \<and> (\<forall>x \<in> set p. char_fault U x = None) \<and> char_fault U d = Some e) \<longleftrightarrow>
   char_fault U c = Some e \<or>
   char_fault U c = None \<and> (\<exists>p d q. t = p @ d # q \<and> (\<forall>x \<in> set p. char_fault U x = None) \<and> char_fault U d = Some e)"
  (is "?L \<longleftrightarrow> ?R1 \<or> ?R2")
proof
  assume ?L
  then obtain p d q where p: "c # t = p @ d # q" "\<forall>x \<in> set p. char_fault U x = None" "char_fault U d = Some e" by blast
  then show "?R1 \<or> ?R2" by (cases p) auto
next
  assume "?R1 \<or> ?R2"
  then show ?L
  proof
    assume ?R1
    then show ?L by (intro exI [of _ "[]"]) simp
  next
    assume ?R2
    then obtain p d q where "t = p @ d # q" "\<forall>x \<in> set (c # p). char_fault U x = None" "char_fault U d = Some e" by auto
    then show ?L by (intro exI [of _ "c # p"] exI [of _ d] exI [of _ q]) simp
  qed
qed

lemma count_columns_fault:
  "count_columns U n t = Inl e \<longleftrightarrow> (\<exists>p c q. t = p @ c # q \<and> (\<forall>d \<in> set p. char_fault U d = None) \<and> char_fault U c = Some e)"
proof (induction t arbitrary: n)
  case (Cons c t)
  show ?case
  proof (cases "char_fault U c")
    case None
    then obtain w where "char_width U c = Some w" "0 < w" "\<not> is_control c" "c = 0x20 \<or> \<not> is_whitespace c"
      by (auto simp: visible_fault [symmetric] visible_def)
    then have "count_columns U n (c # t) = count_columns U (n + w) t" by auto
    then show ?thesis unfolding first_fault_Cons Cons.IH [symmetric, of "n + w"] using None by simp
  next
    case (Some f)
    then have "count_columns U n (c # t) = Inl f"
      by (auto simp: char_fault_def is_control_def split: if_splits)
    then show ?thesis unfolding first_fault_Cons using Some by simp
  qed
qed simp

lemma validate_breaks:
  "username_validate U s = Inl e \<longleftrightarrow> breaks U (username_trim s) e"
proof -
  let ?t = "username_trim s"
  have c: "count_columns U 0 ?t = Inr m \<longleftrightarrow> (\<forall>c \<in> set ?t. char_fault U c = None) \<and> m = columns U ?t" for m
    by (auto simp: count_columns_eq visible_fault columns_def list_all_iff)
  have v: "username_validate U s = (if ?t = [] then Inl Empty else if 64 < length (utf8_encode ?t) then Inl TooLong
      else rbind (count_columns U 0 ?t) (\<lambda>n. if 32 < n then Inl TooWide else Inr ()))"
    by (simp add: username_validate_def Let_def MAX_USERNAME_BYTES_def MAX_USERNAME_COLUMNS_def)
  show ?thesis
  proof (cases "?t = [] \<or> 64 < length (utf8_encode ?t)")
    case True
    have "utf8_encode [] = []" by (simp add: utf8_encode_def)
    then show ?thesis unfolding v using True by (cases e) auto
  next
    case False
    then have "username_validate U s = Inl e \<longleftrightarrow>
        count_columns U 0 ?t = Inl e \<or> (\<exists>m. count_columns U 0 ?t = Inr m \<and> 32 < m \<and> e = TooWide)"
      unfolding v by (cases "count_columns U 0 ?t") auto
    moreover have "char_fault U c \<noteq> Some Empty" "char_fault U c \<noteq> Some TooLong" "char_fault U c \<noteq> Some TooWide" for c
      by (simp_all add: char_fault_def)
    ultimately show ?thesis unfolding count_columns_fault c using False by (cases e) auto
  qed
qed

lemma trim_unique:
  assumes "s = replicate m 0x20 @ t @ replicate n 0x20" and "t = [] \<or> hd t \<noteq> 0x20 \<and> last t \<noteq> 0x20"
  shows "username_trim s = t"
proof -
  let ?d = "dropWhile (\<lambda>c. c = (0x20 :: nat))"
  have d: "?d (replicate k 0x20 @ xs) = ?d xs" for k and xs :: name by (induction k) simp_all
  show ?thesis
  proof (cases "t = []")
    case True
    have "s = replicate (m + n) 0x20 @ []" using assms(1) True by (simp add: replicate_add)
    then have "?d s = []" using d [of "m + n" "[]"] by simp
    then have "username_trim s = []" by (auto simp: username_trim_def dest: set_dropWhileD)
    then show ?thesis using True by simp
  next
    case False
    have keep: "?d xs = xs" if "xs \<noteq> []" "hd xs \<noteq> 0x20" for xs :: name using that by (cases xs) simp_all
    have t: "?d (t @ r) = t @ r" for r by (rule keep) (use False assms(2) in simp_all)
    have r: "?d (rev t) = rev t" by (rule keep) (use False assms(2) in \<open>simp_all add: hd_rev\<close>)
    have "rev (?d s) = replicate n 0x20 @ rev t" using assms(1) by (simp add: d t)
    then show ?thesis by (simp add: username_trim_def d r)
  qed
qed

text \<open>
  C0. What a username may be, and what is said of one that may not. Take the outer ordinary spaces, and
  nothing else, off a name. It is accepted exactly when what remains is not empty, has at most 64 bytes of
  UTF-8 and 32 display columns, and every character of it occupies at least one column, is no control
  character and is no whitespace but the ordinary space; an accepted name has at most 32 characters.
  Otherwise the error is the rule broken first: empty, too long, the fault of the first bad character
  (control before whitespace before invisible), too wide.
\<close>

theorem username_validate_exact:
  assumes "s = replicate m 0x20 @ t @ replicate n 0x20" and "t = [] \<or> hd t \<noteq> 0x20 \<and> last t \<noteq> 0x20"
  shows "(username_validate U s = Inr () \<longleftrightarrow>
      t \<noteq> [] \<and> length (utf8_encode t) \<le> 64 \<and> columns U t \<le> 32 \<and>
      (\<forall>c \<in> set t. \<not> (c < 0x20 \<or> 0x7F \<le> c \<and> c < 0xA0) \<and> (c = 0x20 \<or> \<not> is_whitespace c) \<and> (\<exists>w > 0. char_width U c = Some w)))
   \<and> (username_validate U s = Inr () \<longrightarrow> length t \<le> 32)
   \<and> (\<forall>e. username_validate U s = Inl e \<longleftrightarrow> breaks U t e)"
  using visible_columns [of U t] validate_breaks [of U s] validate_eq [of U s]
  unfolding trim_unique [OF assms] Let_def columns_def
  by (auto simp: visible_def [abs_def] is_control_def list_all_iff)

text \<open>
  C0. What the uniqueness key is and what it identifies. The key of a name is made by putting the whole
  name in lower case, writing every sharp s as two letters and every final sigma as a sigma, and joining
  the words between its spaces with single spaces. Two names have the same key exactly when these words
  are the same. So a name with a sharp s is the name with two letters, and a name with a final sigma is
  the name with a sigma, small or capital.
\<close>

theorem username_fold_exact:
  assumes "keeps_spaces U"
  shows "username_fold U s = join_words (name_words (case_folded (lowercase U s))) \<and>
    (username_fold U s = username_fold U t \<longleftrightarrow>
       name_words (case_folded (lowercase U s)) = name_words (case_folded (lowercase U t))) \<and>
    (to_lowercase U 0xDF = [0xDF] \<and> to_lowercase U 0x73 = [0x73] \<longrightarrow>
       username_fold U (s @ [0xDF] @ t) = username_fold U (s @ [0x73, 0x73] @ t)) \<and>
    (to_lowercase U 0x3C2 = [0x3C2] \<and> to_lowercase U 0x3C3 = [0x3C3] \<and> to_lowercase U 0x3A3 = [0x3C3] \<longrightarrow>
       username_fold U (s @ [0x3C2] @ t) = username_fold U (s @ [0x3C3] @ t) \<and>
       username_fold U (s @ [0x3C2] @ t) = username_fold U (s @ [0x3A3] @ t))"
proof -
  have wf: "\<forall>w \<in> set (name_words x). w \<noteq> [] \<and> 0x20 \<notin> set w" for x using name_words_wf by blast
  have "username_fold U s = username_fold U t \<longleftrightarrow>
      name_words (case_folded (lowercase U s)) = name_words (case_folded (lowercase U t))"
    unfolding fold_whole [OF assms] using join_words_inj [OF wf wf] by metis
  moreover have "username_fold U (s @ [0xDF] @ t) = username_fold U (s @ [0x73, 0x73] @ t)"
    if "to_lowercase U 0xDF = [0xDF]" "to_lowercase U 0x73 = [0x73]"
    by (rule fold_replace [OF assms]) (simp add: lowercase_def case_folded_def that)
  moreover have "username_fold U (s @ [0x3C2] @ t) = username_fold U (s @ [c] @ t)"
    if "to_lowercase U 0x3C2 = [0x3C2]" "to_lowercase U c = [0x3C3]" for c
    by (rule fold_replace [OF assms]) (simp add: lowercase_def case_folded_def that)
  ultimately show ?thesis using fold_whole [OF assms] by simp
qed

section \<open>Witnesses\<close>

text \<open>One column per character, ASCII lower case.\<close>

definition demo_unicode :: unicode_fns where
  "demo_unicode = \<lparr>char_width = (\<lambda>c. Some 1), to_lowercase = (\<lambda>c. if 65 \<le> c \<and> c \<le> 90 then [c + 32] else [c])\<rparr>"

lemma demo_unicode_lower: "keeps_spaces demo_unicode"
  by (simp add: keeps_spaces_def demo_unicode_def)

text \<open>The name \<open>" A  b"\<close> and the name \<open>"a B "\<close>; a name that begins with a no-break space.\<close>

theorem username_validate_exact_witness:
  "username_validate demo_unicode [32, 65, 32, 32, 98] = Inr () \<and> username_validate demo_unicode [0xA0, 97] = Inl Whitespace"
proof -
  have "utf8_encode [65, 32, 32, 98] = [65, 32, 32, 98]" "length (utf8_encode [0xA0, 97]) = 3"
    by (simp_all add: utf8_encode_def utf8_char_def)
  then have "username_validate demo_unicode [32, 65, 32, 32, 98] = Inr ()"
    using username_validate_exact [of "[32, 65, 32, 32, 98]" 1 "[65, 32, 32, 98]" 0 demo_unicode]
    by (simp add: columns_def demo_unicode_def is_whitespace_def)
  moreover have fault: "char_fault demo_unicode 0xA0 = Some Whitespace" by (simp add: char_fault_def is_whitespace_def)
  then have "breaks demo_unicode [0xA0, 97] Whitespace"
    unfolding breaks.simps first_fault_Cons using \<open>length (utf8_encode [0xA0, 97]) = 3\<close> by simp
  then have "username_validate demo_unicode [0xA0, 97] = Inl Whitespace"
    using username_validate_exact [of "[0xA0, 97]" 0 "[0xA0, 97]" 0 demo_unicode] by simp
  ultimately show ?thesis ..
qed

theorem username_fold_exact_witness:
  "username_fold demo_unicode [32, 65, 32, 32, 98] = username_fold demo_unicode [97, 32, 66, 32] \<and>
   username_fold demo_unicode ([65] @ [0xDF] @ [66]) = username_fold demo_unicode ([65] @ [0x73, 0x73] @ [66])"
proof -
  have lower: "to_lowercase demo_unicode c = (if 65 \<le> c \<and> c \<le> 90 then [c + 32] else [c])" for c by (simp add: demo_unicode_def)
  have "name_words (case_folded (lowercase demo_unicode [32, 65, 32, 32, 98])) =
      name_words (case_folded (lowercase demo_unicode [97, 32, 66, 32]))"
    by (simp add: lowercase_def case_folded_def lower)
  moreover have "to_lowercase demo_unicode 0xDF = [0xDF] \<and> to_lowercase demo_unicode 0x73 = [0x73]" by (simp add: lower)
  ultimately show ?thesis
    using username_fold_exact [OF demo_unicode_lower, of "[32, 65, 32, 32, 98]" "[97, 32, 66, 32]"]
      username_fold_exact [OF demo_unicode_lower, of "[65]" "[66]"]
    by blast
qed

end
