(* ===== verification/Username_Registry.thy ===== *)
theory Username_Registry
  imports Username
begin

text \<open>
  The server-wide index of usernames and its append-only log (\<open>crates/server/src/username_registry.rs\<close>).

  The two maps of the registry are those of the code. The log file is its bytes; what the file system does
  with an append, a truncation or a read is an argument, so that every error path of the code is a branch
  here. The order in which a hash map is walked is an argument too.

  The lemmas reduce the pair of maps to the map from users to names: the registry is well formed when the
  folded index is its inverse, every claim keeps that, and a log of records is replayed to the same map in
  whatever order the final merge runs.
\<close>

section \<open>The registry\<close>

definition FIRST_DYNAMIC_USER_ID :: u64 where "FIRST_DYNAMIC_USER_ID = 0x100000000"

record registry =
  by_folded :: "name \<Rightarrow> u64 option"
  by_user :: "u64 \<Rightarrow> name option"

definition registry_empty :: registry where
  "registry_empty = \<lparr>by_folded = (\<lambda>_. None), by_user = (\<lambda>_. None)\<rparr>"

datatype registry_error =
    NotDynamic u64
  | BadUsername username_error
  | UsernameInUse
  | StoredInvalid u64
  | StoredDuplicate name
  | RecordTooLong
  | AppendFailed
  | ReadFailed
  | TruncateFailed

definition owner_of :: "unicode_fns \<Rightarrow> registry \<Rightarrow> name \<Rightarrow> u64 option" where
  "owner_of U reg n = by_folded reg (username_fold U n)"

definition contains_user :: "registry \<Rightarrow> u64 \<Rightarrow> bool" where
  "contains_user reg u \<longleftrightarrow> by_user reg u \<noteq> None"

definition needs_dynamic_claim :: "registry \<Rightarrow> u64 \<Rightarrow> name \<Rightarrow> bool" where
  "needs_dynamic_claim reg u n \<longleftrightarrow> by_user reg u \<noteq> Some (username_trim n)"

definition is_available :: "unicode_fns \<Rightarrow> registry \<Rightarrow> name \<Rightarrow> u64 option \<Rightarrow> bool" where
  "is_available U reg n claimant = (case owner_of U reg n of None \<Rightarrow> True | Some owner \<Rightarrow> Some owner = claimant)"

definition set_in_memory :: "unicode_fns \<Rightarrow> u64 \<Rightarrow> name \<Rightarrow> registry \<Rightarrow> registry" where
  "set_in_memory U u n reg =
     (let folded = (case by_user reg u of
                      None \<Rightarrow> by_folded reg
                    | Some previous \<Rightarrow>
                        let key = username_fold U previous in
                        if key \<noteq> username_fold U n \<and> by_folded reg key = Some u then (by_folded reg)(key := None)
                        else by_folded reg)
      in reg\<lparr>by_folded := folded(username_fold U n \<mapsto> u), by_user := (by_user reg)(u \<mapsto> n)\<rparr>)"

definition claim_in_memory :: "unicode_fns \<Rightarrow> u64 \<Rightarrow> name \<Rightarrow> registry \<Rightarrow> (registry_error, registry) result" where
  "claim_in_memory U u n reg =
     (if \<not> username_is_valid U n then Inl (StoredInvalid u)
      else if \<not> is_available U reg n (Some u) then Inl (StoredDuplicate n)
      else Inr (set_in_memory U u n reg))"

text \<open>\<open>set_explicit\<close> mirrors a name the user store accepted.\<close>

definition set_explicit :: "unicode_fns \<Rightarrow> u64 \<Rightarrow> name \<Rightarrow> registry \<Rightarrow> registry" where
  "set_explicit U u n reg = set_in_memory U u n reg"

definition apply_dynamic_claim :: "unicode_fns \<Rightarrow> u64 \<Rightarrow> name \<Rightarrow> registry \<Rightarrow> (registry_error, registry) result" where
  "apply_dynamic_claim U u n0 reg =
     (if u < FIRST_DYNAMIC_USER_ID then Inl (NotDynamic u)
      else case username_validate U n0 of
        Inl e \<Rightarrow> Inl (BadUsername e)
      | Inr _ \<Rightarrow>
          let n = username_trim n0 in
          if \<not> is_available U reg n (Some u) then Inl UsernameInUse else Inr (set_in_memory U u n reg))"

fun seed_explicit :: "unicode_fns \<Rightarrow> (u64 \<times> name) list \<Rightarrow> registry \<Rightarrow> (registry_error, registry) result" where
  "seed_explicit U [] reg = Inr reg"
| "seed_explicit U ((u, n) # users) reg = rbind (claim_in_memory U u n reg) (seed_explicit U users)"

section \<open>The log\<close>

text \<open>
  What became of an append: all of it reached the disk, or an error came after some bytes were written and
  the rollback to the old length worked or failed.
\<close>

datatype append_outcome = Appended | AppendError nat bool

definition record_bytes :: "u64 \<Rightarrow> name \<Rightarrow> bytes" where
  "record_bytes u n = to_le 8 u @ of_nat (length (utf8_encode n)) # utf8_encode n"

definition write_record :: "append_outcome \<Rightarrow> u64 \<Rightarrow> name \<Rightarrow> bytes \<Rightarrow> (registry_error, unit) result \<times> bytes" where
  "write_record out u n file =
     (if length (utf8_encode n) > 255 then (Inl RecordTooLong, file)
      else case out of
        Appended \<Rightarrow> (Inr (), file @ record_bytes u n)
      | AppendError written rolled_back \<Rightarrow>
          (Inl AppendFailed, if rolled_back then file else file @ take written (record_bytes u n)))"

definition persist_dynamic_claim :: "append_outcome \<Rightarrow> u64 \<Rightarrow> name \<Rightarrow> bytes \<Rightarrow> (registry_error, unit) result \<times> bytes" where
  "persist_dynamic_claim out u n file =
     (if u < FIRST_DYNAMIC_USER_ID then (Inl (NotDynamic u), file) else write_record out u n file)"

text \<open>A claim made on the event loop itself: the append, where there is a log, then the maps.\<close>

definition claim_dynamic :: "unicode_fns \<Rightarrow> append_outcome \<Rightarrow> u64 \<Rightarrow> name \<Rightarrow> registry \<times> bytes option
    \<Rightarrow> (registry_error, unit) result \<times> registry \<times> bytes option" where
  "claim_dynamic U out u n0 st =
     (case st of (reg, log) \<Rightarrow>
        if u < FIRST_DYNAMIC_USER_ID then (Inl (NotDynamic u), reg, log)
        else case username_validate U n0 of
          Inl e \<Rightarrow> (Inl (BadUsername e), reg, log)
        | Inr _ \<Rightarrow>
            let n = username_trim n0 in
            if \<not> is_available U reg n (Some u) then (Inl UsernameInUse, reg, log)
            else if by_user reg u = Some n then (Inr (), reg, log)
            else
              let (written, log') = (case log of
                                       None \<Rightarrow> (Inr (), None)
                                     | Some file \<Rightarrow> map_prod id Some (write_record out u n file))
              in (case written of
                    Inl e \<Rightarrow> (Inl e, reg, log')
                  | Inr _ \<Rightarrow>
                      (case apply_dynamic_claim U u n reg of
                         Inl e \<Rightarrow> (Inl e, reg, log')
                       | Inr reg' \<Rightarrow> (Inr (), reg', log'))))"

definition read_record :: "bytes \<Rightarrow> nat \<Rightarrow> (u64 \<times> name \<times> nat) option" where
  "read_record bs offset =
     (case get_range offset (offset + 9) bs of
        None \<Rightarrow> None
      | Some header \<Rightarrow>
          let len = unat (header ! 8); fin = offset + 9 + len in
          (case get_range (offset + 9) fin bs of
             None \<Rightarrow> None
           | Some raw \<Rightarrow>
               (case from_utf8 raw of None \<Rightarrow> None | Some n \<Rightarrow> Some (from_le (take 8 header), n, fin))))"

lemma read_record_next: "read_record bs offset = Some (u, n, k) \<Longrightarrow> offset < k \<and> k \<le> length bs"
  by (auto simp: read_record_def Let_def get_range_Some split: option.splits)

function replay_records :: "unicode_fns \<Rightarrow> bytes \<Rightarrow> nat \<Rightarrow> registry \<Rightarrow> (registry_error, nat \<times> registry) result" where
  "replay_records U bs offset dyn =
     (case read_record bs offset of
        None \<Rightarrow> Inr (offset, dyn)
      | Some (u, n, k) \<Rightarrow>
          if u < FIRST_DYNAMIC_USER_ID then Inl (NotDynamic u)
          else (case claim_in_memory U u n dyn of Inl e \<Rightarrow> Inl e | Inr dyn' \<Rightarrow> replay_records U bs k dyn'))"
  by pat_completeness auto
termination
  by (relation "measure (\<lambda>(U, bs, offset, dyn). length bs - offset)") (auto dest: read_record_next)

declare replay_records.simps [simp del]

text \<open>Reading the log gives its bytes, no file, or an error; \<open>walk\<close> is the order of the hash map.\<close>

datatype log_read = NotFound | ReadError | Read bytes

definition replay_log :: "unicode_fns \<Rightarrow> ((u64 \<Rightarrow> name option) \<Rightarrow> (u64 \<times> name) list) \<Rightarrow> bool \<Rightarrow> log_read \<Rightarrow> registry
    \<Rightarrow> (registry_error, bytes \<times> registry) result" where
  "replay_log U walk truncate_ok log reg =
     (case log of
        NotFound \<Rightarrow> Inr ([], reg)
      | ReadError \<Rightarrow> Inl ReadFailed
      | Read bs \<Rightarrow>
          (case replay_records U bs 0 registry_empty of
             Inl e \<Rightarrow> Inl e
           | Inr (offset, dyn) \<Rightarrow>
               if offset < length bs \<and> \<not> truncate_ok then Inl TruncateFailed
               else rbind (seed_explicit U (walk (by_user dyn)) reg) (\<lambda>reg'. Inr (take offset bs, reg'))))"

text \<open>\<open>open\<close> with a data directory: the log file it leaves and the registry. Opening the append handle is left out.\<close>

definition registry_open :: "unicode_fns \<Rightarrow> ((u64 \<Rightarrow> name option) \<Rightarrow> (u64 \<times> name) list) \<Rightarrow> bool \<Rightarrow> log_read
    \<Rightarrow> (u64 \<times> name) list \<Rightarrow> (registry_error, bytes \<times> registry) result" where
  "registry_open U walk truncate_ok log users =
     rbind (seed_explicit U users registry_empty) (replay_log U walk truncate_ok log)"

section \<open>Well-formed registries\<close>

definition registry_ok :: "unicode_fns \<Rightarrow> registry \<Rightarrow> bool" where
  "registry_ok U reg \<longleftrightarrow> (\<forall>k u. by_folded reg k = Some u \<longleftrightarrow> (\<exists>n. by_user reg u = Some n \<and> username_fold U n = k))"

text \<open>No two users have names with the same fold.\<close>

definition names_unique :: "unicode_fns \<Rightarrow> (u64 \<Rightarrow> name option) \<Rightarrow> bool" where
  "names_unique U m \<longleftrightarrow> (\<forall>u v a b. m u = Some a \<longrightarrow> m v = Some b \<longrightarrow> username_fold U a = username_fold U b \<longrightarrow> u = v)"

lemma names_uniqueD:
  assumes "names_unique U m" and "m u = Some a" and "m v = Some b" and "username_fold U a = username_fold U b"
  shows "u = v"
  using assms unfolding names_unique_def by (elim allE impE) assumption+

lemma registry_ok_empty [simp]: "registry_ok U registry_empty"
  by (simp add: registry_ok_def registry_empty_def)

lemma registry_ok_unique: "registry_ok U reg \<Longrightarrow> names_unique U (by_user reg)"
  unfolding registry_ok_def names_unique_def by (metis option.inject)

lemma option_same: "(\<And>u. x = Some u \<longleftrightarrow> y = Some u) \<Longrightarrow> x = y"
  by (cases x) (metis option.exhaust, metis)

lemma registry_ok_determined:
  assumes "registry_ok U a" and "registry_ok U b" and "by_user a = by_user b"
  shows "a = b"
proof -
  have "by_folded a k = by_folded b k" for k
  proof -
    have "by_folded a k = Some u \<longleftrightarrow> by_folded b k = Some u" for u using assms by (simp add: registry_ok_def)
    then show ?thesis by (rule option_same)
  qed
  then have "by_folded a = by_folded b" by (rule ext)
  then show ?thesis using assms(3) by simp
qed

lemma available_iff:
  assumes "registry_ok U reg"
  shows "is_available U reg n claimant \<longleftrightarrow>
    (\<forall>v m. by_user reg v = Some m \<longrightarrow> username_fold U m = username_fold U n \<longrightarrow> Some v = claimant)"
proof -
  have "(\<exists>m. by_user reg v = Some m \<and> username_fold U m = username_fold U n) \<longleftrightarrow> owner_of U reg n = Some v" for v
    using assms by (simp add: registry_ok_def owner_of_def)
  then have "(\<forall>v m. by_user reg v = Some m \<longrightarrow> username_fold U m = username_fold U n \<longrightarrow> Some v = claimant)
      \<longleftrightarrow> (\<forall>v. owner_of U reg n = Some v \<longrightarrow> Some v = claimant)" by blast
  then show ?thesis by (auto simp: is_available_def split: option.splits)
qed

lemma by_user_set [simp]: "by_user (set_in_memory U u n reg) = (by_user reg)(u \<mapsto> n)"
  by (simp add: set_in_memory_def Let_def)

lemma registry_ok_set:
  assumes ok: "registry_ok U reg" and free: "is_available U reg n (Some u)"
  shows "registry_ok U (set_in_memory U u n reg)"
proof -
  let ?reg = "set_in_memory U u n reg" and ?f = "username_fold U"
  have own: "by_folded reg (?f n) = None \<or> by_folded reg (?f n) = Some u"
    using free by (auto simp: is_available_def owner_of_def split: option.splits)
  have folded: "by_folded ?reg k = (if k = ?f n then Some u
      else if by_user reg u \<noteq> None \<and> k = ?f (the (by_user reg u)) then None else by_folded reg k)" for k
    using ok by (auto simp: set_in_memory_def Let_def registry_ok_def split: option.splits)
  have "by_folded ?reg k = Some v \<longleftrightarrow> (\<exists>m. by_user ?reg v = Some m \<and> ?f m = k)" for k v
  proof (cases "v = u")
    case True
    then show ?thesis using ok unfolding folded registry_ok_def by (auto split: if_splits)
  next
    case False
    have "by_folded reg (?f (the (by_user reg u))) = Some u" if "by_user reg u \<noteq> None"
      using ok that unfolding registry_ok_def by force
    moreover have "(\<exists>m. by_user ?reg v = Some m \<and> ?f m = k) \<longleftrightarrow> by_folded reg k = Some v"
      using ok False unfolding registry_ok_def by simp
    ultimately show ?thesis using own False unfolding folded by auto
  qed
  then show ?thesis by (simp add: registry_ok_def)
qed

lemma names_unique_submap: "names_unique U m \<Longrightarrow> m' \<subseteq>\<^sub>m m \<Longrightarrow> names_unique U m'"
  unfolding names_unique_def map_le_def by (metis domI)

section \<open>Claims in sequence\<close>

lemma claim_free:
  assumes "registry_ok U reg" and "username_is_valid U n"
    and "\<And>v m. by_user reg v = Some m \<Longrightarrow> username_fold U m = username_fold U n \<Longrightarrow> v = u"
  shows "claim_in_memory U u n reg = Inr (set_in_memory U u n reg) \<and> registry_ok U (set_in_memory U u n reg)"
proof -
  have free: "is_available U reg n (Some u)" using available_iff [OF assms(1)] assms(3) by simp
  then show ?thesis using registry_ok_set [OF assms(1) free] assms(2) by (simp add: claim_in_memory_def)
qed

lemma claim_Inr:
  assumes "claim_in_memory U u n reg = Inr reg'"
  shows "reg' = set_in_memory U u n reg" "username_is_valid U n" "is_available U reg n (Some u)"
  using assms by (auto simp: claim_in_memory_def split: if_splits)

lemma seed_append: "seed_explicit U (xs @ ys) reg = rbind (seed_explicit U xs reg) (seed_explicit U ys)"
proof (induction xs arbitrary: reg)
  case (Cons x xs)
  then show ?case by (cases x; cases "claim_in_memory U (fst x) (snd x) reg") simp_all
qed simp

lemma seed_keeps:
  "seed_explicit U xs reg = Inr reg' \<Longrightarrow> registry_ok U reg \<Longrightarrow> finite (dom (by_user reg))
     \<Longrightarrow> registry_ok U reg' \<and> finite (dom (by_user reg'))"
proof (induction xs arbitrary: reg)
  case (Cons x xs)
  obtain u n where x: "x = (u, n)" by (cases x)
  from Cons.prems(1) obtain reg1 where c: "claim_in_memory U u n reg = Inr reg1" and s: "seed_explicit U xs reg1 = Inr reg'"
    by (auto simp: x rbind_Inr_iff)
  note d = claim_Inr [OF c]
  show ?case
    by (rule Cons.IH [OF s]) (use d Cons.prems(2,3) registry_ok_set in \<open>simp_all\<close>)
qed simp

lemma seed_names_valid:
  "seed_explicit U xs reg = Inr reg' \<Longrightarrow> \<forall>u n. by_user reg u = Some n \<longrightarrow> username_is_valid U n
     \<Longrightarrow> by_user reg' v = Some m \<Longrightarrow> username_is_valid U m"
proof (induction xs arbitrary: reg)
  case (Cons x xs)
  obtain u n where x: "x = (u, n)" by (cases x)
  from Cons.prems(1) obtain reg1 where c: "claim_in_memory U u n reg = Inr reg1" and s: "seed_explicit U xs reg1 = Inr reg'"
    by (auto simp: x rbind_Inr_iff)
  show ?case
    by (rule Cons.IH [OF s _ Cons.prems(3)]) (use claim_Inr [OF c] Cons.prems(2) in \<open>auto split: if_splits\<close>)
qed simp

text \<open>Names that are valid and unique together can be claimed in any order.\<close>

lemma seed_all:
  assumes "registry_ok U reg" and "distinct (map fst xs)" and "\<forall>(u, n) \<in> set xs. username_is_valid U n"
    and "fst ` set xs \<inter> dom (by_user reg) = {}" and "names_unique U (by_user reg ++ map_of xs)"
  shows "\<exists>reg'. seed_explicit U xs reg = Inr reg' \<and> registry_ok U reg' \<and> by_user reg' = by_user reg ++ map_of xs"
  using assms
proof (induction xs arbitrary: reg)
  case (Cons x xs)
  obtain u n where x: "x = (u, n)" by (cases x)
  let ?all = "by_user reg ++ map_of (x # xs)" and ?reg1 = "set_in_memory U u n reg"
  have all: "?all = by_user ?reg1 ++ map_of xs"
  proof
    fix v
    have "map_of xs u = None" using Cons.prems(2) by (simp add: x map_of_eq_None_iff)
    then show "?all v = (by_user ?reg1 ++ map_of xs) v" by (cases "v = u") (simp_all add: x map_add_def split: option.split)
  qed
  have "v = u" if "by_user reg v = Some m" "username_fold U m = username_fold U n" for v m
  proof -
    have "v \<notin> fst ` set (x # xs)" using Cons.prems(4) that(1) by blast
    then have "map_of (x # xs) v = None" by (simp only: map_of_eq_None_iff not_False_eq_True)
    then have "?all v = Some m" using that(1) by (simp only: map_add_def option.case)
    moreover have "?all u = Some n" by (simp add: x map_add_def)
    ultimately show ?thesis using that(2) by (rule names_uniqueD [OF Cons.prems(5)])
  qed
  with Cons.prems(1,3) have c: "claim_in_memory U u n reg = Inr ?reg1 \<and> registry_ok U ?reg1"
    by (intro claim_free) (auto simp: x)
  have "\<exists>reg'. seed_explicit U xs ?reg1 = Inr reg' \<and> registry_ok U reg' \<and> by_user reg' = by_user ?reg1 ++ map_of xs"
  proof (rule Cons.IH)
    show "registry_ok U ?reg1" using c by simp
    show "distinct (map fst xs)" using Cons.prems(2) by simp
    show "\<forall>(u, n) \<in> set xs. username_is_valid U n" using Cons.prems(3) by simp
    have "u \<notin> fst ` set xs" "fst ` set xs \<inter> dom (by_user reg) = {}" using Cons.prems(2,4) by (auto simp: x)
    then show "fst ` set xs \<inter> dom (by_user ?reg1) = {}" by auto
    show "names_unique U (by_user ?reg1 ++ map_of xs)" using Cons.prems(5) unfolding all .
  qed
  moreover have "seed_explicit U (x # xs) reg = seed_explicit U xs ?reg1" using c by (simp add: x)
  ultimately show ?case unfolding all by simp
qed simp

section \<open>Reading the log back\<close>

definition record_ok :: "unicode_fns \<Rightarrow> u64 \<times> name \<Rightarrow> bool" where
  "record_ok U rec \<longleftrightarrow> \<not> fst rec < FIRST_DYNAMIC_USER_ID \<and> list_all is_scalar (snd rec) \<and> length (utf8_encode (snd rec)) \<le> 255"

definition log_bytes :: "(u64 \<times> name) list \<Rightarrow> bytes" where
  "log_bytes recs = concat (map (\<lambda>(u, n). record_bytes u n) recs)"

definition torn :: "bytes \<Rightarrow> bool" where
  "torn tail \<longleftrightarrow> (\<forall>pre. read_record (pre @ tail) (length pre) = None)"

lemma length_record_bytes: "length (record_bytes u n) = 9 + length (utf8_encode n)"
  by (simp add: record_bytes_def)

lemma read_record_exact:
  assumes "list_all is_scalar n" and "length (utf8_encode n) \<le> 255"
  shows "read_record (pre @ record_bytes u n @ post) (length pre) = Some (u, n, length pre + length (record_bytes u n))"
proof -
  let ?e = "utf8_encode n"
  have l: "unat (of_nat (length ?e) :: byte) = length ?e" using assms(2) by (simp add: unat_small)
  have h: "get_range (length pre) (length pre + 9) (pre @ record_bytes u n @ post) = Some (to_le 8 u @ [of_nat (length ?e)])"
    by (simp add: get_range_Some record_bytes_def subslice_def)
  have b: "get_range (length pre + 9) (length pre + 9 + length ?e) (pre @ record_bytes u n @ post) = Some ?e"
    by (simp add: get_range_Some record_bytes_def subslice_def)
  show ?thesis
    by (simp add: read_record_def h nth_append l b from_utf8_encode [OF assms(1)] length_record_bytes)
qed

lemma torn_prefix:
  assumes "k < length (record_bytes u n)" and "length (utf8_encode n) \<le> 255"
  shows "torn (take k (record_bytes u n))"
  unfolding torn_def
proof
  fix pre
  let ?t = "take k (record_bytes u n)" and ?e = "utf8_encode n"
  have l: "unat (of_nat (length ?e) :: byte) = length ?e" using assms(2) by (simp add: unat_small)
  show "read_record (pre @ ?t) (length pre) = None"
  proof (cases "k < 9")
    case True
    then have "get_range (length pre) (length pre + 9) (pre @ ?t) = None"
      using assms(1) by (simp add: get_range_None)
    then show ?thesis by (simp add: read_record_def)
  next
    case False
    have h: "get_range (length pre) (length pre + 9) (pre @ ?t) = Some (to_le 8 u @ [of_nat (length ?e)])"
      using False assms(1) by (auto simp: get_range_Some subslice_def record_bytes_def take_Cons' min_def)
    have "get_range (length pre + 9) (length pre + 9 + length ?e) (pre @ ?t) = None"
      using assms(1) False by (simp add: get_range_None length_record_bytes)
    then show ?thesis by (simp add: read_record_def h nth_append l)
  qed
qed

lemma torn_Nil: "torn []"
  by (simp add: torn_def read_record_def get_range_def)

lemma replay_log_bytes:
  assumes "list_all (record_ok U) recs" and "torn tail"
  shows "replay_records U (pre @ log_bytes recs @ tail) (length pre) dyn =
    rbind (seed_explicit U recs dyn) (\<lambda>dyn'. Inr (length pre + length (log_bytes recs), dyn'))"
  using assms(1)
proof (induction recs arbitrary: pre dyn)
  case Nil
  then show ?case using assms(2) by (subst replay_records.simps) (simp add: log_bytes_def torn_def)
next
  case (Cons rec recs)
  obtain u n where rec: "rec = (u, n)" by (cases rec)
  let ?r = "record_bytes u n"
  have bytes: "pre @ log_bytes (rec # recs) @ tail = pre @ ?r @ (log_bytes recs @ tail)"
    by (simp add: log_bytes_def rec)
  have read: "read_record (pre @ log_bytes (rec # recs) @ tail) (length pre) = Some (u, n, length pre + length ?r)"
    unfolding bytes by (rule read_record_exact) (use Cons.prems in \<open>simp_all add: record_ok_def rec\<close>)
  have dyn: "\<not> u < FIRST_DYNAMIC_USER_ID" using Cons.prems by (simp add: record_ok_def rec)
  have IH: "replay_records U (pre @ log_bytes (rec # recs) @ tail) (length pre + length ?r) dyn' =
      rbind (seed_explicit U recs dyn') (\<lambda>d. Inr (length pre + length (log_bytes (rec # recs)), d))" for dyn'
    using Cons.IH [of "pre @ ?r" dyn'] Cons.prems by (simp add: bytes) (simp add: log_bytes_def rec add.assoc)
  show ?case
    by (subst replay_records.simps) (use read dyn IH in \<open>simp add: rec rbind_def split: sum.split\<close>)
qed

section \<open>Opening\<close>

text \<open>The log of the dynamic users' names: its records replay to \<open>m\<close>.\<close>

definition log_holds :: "unicode_fns \<Rightarrow> bytes \<Rightarrow> (u64 \<Rightarrow> name option) \<Rightarrow> bool" where
  "log_holds U file m \<longleftrightarrow> (\<exists>recs dyn. file = log_bytes recs \<and> list_all (record_ok U) recs
     \<and> seed_explicit U recs registry_empty = Inr dyn \<and> by_user dyn = m)"

definition walks :: "((u64 \<Rightarrow> name option) \<Rightarrow> (u64 \<times> name) list) \<Rightarrow> bool" where
  "walks walk \<longleftrightarrow> (\<forall>m. finite (dom m) \<longrightarrow> distinct (map fst (walk m)) \<and> map_of (walk m) = m)"

lemma log_holds_empty: "log_holds U [] (\<lambda>_. None)"
  unfolding log_holds_def by (intro exI [of _ "[]"] exI [of _ registry_empty]) (simp add: log_bytes_def registry_empty_def)

lemma log_holds_append:
  assumes "log_holds U file m" and "record_ok U (u, n)" and "username_is_valid U n"
    and "\<And>v k. m v = Some k \<Longrightarrow> username_fold U k = username_fold U n \<Longrightarrow> v = u"
  shows "log_holds U (file @ record_bytes u n) (m(u \<mapsto> n))"
proof -
  obtain recs dyn where r: "file = log_bytes recs" "list_all (record_ok U) recs"
    "seed_explicit U recs registry_empty = Inr dyn" "by_user dyn = m" using assms(1) unfolding log_holds_def by blast
  have "registry_ok U dyn" using seed_keeps [OF r(3)] by (simp add: registry_empty_def [THEN arg_cong [where f = by_user]])
  then have "claim_in_memory U u n dyn = Inr (set_in_memory U u n dyn)"
    using claim_free [OF _ assms(3), of dyn u] assms(4) r(4) by blast
  then have "seed_explicit U (recs @ [(u, n)]) registry_empty = Inr (set_in_memory U u n dyn)"
    by (simp add: seed_append r(3))
  then show ?thesis unfolding log_holds_def
    by (intro exI [of _ "recs @ [(u, n)]"] exI [of _ "set_in_memory U u n dyn"])
      (use r assms(2) in \<open>simp add: log_bytes_def\<close>)
qed

lemma log_holds_dom:
  assumes "log_holds U file m" and "m u = Some n"
  shows "\<not> u < FIRST_DYNAMIC_USER_ID"
proof -
  obtain recs dyn where r: "list_all (record_ok U) recs" "seed_explicit U recs registry_empty = Inr dyn" "by_user dyn = m"
    using assms(1) unfolding log_holds_def by blast
  have "\<exists>k. (u, k) \<in> set xs \<or> by_user reg u \<noteq> None" if "seed_explicit U xs reg = Inr reg'" "by_user reg' u \<noteq> None" for xs reg reg'
    using that
  proof (induction xs arbitrary: reg)
    case (Cons x xs)
    obtain v k where x: "x = (v, k)" by (cases x)
    from Cons.prems(1) obtain reg1 where c: "claim_in_memory U v k reg = Inr reg1" and s: "seed_explicit U xs reg1 = Inr reg'"
      by (auto simp: x rbind_Inr_iff)
    from Cons.IH [OF s Cons.prems(2)] claim_Inr(1) [OF c] show ?case by (auto simp: x split: if_splits)
  qed simp
  from this [OF r(2)] assms(2) r(1,3) show ?thesis by (auto simp: registry_empty_def list_all_iff record_ok_def)
qed

lemma open_restores:
  assumes log: "log_holds U file m" and tail: "torn tail" "tail \<noteq> [] \<longrightarrow> truncate_ok" and walk: "walks walk"
    and users: "distinct (map fst users)" "\<forall>(u, n) \<in> set users. username_is_valid U n \<and> u < FIRST_DYNAMIC_USER_ID"
    and unique: "names_unique U (map_of users ++ m)"
  shows "\<exists>reg. registry_open U walk truncate_ok (Read (file @ tail)) users = Inr (file, reg) \<and> registry_ok U reg
     \<and> by_user reg = map_of users ++ m"
proof -
  obtain recs dyn where r: "file = log_bytes recs" "list_all (record_ok U) recs"
    "seed_explicit U recs registry_empty = Inr dyn" "by_user dyn = m" using log unfolding log_holds_def by blast
  have empty: "by_user registry_empty = Map.empty" by (simp add: registry_empty_def)
  have dyn: "finite (dom m)" using seed_keeps [OF r(3)] r(4) by (simp add: empty)
  have valid: "username_is_valid U n" if "m u = Some n" for u n
    using seed_names_valid [OF r(3), of u n] that r(4) by (simp add: empty)
  have disjoint: "fst ` set users \<inter> dom m = {}" using users(2) log_holds_dom [OF log] by fastforce
  have sub: "map_of users \<subseteq>\<^sub>m map_of users ++ m"
    using disjoint by (auto simp: map_le_def map_add_def dom_map_of_conv_image_fst split: option.splits)
  obtain seed where seed: "seed_explicit U users registry_empty = Inr seed" "registry_ok U seed" "by_user seed = map_of users"
    using seed_all [of U registry_empty users] users names_unique_submap [OF unique sub] by (auto simp: empty split_beta)
  have w: "distinct (map fst (walk m))" "map_of (walk m) = m" using walk dyn by (simp_all add: walks_def)
  have "\<exists>reg. seed_explicit U (walk m) seed = Inr reg \<and> registry_ok U reg \<and> by_user reg = by_user seed ++ map_of (walk m)"
  proof (rule seed_all [OF seed(2) w(1)])
    show "\<forall>(u, n) \<in> set (walk m). username_is_valid U n" using w valid by (auto simp flip: map_of_eq_Some_iff)
    show "fst ` set (walk m) \<inter> dom (by_user seed) = {}"
      using disjoint w(2) by (metis dom_map_of_conv_image_fst inf_commute seed(3))
    show "names_unique U (by_user seed ++ map_of (walk m))" using unique w(2) seed(3) by simp
  qed
  then obtain reg where reg: "seed_explicit U (walk m) seed = Inr reg" "registry_ok U reg" "by_user reg = map_of users ++ m"
    using w(2) seed(3) by auto
  have replay: "replay_records U (file @ tail) 0 registry_empty = Inr (length file, dyn)"
    using replay_log_bytes [OF r(2) tail(1), of "[]" registry_empty] r(1,3) by simp
  show ?thesis
    using reg tail(2) by (auto simp: registry_open_def seed(1) replay_log_def replay r(4))
qed

end
