(* ===== verification/Identity_Store.thy ===== *)
theory Identity_Store
  imports Username_Registry
begin

text \<open>
  The user store (\<open>crates/server/src/user_store.rs\<close>) and the identity transactions of the event loop
  (\<open>crates/server/src/identity_writer.rs\<close> and the handlers of \<open>crates/server/src/lib.rs\<close> that claim a username).

  A claim of a name is checked against the registry, handed to the writer thread, which appends to the log
  or replaces \<open>users.toml\<close>, and applied to the maps when the reply comes back. One transaction is admitted
  at a time. The actions of the event loop, of the writer and of the file system interleave freely here. The
  theory shows that names stay unique and that a crash at any point leaves a disk from which the server
  starts again with the names it had, or with the one change that was under way.

  The file \<open>users.toml\<close> is the list of records it holds: the TOML text in between is that of the crate
  \<open>toml_spanner\<close>.
\<close>

section \<open>The user store\<close>

record user_config =
  uc_id :: u64
  internal_reference :: name
  uc_username :: name
  token_hash :: name

datatype store_error =
    NameRejected username_error
  | NoSuchUser
  | NoUserIds
  | ZeroId
  | IdReserved
  | EmptyReference
  | DuplicateId
  | DuplicateReference
  | DuplicateUsername
  | BadTokenHash

text \<open>\<open>str::trim\<close>.\<close>

definition str_trim :: "name \<Rightarrow> name" where
  "str_trim s = rev (dropWhile is_whitespace (rev (dropWhile is_whitespace s)))"

fun update_first :: "('a \<Rightarrow> bool) \<Rightarrow> ('a \<Rightarrow> 'a) \<Rightarrow> 'a list \<Rightarrow> ('a \<times> 'a list) option" where
  "update_first p f [] = None"
| "update_first p f (x # xs) =
     (if p x then Some (f x, f x # xs)
      else case update_first p f xs of None \<Rightarrow> None | Some (y, ys) \<Rightarrow> Some (y, x # ys))"

definition max_user_id :: "user_config list \<Rightarrow> u64" where
  "max_user_id users = foldl (\<lambda>m user. max m (uc_id user)) 0 users"

definition prepare_mark_user_paired :: "unicode_fns \<Rightarrow> name \<Rightarrow> name \<Rightarrow> name \<Rightarrow> user_config list
    \<Rightarrow> (store_error, user_config \<times> user_config list) result" where
  "prepare_mark_user_paired U reference raw hash users =
     (case username_validate U raw of
        Inl e \<Rightarrow> Inl (NameRejected e)
      | Inr _ \<Rightarrow>
          let username = username_trim raw in
          (case update_first (\<lambda>user. internal_reference user = reference)
                  (\<lambda>user. user\<lparr>uc_username := username, token_hash := hash\<rparr>) users of
             Some prepared \<Rightarrow> Inr prepared
           | None \<Rightarrow>
               (case checked_add (max_user_id users) 1 of
                  None \<Rightarrow> Inl NoUserIds
                | Some uid \<Rightarrow>
                    if \<not> uid < FIRST_DYNAMIC_USER_ID then Inl NoUserIds
                    else
                      let user = \<lparr>uc_id = uid, internal_reference = reference, uc_username = username, token_hash = hash\<rparr>
                      in Inr (user, users @ [user]))))"

definition prepare_set_user_username :: "unicode_fns \<Rightarrow> u64 \<Rightarrow> name \<Rightarrow> user_config list
    \<Rightarrow> (store_error, user_config \<times> user_config list) result" where
  "prepare_set_user_username U uid raw users =
     (case username_validate U raw of
        Inl e \<Rightarrow> Inl (NameRejected e)
      | Inr _ \<Rightarrow>
          (case update_first (\<lambda>user. uc_id user = uid) (\<lambda>user. user\<lparr>uc_username := username_trim raw\<rparr>) users of
             None \<Rightarrow> Inl NoSuchUser
           | Some prepared \<Rightarrow> Inr prepared))"

definition store_normalize :: "user_config \<Rightarrow> user_config" where
  "store_normalize user =
     (let reference = str_trim (internal_reference user); username = str_trim (uc_username user)
      in user\<lparr>internal_reference := reference, uc_username := (if username = [] then reference else username)\<rparr>)"

text \<open>The checks on load, with the sets the loop fills; \<open>hash_ok\<close> is \<open>validate_secret_hash\<close>.\<close>

fun store_validate :: "unicode_fns \<Rightarrow> (name \<Rightarrow> bool) \<Rightarrow> u64 set \<Rightarrow> name set \<Rightarrow> name set \<Rightarrow> user_config list
    \<Rightarrow> (store_error, unit) result" where
  "store_validate U hash_ok ids refs names [] = Inr ()"
| "store_validate U hash_ok ids refs names (user # users) =
     (if uc_id user = 0 then Inl ZeroId
      else if \<not> uc_id user < FIRST_DYNAMIC_USER_ID then Inl IdReserved
      else if internal_reference user = [] then Inl EmptyReference
      else case username_validate U (uc_username user) of
        Inl e \<Rightarrow> Inl (NameRejected e)
      | Inr _ \<Rightarrow>
          if uc_id user \<in> ids then Inl DuplicateId
          else if internal_reference user \<in> refs then Inl DuplicateReference
          else if uc_username user \<noteq> [] \<and> username_fold U (uc_username user) \<in> names then Inl DuplicateUsername
          else if str_trim (token_hash user) \<noteq> [] \<and> \<not> hash_ok (token_hash user) then Inl BadTokenHash
          else store_validate U hash_ok (insert (uc_id user) ids) (insert (internal_reference user) refs)
                 (if uc_username user \<noteq> [] then insert (username_fold U (uc_username user)) names else names) users)"

definition store_open :: "unicode_fns \<Rightarrow> (name \<Rightarrow> bool) \<Rightarrow> user_config list option \<Rightarrow> (store_error, user_config list) result" where
  "store_open U hash_ok file =
     (case file of
        None \<Rightarrow> Inr []
      | Some records \<Rightarrow>
          let users = map store_normalize records in rbind (store_validate U hash_ok {} {} {} users) (\<lambda>_. Inr users))"

section \<open>Identity transactions\<close>

text \<open>What became of a replacement of \<open>users.toml\<close>: the last is an error after the rename.\<close>

datatype replace_outcome = Replaced | NotReplaced | ReplacedUnsynced

datatype pending_identity = PendingDynamic u64 name | PendingUsers "user_config list" user_config

record identity =
  id_reg :: registry
  id_users :: "user_config list"
  pending_identity :: "pending_identity option"
  write_reply :: "bool option"
  disk_log :: bytes
  disk_users :: "user_config list option"

definition begin_identity_write :: "pending_identity \<Rightarrow> identity \<Rightarrow> identity" where
  "begin_identity_write p st =
     (if pending_identity st \<noteq> None then st else st\<lparr>pending_identity := Some p, write_reply := None\<rparr>)"

definition authenticate_dynamic_user :: "u64 \<Rightarrow> name \<Rightarrow> identity \<Rightarrow> identity" where
  "authenticate_dynamic_user uid n st =
     (if needs_dynamic_claim (id_reg st) uid n then begin_identity_write (PendingDynamic uid n) st else st)"

definition claim_username :: "unicode_fns \<Rightarrow> u64 \<Rightarrow> name \<Rightarrow> identity \<Rightarrow> identity" where
  "claim_username U uid raw st =
     (let n = username_trim raw in
      if \<not> username_is_valid U n \<or> \<not> is_available U (id_reg st) n (Some uid) then st
      else authenticate_dynamic_user uid n st)"

definition authenticate_explicit_user :: "unicode_fns \<Rightarrow> user_config \<Rightarrow> name \<Rightarrow> identity \<Rightarrow> identity" where
  "authenticate_explicit_user U user n st =
     (if n = uc_username user then st
      else case prepare_set_user_username U (uc_id user) n (id_users st) of
        Inl _ \<Rightarrow> st
      | Inr (updated, users) \<Rightarrow> begin_identity_write (PendingUsers users updated) st)"

definition rename_explicit :: "unicode_fns \<Rightarrow> u64 \<Rightarrow> name \<Rightarrow> identity \<Rightarrow> identity" where
  "rename_explicit U uid raw st =
     (case List.find (\<lambda>user. uc_id user = uid) (id_users st) of
        None \<Rightarrow> st
      | Some user \<Rightarrow>
          let n = username_trim raw in
          if \<not> username_is_valid U n \<or> \<not> is_available U (id_reg st) n (Some uid) then st
          else authenticate_explicit_user U user n st)"

text \<open>\<open>reference\<close> is the user an active invite names, \<open>hash\<close> the hash of the new token.\<close>

definition pair_client :: "unicode_fns \<Rightarrow> name \<Rightarrow> name \<Rightarrow> name \<Rightarrow> identity \<Rightarrow> identity" where
  "pair_client U reference raw hash st =
     (let n = username_trim raw in
      if \<not> username_is_valid U n then st
      else if \<exists>user \<in> set (id_users st). internal_reference user \<noteq> reference \<and> token_hash user = hash then st
      else
        let claimant = map_option uc_id (List.find (\<lambda>user. internal_reference user = reference) (id_users st)) in
        if \<not> is_available U (id_reg st) n claimant then st
        else (case prepare_mark_user_paired U reference n hash (id_users st) of
                Inl _ \<Rightarrow> st
              | Inr (user, users) \<Rightarrow> begin_identity_write (PendingUsers users user) st))"

text \<open>The writer thread runs the request that is queued and replies.\<close>

definition execute_write :: "append_outcome \<Rightarrow> replace_outcome \<Rightarrow> identity \<Rightarrow> identity" where
  "execute_write appended replaced st =
     (if write_reply st \<noteq> None then st
      else case pending_identity st of
        None \<Rightarrow> st
      | Some (PendingDynamic uid n) \<Rightarrow>
          (case persist_dynamic_claim appended uid n (disk_log st) of
             (res, log) \<Rightarrow> st\<lparr>write_reply := Some (res = Inr ()), disk_log := log\<rparr>)
      | Some (PendingUsers users user) \<Rightarrow>
          st\<lparr>write_reply := Some (replaced = Replaced),
             disk_users := (if replaced = NotReplaced then disk_users st else Some users)\<rparr>)"

definition drain_identity_reply :: "unicode_fns \<Rightarrow> identity \<Rightarrow> identity" where
  "drain_identity_reply U st =
     (case (pending_identity st, write_reply st) of
        (Some p, Some done) \<Rightarrow>
          let st' = st\<lparr>pending_identity := None, write_reply := None\<rparr> in
          if \<not> done then st'
          else (case p of
                  PendingDynamic uid n \<Rightarrow>
                    (case apply_dynamic_claim U uid n (id_reg st) of Inl _ \<Rightarrow> st' | Inr reg \<Rightarrow> st'\<lparr>id_reg := reg\<rparr>)
                | PendingUsers users user \<Rightarrow>
                    st'\<lparr>id_users := users, id_reg := set_explicit U (uc_id user) (uc_username user) (id_reg st)\<rparr>)
      | _ \<Rightarrow> st)"

datatype identity_act =
    ClaimUsername u64 name
  | RenameExplicit u64 name
  | PairClient name name name
  | ExecuteWrite append_outcome replace_outcome
  | DrainReply

fun identity_step :: "unicode_fns \<Rightarrow> identity_act \<Rightarrow> identity \<Rightarrow> identity" where
  "identity_step U (ClaimUsername uid raw) st = claim_username U uid raw st"
| "identity_step U (RenameExplicit uid raw) st = rename_explicit U uid raw st"
| "identity_step U (PairClient reference raw hash) st = pair_client U reference raw hash st"
| "identity_step U (ExecuteWrite appended replaced) st = execute_write appended replaced st"
| "identity_step U DrainReply st = drain_identity_reply U st"

definition identity_run :: "unicode_fns \<Rightarrow> identity_act list \<Rightarrow> identity \<Rightarrow> identity" where
  "identity_run U acts st = foldl (\<lambda>st act. identity_step U act st) st acts"

definition name_entries :: "user_config list \<Rightarrow> (u64 \<times> name) list" where
  "name_entries users = map (\<lambda>user. (uc_id user, uc_username user)) users"

text \<open>The start of the server from what is on disk.\<close>

definition server_open :: "unicode_fns \<Rightarrow> (name \<Rightarrow> bool) \<Rightarrow> ((u64 \<Rightarrow> name option) \<Rightarrow> (u64 \<times> name) list) \<Rightarrow> bool
    \<Rightarrow> log_read \<Rightarrow> user_config list option \<Rightarrow> (store_error + registry_error, identity) result" where
  "server_open U hash_ok walk truncate_ok log file =
     (case store_open U hash_ok file of
        Inl e \<Rightarrow> Inl (Inl e)
      | Inr users \<Rightarrow>
          (case registry_open U walk truncate_ok log (name_entries users) of
             Inl e \<Rightarrow> Inl (Inr e)
           | Inr (bs, reg) \<Rightarrow>
               Inr \<lparr>id_reg = reg, id_users = users, pending_identity = None, write_reply = None, disk_log = bs,
                    disk_users = file\<rparr>))"

section \<open>Well-formed stores\<close>

definition user_ok :: "unicode_fns \<Rightarrow> (name \<Rightarrow> bool) \<Rightarrow> user_config \<Rightarrow> bool" where
  "user_ok U hash_ok user \<longleftrightarrow> uc_id user \<noteq> 0 \<and> uc_id user < FIRST_DYNAMIC_USER_ID
     \<and> internal_reference user \<noteq> [] \<and> str_trim (internal_reference user) = internal_reference user
     \<and> username_is_valid U (uc_username user) \<and> username_trim (uc_username user) = uc_username user
     \<and> (str_trim (token_hash user) \<noteq> [] \<longrightarrow> hash_ok (token_hash user))"

definition store_ok :: "unicode_fns \<Rightarrow> (name \<Rightarrow> bool) \<Rightarrow> user_config list \<Rightarrow> bool" where
  "store_ok U hash_ok users \<longleftrightarrow> list_all (user_ok U hash_ok) users \<and> distinct (map uc_id users)
     \<and> distinct (map internal_reference users)"

lemma str_trim_id:
  assumes "s \<noteq> []" and "\<not> is_whitespace (hd s)" and "\<not> is_whitespace (last s)"
  shows "str_trim s = s"
proof -
  have d: "dropWhile is_whitespace xs = xs" if "xs \<noteq> []" "\<not> is_whitespace (hd xs)" for xs using that by (cases xs) auto
  have "dropWhile is_whitespace (rev s) = rev s" using d [of "rev s"] assms(1,3) by (simp add: hd_rev)
  then show ?thesis using d [OF assms(1,2)] by (simp add: str_trim_def)
qed

lemma valid_str_trim:
  assumes "username_is_valid U n" and "username_trim n = n"
  shows "str_trim n = n" and "n \<noteq> []"
proof -
  have v: "n \<noteq> []" "list_all (visible U) n"
    using assms validate_eq [of U n] by (simp_all add: username_is_valid_def Let_def)
  moreover have "hd n \<noteq> 0x20" "last n \<noteq> 0x20" using trim_ends [of n] assms(2) v(1) by simp_all
  moreover have "hd n \<in> set n" "last n \<in> set n" using v(1) by simp_all
  ultimately have "\<not> is_whitespace (hd n)" "\<not> is_whitespace (last n)" by (auto simp: list_all_iff visible_def)
  then show "str_trim n = n" "n \<noteq> []" using str_trim_id v(1) by auto
qed

lemma normalize_ok: "user_ok U hash_ok user \<Longrightarrow> store_normalize user = user"
  using valid_str_trim [of U "uc_username user"] by (simp add: user_ok_def store_normalize_def Let_def)

lemma entries_ids: "map fst (name_entries users) = map uc_id users"
  by (simp add: name_entries_def)

lemma unique_folds:
  assumes "names_unique U (map_of (name_entries users))" and "distinct (map uc_id users)"
  shows "distinct (map (\<lambda>user. username_fold U (uc_username user)) users)"
proof (subst distinct_conv_nth, intro allI impI)
  let ?f = "\<lambda>i. username_fold U (uc_username (users ! i))"
  have e: "map_of (name_entries users) (uc_id (users ! i)) = Some (uc_username (users ! i))" if "i < length users" for i
  proof (rule map_of_is_SomeI)
    show "distinct (map fst (name_entries users))" using assms(2) by (simp only: entries_ids)
    show "(uc_id (users ! i), uc_username (users ! i)) \<in> set (name_entries users)" using that by (auto simp: name_entries_def)
  qed
  fix i j
  assume ij: "i < length (map (\<lambda>user. username_fold U (uc_username user)) users)"
    "j < length (map (\<lambda>user. username_fold U (uc_username user)) users)" "i \<noteq> j"
  show "map (\<lambda>user. username_fold U (uc_username user)) users ! i \<noteq> map (\<lambda>user. username_fold U (uc_username user)) users ! j"
  proof
    assume "map (\<lambda>user. username_fold U (uc_username user)) users ! i = map (\<lambda>user. username_fold U (uc_username user)) users ! j"
    then have "uc_id (users ! i) = uc_id (users ! j)"
      using names_uniqueD [OF assms(1) e e, of i j] ij by simp
    then show False using assms(2) ij by (simp add: distinct_conv_nth)
  qed
qed

lemma store_validate_ok:
  assumes "list_all (user_ok U hash_ok) users" and "distinct (map uc_id users)" and "distinct (map internal_reference users)"
    and "distinct (map (\<lambda>user. username_fold U (uc_username user)) users)"
    and "uc_id ` set users \<inter> ids = {}" and "internal_reference ` set users \<inter> refs = {}"
    and "(\<lambda>user. username_fold U (uc_username user)) ` set users \<inter> names = {}"
  shows "store_validate U hash_ok ids refs names users = Inr ()"
  using assms
proof (induction users arbitrary: ids refs names)
  case (Cons user users)
  then have v: "username_validate U (uc_username user) = Inr ()" "uc_username user \<noteq> []"
    using valid_str_trim(2) [of U "uc_username user"] by (auto simp: user_ok_def username_is_valid_def)
  have "store_validate U hash_ok (insert (uc_id user) ids) (insert (internal_reference user) refs)
      (insert (username_fold U (uc_username user)) names) users = Inr ()"
    by (rule Cons.IH) (use Cons.prems in auto)
  with v Cons.prems show ?case by (auto simp: user_ok_def)
qed simp

lemma store_open_ok:
  assumes "store_ok U hash_ok users" and "names_unique U (map_of (name_entries users))"
  shows "store_open U hash_ok (Some users) = Inr users"
proof -
  have "map store_normalize users = users"
    using assms(1) by (intro map_idI) (auto simp: store_ok_def list_all_iff intro: normalize_ok)
  moreover have "store_validate U hash_ok {} {} {} users = Inr ()"
    using assms unique_folds [OF assms(2)] by (intro store_validate_ok) (simp_all add: store_ok_def)
  ultimately show ?thesis by (simp add: store_open_def Let_def)
qed

section \<open>Preparing a new list of users\<close>

lemma update_first_Some:
  assumes "update_first p f xs = Some (y, ys)"
  obtains pre x post where "xs = pre @ x # post" "p x" "y = f x" "ys = pre @ f x # post"
proof -
  have "\<exists>pre x post. xs = pre @ x # post \<and> p x \<and> y = f x \<and> ys = pre @ f x # post"
    using assms
  proof (induction xs arbitrary: ys)
    case (Cons z zs)
    show ?case
    proof (cases "p z")
      case True
      then show ?thesis using Cons.prems by (intro exI [of _ "[]"]) auto
    next
      case False
      then obtain ys' where y: "update_first p f zs = Some (y, ys')" "ys = z # ys'"
        using Cons.prems by (auto split: option.splits)
      from Cons.IH [OF y(1)] obtain pre x post where "zs = pre @ x # post" "p x" "y = f x" "ys' = pre @ f x # post" by blast
      then show ?thesis using y(2) by (intro exI [of _ "z # pre"]) auto
    qed
  qed simp
  then show ?thesis using that by blast
qed

lemma update_first_None: "update_first p f xs = None \<Longrightarrow> \<forall>x \<in> set xs. \<not> p x"
  by (induction xs) (auto split: if_splits option.splits)

lemma find_split: "\<forall>z \<in> set pre. \<not> p z \<Longrightarrow> p x \<Longrightarrow> List.find p (pre @ x # post) = Some x"
  by (induction pre) simp_all

lemma entries_update:
  assumes "distinct (map uc_id (pre @ user # post))" and "uc_id user' = uc_id user"
  shows "map_of (name_entries (pre @ user' # post)) = (map_of (name_entries (pre @ user # post)))(uc_id user \<mapsto> uc_username user')"
proof -
  have "map_of (name_entries pre) (uc_id user) = None" using assms(1) by (auto simp: map_of_eq_None_iff name_entries_def image_iff)
  then show ?thesis using assms(2) by (auto simp: name_entries_def fun_eq_iff map_add_def split: option.splits)
qed

lemma replaced_user_ok:
  assumes "store_ok U hash_ok (pre @ user # post)" and "user_ok U hash_ok user'"
    and "uc_id user' = uc_id user" and "internal_reference user' = internal_reference user"
  shows "store_ok U hash_ok (pre @ user' # post)"
  using assms by (simp add: store_ok_def)

lemma prepare_set_ok:
  assumes "store_ok U hash_ok users" and "username_trim n = n"
    and "prepare_set_user_username U uid n users = Inr (user, users')"
  shows "store_ok U hash_ok users'" and "uc_id user = uid" and "uc_username user = n" and "uc_id user < FIRST_DYNAMIC_USER_ID"
    and "map_of (name_entries users') = (map_of (name_entries users))(uid \<mapsto> n)"
proof -
  let ?f = "\<lambda>user :: user_config. user\<lparr>uc_username := n\<rparr>"
  have v: "username_is_valid U n" and u: "update_first (\<lambda>user. uc_id user = uid) ?f users = Some (user, users')"
    using assms(2,3) by (auto simp: prepare_set_user_username_def username_is_valid_def split: sum.splits option.splits)
  from u obtain pre x post where x: "users = pre @ x # post" "uc_id x = uid" "user = ?f x" "users' = pre @ ?f x # post"
    by (rule update_first_Some)
  have ok: "user_ok U hash_ok x" "distinct (map uc_id (pre @ x # post))" using assms(1) x(1) by (auto simp: store_ok_def)
  have "user_ok U hash_ok (?f x)" using ok(1) v assms(2) by (simp add: user_ok_def)
  then show "store_ok U hash_ok users'" using replaced_user_ok [of U hash_ok pre x post "?f x"] assms(1) x by simp
  show "uc_id user = uid" "uc_username user = n" using x by simp_all
  show "uc_id user < FIRST_DYNAMIC_USER_ID" using ok(1) x by (simp add: user_ok_def)
  show "map_of (name_entries users') = (map_of (name_entries users))(uid \<mapsto> n)"
    using entries_update [OF ok(2), of "?f x"] x by simp
qed

lemma max_user_id_ge: "user \<in> set users \<Longrightarrow> uc_id user \<le> max_user_id users"
proof -
  have acc: "m \<le> foldl (\<lambda>m user. max m (uc_id user)) m us" for m and us :: "user_config list"
    by (induction us arbitrary: m) (auto intro: order_trans [OF max.cobounded1])
  have "user \<in> set users \<Longrightarrow> uc_id user \<le> foldl (\<lambda>m user. max m (uc_id user)) m users" for m
    by (induction users arbitrary: m) (auto intro: order_trans [OF _ acc])
  then show "user \<in> set users \<Longrightarrow> uc_id user \<le> max_user_id users" by (simp add: max_user_id_def)
qed

lemma prepare_mark_ok:
  assumes "store_ok U hash_ok users" and "username_trim n = n" and "reference \<noteq> []" "str_trim reference = reference" "hash_ok hash"
    and "prepare_mark_user_paired U reference n hash users = Inr (user, users')"
  shows "store_ok U hash_ok users'" and "uc_username user = n" and "uc_id user < FIRST_DYNAMIC_USER_ID"
    and "map_of (name_entries users') = (map_of (name_entries users))(uc_id user \<mapsto> n)"
    and "\<And>old. List.find (\<lambda>user. internal_reference user = reference) users = Some old \<Longrightarrow> uc_id user = uc_id old"
proof -
  let ?f = "\<lambda>user :: user_config. user\<lparr>uc_username := n, token_hash := hash\<rparr>"
  let ?p = "\<lambda>user. internal_reference user = reference"
  have v: "username_is_valid U n"
    using assms(6) by (auto simp: prepare_mark_user_paired_def username_is_valid_def split: sum.splits)
  consider (old) "update_first ?p ?f users = Some (user, users')"
    | (new) uid where "update_first ?p ?f users = None" "checked_add (max_user_id users) 1 = Some uid" "uid < FIRST_DYNAMIC_USER_ID"
        "user = \<lparr>uc_id = uid, internal_reference = reference, uc_username = n, token_hash = hash\<rparr>" "users' = users @ [user]"
    using assms(2,6) by (auto simp: prepare_mark_user_paired_def Let_def split: sum.splits option.splits if_splits)
  then have "store_ok U hash_ok users' \<and> uc_username user = n \<and> uc_id user < FIRST_DYNAMIC_USER_ID
      \<and> map_of (name_entries users') = (map_of (name_entries users))(uc_id user \<mapsto> n)
      \<and> (\<forall>old. List.find ?p users = Some old \<longrightarrow> uc_id user = uc_id old)"
  proof cases
    case old
    then obtain pre x post where x: "users = pre @ x # post" "?p x" "user = ?f x" "users' = pre @ ?f x # post"
      by (rule update_first_Some)
    have ok: "user_ok U hash_ok x" "distinct (map uc_id (pre @ x # post))" "distinct (map internal_reference users)"
      using assms(1) x(1) by (auto simp: store_ok_def)
    have f: "user_ok U hash_ok (?f x)" using ok(1) v assms(2,5) by (simp add: user_ok_def)
    have "List.find ?p users = Some x"
    proof -
      have "reference \<notin> internal_reference ` set pre" using ok(3) x by auto
      then have "\<forall>z \<in> set pre. \<not> ?p z" by blast
      then show ?thesis unfolding x(1) using x(2) by (rule find_split)
    qed
    then show ?thesis using replaced_user_ok [of U hash_ok pre x post "?f x"] entries_update [OF ok(2), of "?f x"]
        assms(1) x f ok(1) by (auto simp: user_ok_def)
  next
    case new
    have none: "\<forall>x \<in> set users. \<not> ?p x" by (rule update_first_None [OF new(1)])
    have uid: "unat uid = unat (max_user_id users) + 1" using checked_add_Some [OF new(2)] by simp
    have fresh: "uid \<notin> uc_id ` set users"
    proof
      assume "uid \<in> uc_id ` set users"
      then have "uid \<le> max_user_id users" using max_user_id_ge by auto
      then show False using uid by (simp add: word_le_nat_alt)
    qed
    have "uid \<noteq> 0" using uid by auto
    then have "user_ok U hash_ok user" using new(3,4) v assms(2-5) by (simp add: user_ok_def)
    then have "store_ok U hash_ok users'" using assms(1) new(4,5) none fresh by (auto simp: store_ok_def)
    moreover have "map_of (name_entries users) uid = None"
      using fresh by (auto simp: map_of_eq_None_iff name_entries_def image_iff)
    then have "map_of (name_entries users') = (map_of (name_entries users))(uid \<mapsto> n)"
      using new(4,5) by (auto simp: name_entries_def fun_eq_iff map_add_def split: option.splits)
    ultimately show ?thesis using new(3,4) none by (auto simp: find_Some_iff)
  qed
  then show "store_ok U hash_ok users'" "uc_username user = n" "uc_id user < FIRST_DYNAMIC_USER_ID"
    "map_of (name_entries users') = (map_of (name_entries users))(uc_id user \<mapsto> n)"
    "\<And>old. List.find ?p users = Some old \<Longrightarrow> uc_id user = uc_id old" by blast+
qed

section \<open>The invariant of the transactions\<close>

text \<open>A name nobody but \<open>u\<close> has.\<close>

definition name_free :: "unicode_fns \<Rightarrow> (u64 \<Rightarrow> name option) \<Rightarrow> u64 \<Rightarrow> name \<Rightarrow> bool" where
  "name_free U m u n \<longleftrightarrow> (\<forall>v k. m v = Some k \<longrightarrow> username_fold U k = username_fold U n \<longrightarrow> v = u)"

lemma name_freeD: "name_free U m u n \<Longrightarrow> m v = Some k \<Longrightarrow> username_fold U k = username_fold U n \<Longrightarrow> v = u"
  by (simp add: name_free_def)

lemma names_unique_update:
  assumes "names_unique U m" and "name_free U m u n"
  shows "names_unique U (m(u \<mapsto> n))"
  unfolding names_unique_def
proof (intro allI impI)
  fix v w a b
  assume h: "(m(u \<mapsto> n)) v = Some a" "(m(u \<mapsto> n)) w = Some b" "username_fold U a = username_fold U b"
  consider "v = u" "w = u" | "v = u" "w \<noteq> u" | "v \<noteq> u" "w = u" | "v \<noteq> u" "w \<noteq> u" by blast
  then show "v = w"
  proof cases
    case 2
    then have "m w = Some b" "username_fold U b = username_fold U n" using h by simp_all
    from name_freeD [OF assms(2) this] 2 show ?thesis by simp
  next
    case 3
    then have "m v = Some a" "username_fold U a = username_fold U n" using h by simp_all
    from name_freeD [OF assms(2) this] 3 show ?thesis by simp
  next
    case 4
    then have "m v = Some a" "m w = Some b" using h by simp_all
    then show ?thesis using h(3) by (rule names_uniqueD [OF assms(1)])
  qed simp
qed

lemma available_free: "registry_ok U reg \<Longrightarrow> is_available U reg n claimant \<Longrightarrow> (\<And>v. claimant = Some v \<Longrightarrow> u = v)
    \<Longrightarrow> name_free U (by_user reg) u n"
  unfolding available_iff name_free_def by metis

text \<open>The users and the log of dynamic names a pending change leads to.\<close>

fun change_to :: "pending_identity \<Rightarrow> user_config list \<times> (u64 \<Rightarrow> name option) \<Rightarrow> user_config list \<times> (u64 \<Rightarrow> name option)" where
  "change_to (PendingDynamic u n) (users, dyn) = (users, dyn(u \<mapsto> n))"
| "change_to (PendingUsers users' user) (users, dyn) = (users', dyn)"

fun changed_names :: "pending_identity \<Rightarrow> (u64 \<Rightarrow> name option) \<Rightarrow> (u64 \<Rightarrow> name option)" where
  "changed_names (PendingDynamic u n) m = m(u \<mapsto> n)"
| "changed_names (PendingUsers users' user) m = m(uc_id user \<mapsto> uc_username user)"

definition all_names :: "user_config list \<times> (u64 \<Rightarrow> name option) \<Rightarrow> (u64 \<Rightarrow> name option)" where
  "all_names ud = map_of (name_entries (fst ud)) ++ snd ud"

definition dynamic_ids :: "(u64 \<Rightarrow> name option) \<Rightarrow> bool" where
  "dynamic_ids dyn \<longleftrightarrow> (\<forall>u. u < FIRST_DYNAMIC_USER_ID \<longrightarrow> dyn u = None)"

fun pending_ok :: "unicode_fns \<Rightarrow> (name \<Rightarrow> bool) \<Rightarrow> user_config list \<Rightarrow> (u64 \<Rightarrow> name option) \<Rightarrow> pending_identity \<Rightarrow> bool" where
  "pending_ok U hash_ok users m (PendingDynamic u n) \<longleftrightarrow>
     username_is_valid U n \<and> username_trim n = n \<and> list_all is_scalar n \<and> name_free U m u n"
| "pending_ok U hash_ok users m (PendingUsers users' user) \<longleftrightarrow>
     store_ok U hash_ok users' \<and> uc_id user < FIRST_DYNAMIC_USER_ID \<and> name_free U m (uc_id user) (uc_username user)
     \<and> map_of (name_entries users') = (map_of (name_entries users))(uc_id user \<mapsto> uc_username user)"

definition disk_holds :: "unicode_fns \<Rightarrow> (name \<Rightarrow> bool) \<Rightarrow> user_config list \<times> (u64 \<Rightarrow> name option) \<Rightarrow> identity \<Rightarrow> bool" where
  "disk_holds U hash_ok ud st \<longleftrightarrow> store_ok U hash_ok (fst ud)
     \<and> (disk_users st = Some (fst ud) \<or> disk_users st = None \<and> fst ud = []) \<and> log_holds U (disk_log st) (snd ud)"

definition identity_inv :: "unicode_fns \<Rightarrow> (name \<Rightarrow> bool) \<Rightarrow> (u64 \<Rightarrow> name option) \<Rightarrow> identity \<Rightarrow> bool" where
  "identity_inv U hash_ok dyn st \<longleftrightarrow> registry_ok U (id_reg st) \<and> by_user (id_reg st) = all_names (id_users st, dyn)
     \<and> dynamic_ids dyn \<and> store_ok U hash_ok (id_users st)
     \<and> (case pending_identity st of
          None \<Rightarrow> disk_holds U hash_ok (id_users st, dyn) st
        | Some p \<Rightarrow> pending_ok U hash_ok (id_users st) (by_user (id_reg st)) p
            \<and> (if write_reply st = Some True
               then disk_holds U hash_ok (change_to p (id_users st, dyn)) st \<and> dynamic_ids (snd (change_to p (id_users st, dyn)))
               else disk_holds U hash_ok (id_users st, dyn) st))"

lemma all_names_change:
  assumes "pending_ok U hash_ok users (all_names (users, dyn)) p" and "dynamic_ids dyn"
  shows "all_names (change_to p (users, dyn)) = changed_names p (all_names (users, dyn))"
proof (cases p)
  case (PendingUsers users' user)
  then have "dyn (uc_id user) = None" using assms by (simp add: dynamic_ids_def)
  then show ?thesis using assms(1) PendingUsers
    by (auto simp: all_names_def fun_eq_iff map_add_def split: option.splits)
qed (simp add: all_names_def)

lemma changed_unique:
  "names_unique U m \<Longrightarrow> pending_ok U hash_ok users m p \<Longrightarrow> names_unique U (changed_names p m)"
  by (cases p) (auto intro: names_unique_update)

text \<open>The acts whose arguments are what the code passes and whose file operations end cleanly.\<close>

fun act_ok :: "(name \<Rightarrow> bool) \<Rightarrow> identity_act \<Rightarrow> bool" where
  "act_ok hash_ok (ClaimUsername uid raw) \<longleftrightarrow> list_all is_scalar raw"
| "act_ok hash_ok (RenameExplicit uid raw) \<longleftrightarrow> list_all is_scalar raw"
| "act_ok hash_ok (PairClient reference raw hash) \<longleftrightarrow> reference \<noteq> [] \<and> str_trim reference = reference \<and> hash_ok hash"
| "act_ok hash_ok (ExecuteWrite appended replaced) \<longleftrightarrow>
     (\<forall>k. appended \<noteq> AppendError k False) \<and> replaced \<noteq> ReplacedUnsynced"
| "act_ok hash_ok DrainReply \<longleftrightarrow> True"

lemma trim_scalar: "list_all is_scalar s \<Longrightarrow> list_all is_scalar (username_trim s)"
  by (auto simp: username_trim_def list_all_iff dest!: set_dropWhileD)

lemma begin_keeps:
  assumes "identity_inv U hash_ok dyn st"
    and "pending_identity st = None \<Longrightarrow> pending_ok U hash_ok (id_users st) (by_user (id_reg st)) p"
  shows "identity_inv U hash_ok dyn (begin_identity_write p st)"
  using assms by (auto simp: identity_inv_def begin_identity_write_def disk_holds_def split: option.splits)

lemma claim_keeps:
  assumes "identity_inv U hash_ok dyn st" and "list_all is_scalar raw"
  shows "identity_inv U hash_ok dyn (claim_username U uid raw st)"
proof -
  have "registry_ok U (id_reg st)" using assms(1) by (simp add: identity_inv_def)
  then have "name_free U (by_user (id_reg st)) uid (username_trim raw)"
    if "is_available U (id_reg st) (username_trim raw) (Some uid)" using that by (rule available_free) simp
  then show ?thesis using assms trim_scalar [OF assms(2)]
    by (auto simp: claim_username_def authenticate_dynamic_user_def Let_def intro!: begin_keeps)
qed

lemma rename_keeps:
  assumes "identity_inv U hash_ok dyn st"
  shows "identity_inv U hash_ok dyn (rename_explicit U uid raw st)"
proof -
  let ?n = "username_trim raw"
  have ok: "registry_ok U (id_reg st)" "store_ok U hash_ok (id_users st)" using assms by (simp_all add: identity_inv_def)
  have "identity_inv U hash_ok dyn (begin_identity_write (PendingUsers users user) st)"
    if p: "prepare_set_user_username U uid ?n (id_users st) = Inr (user, users)"
      and a: "is_available U (id_reg st) ?n (Some uid)" for user users
  proof (rule begin_keeps [OF assms])
    have "name_free U (by_user (id_reg st)) uid ?n" using ok(1) a by (rule available_free) simp
    then show "pending_ok U hash_ok (id_users st) (by_user (id_reg st)) (PendingUsers users user)"
      using prepare_set_ok [OF ok(2) trim_trim p] by simp
  qed
  then show ?thesis using assms by (auto simp: rename_explicit_def authenticate_explicit_user_def Let_def find_Some_iff split: option.split sum.split)
qed

lemma pair_keeps:
  assumes "identity_inv U hash_ok dyn st" and "act_ok hash_ok (PairClient reference raw hash)"
  shows "identity_inv U hash_ok dyn (pair_client U reference raw hash st)"
proof -
  let ?n = "username_trim raw"
  let ?claimant = "map_option uc_id (List.find (\<lambda>user. internal_reference user = reference) (id_users st))"
  have ok: "registry_ok U (id_reg st)" "store_ok U hash_ok (id_users st)" using assms by (simp_all add: identity_inv_def)
  have "identity_inv U hash_ok dyn (begin_identity_write (PendingUsers users user) st)"
    if p: "prepare_mark_user_paired U reference ?n hash (id_users st) = Inr (user, users)"
      and a: "is_available U (id_reg st) ?n ?claimant" for user users
  proof (rule begin_keeps [OF assms(1)])
    note f = prepare_mark_ok [OF ok(2) trim_trim _ _ _ p]
    have "name_free U (by_user (id_reg st)) (uc_id user) ?n"
      using ok(1) a by (rule available_free) (use f(5) assms(2) in auto)
    then show "pending_ok U hash_ok (id_users st) (by_user (id_reg st)) (PendingUsers users user)"
      using f assms(2) by simp
  qed
  then show ?thesis using assms by (auto simp: pair_client_def Let_def split: sum.split)
qed

lemma valid_short: "username_is_valid U n \<Longrightarrow> username_trim n = n \<Longrightarrow> length (utf8_encode n) \<le> 255"
  using validate_eq [of U n] by (simp add: username_is_valid_def Let_def)

lemma dyn_free:
  assumes "name_free U (all_names (users, dyn)) u n" and "dyn v = Some k" and "username_fold U k = username_fold U n"
  shows "v = u"
  by (rule name_freeD [OF assms(1) _ assms(3)]) (simp add: all_names_def assms(2))

lemma execute_keeps:
  assumes inv: "identity_inv U hash_ok dyn st" and ok: "act_ok hash_ok (ExecuteWrite appended replaced)"
  shows "identity_inv U hash_ok dyn (execute_write appended replaced st)"
proof (cases "write_reply st = None \<and> pending_identity st \<noteq> None")
  case True
  then obtain p where p: "pending_identity st = Some p" and r: "write_reply st = None" by auto
  have i: "by_user (id_reg st) = all_names (id_users st, dyn)" "dynamic_ids dyn"
    "pending_ok U hash_ok (id_users st) (all_names (id_users st, dyn)) p" "disk_holds U hash_ok (id_users st, dyn) st"
    using inv p r by (auto simp: identity_inv_def)
  show ?thesis
  proof (cases p)
    case (PendingDynamic u n)
    have n: "username_is_valid U n" "username_trim n = n" "list_all is_scalar n" "name_free U (all_names (id_users st, dyn)) u n"
      using i(3) PendingDynamic by simp_all
    have short: "length (utf8_encode n) \<le> 255" by (rule valid_short [OF n(1,2)])
    show ?thesis
    proof (cases "\<not> u < FIRST_DYNAMIC_USER_ID \<and> appended = Appended")
      case True
      have "log_holds U (disk_log st @ record_bytes u n) (dyn(u \<mapsto> n))"
        by (rule log_holds_append)
          (use i(4) n True short dyn_free [OF n(4)] in \<open>auto simp: disk_holds_def record_ok_def\<close>)
      moreover have "dynamic_ids (dyn(u \<mapsto> n))" using i(2) True by (simp add: dynamic_ids_def)
      ultimately show ?thesis using inv p r PendingDynamic True short n(4)
        by (auto simp add: execute_write_def persist_dynamic_claim_def write_record_def identity_inv_def disk_holds_def)
    next
      case False
      then have "u < FIRST_DYNAMIC_USER_ID \<or> (\<exists>k. appended = AppendError k True)"
        using ok by (cases appended) (auto intro: ccontr)
      then have "\<exists>e. persist_dynamic_claim appended u n (disk_log st) = (Inl e, disk_log st)"
        using short by (auto simp: persist_dynamic_claim_def write_record_def)
      then obtain e where "persist_dynamic_claim appended u n (disk_log st) = (Inl e, disk_log st)" ..
      then show ?thesis using inv p r PendingDynamic n(4)
        by (auto simp: execute_write_def identity_inv_def disk_holds_def)
    qed
  next
    case (PendingUsers users user)
    show ?thesis
      using inv i p r PendingUsers ok
      by (cases replaced) (auto simp: execute_write_def identity_inv_def disk_holds_def)
  qed
qed (use inv in \<open>auto simp: execute_write_def split: option.split\<close>)

lemma drain_keeps:
  assumes inv: "identity_inv U hash_ok dyn st"
  shows "\<exists>dyn'. identity_inv U hash_ok dyn' (drain_identity_reply U st)"
proof (cases "pending_identity st \<noteq> None \<and> write_reply st = Some True")
  case True
  then obtain p where p: "pending_identity st = Some p" and r: "write_reply st = Some True" by auto
  have i: "registry_ok U (id_reg st)" "by_user (id_reg st) = all_names (id_users st, dyn)" "dynamic_ids dyn"
    "store_ok U hash_ok (id_users st)" "pending_ok U hash_ok (id_users st) (all_names (id_users st, dyn)) p"
    "disk_holds U hash_ok (change_to p (id_users st, dyn)) st" "dynamic_ids (snd (change_to p (id_users st, dyn)))"
    using inv p r by (auto simp: identity_inv_def)
  have change: "all_names (change_to p (id_users st, dyn)) = changed_names p (all_names (id_users st, dyn))"
    by (rule all_names_change [OF i(5,3)])
  show ?thesis
  proof (cases p)
    case (PendingDynamic u n)
    have n: "username_is_valid U n" "username_trim n = n" "name_free U (all_names (id_users st, dyn)) u n"
      using i(5) PendingDynamic by simp_all
    have a: "is_available U (id_reg st) n (Some u)" using n(3) by (simp add: available_iff [OF i(1)] i(2) name_free_def)
    have u: "\<not> u < FIRST_DYNAMIC_USER_ID" using i(7) PendingDynamic by (auto simp: dynamic_ids_def)
    have "drain_identity_reply U st = st\<lparr>pending_identity := None, write_reply := None, id_reg := set_in_memory U u n (id_reg st)\<rparr>"
      using p r PendingDynamic n(1,2) u a
      by (simp add: drain_identity_reply_def apply_dynamic_claim_def username_is_valid_def Let_def)
    then show ?thesis using i change PendingDynamic registry_ok_set [OF i(1) a]
      by (intro exI [of _ "dyn(u \<mapsto> n)"]) (simp add: identity_inv_def disk_holds_def)
  next
    case (PendingUsers users user)
    have n: "name_free U (all_names (id_users st, dyn)) (uc_id user) (uc_username user)" using i(5) PendingUsers by simp
    have a: "is_available U (id_reg st) (uc_username user) (Some (uc_id user))"
      using n by (simp add: available_iff [OF i(1)] i(2) name_free_def)
    have "drain_identity_reply U st = st\<lparr>pending_identity := None, write_reply := None, id_users := users,
        id_reg := set_in_memory U (uc_id user) (uc_username user) (id_reg st)\<rparr>"
      using p r PendingUsers by (simp add: drain_identity_reply_def set_explicit_def Let_def)
    then show ?thesis using i change PendingUsers registry_ok_set [OF i(1) a]
      by (intro exI [of _ dyn]) (simp add: identity_inv_def disk_holds_def)
  qed
next
  case False
  then have "drain_identity_reply U st = st \<or>
      drain_identity_reply U st = st\<lparr>pending_identity := None, write_reply := None\<rparr> \<and> write_reply st \<noteq> Some True"
    by (auto simp: drain_identity_reply_def Let_def split: option.split)
  then show ?thesis using inv by (auto simp: identity_inv_def disk_holds_def split: option.splits)
qed

lemma step_keeps:
  assumes inv: "identity_inv U hash_ok dyn st" and ok: "act_ok hash_ok act"
  shows "\<exists>dyn'. identity_inv U hash_ok dyn' (identity_step U act st)"
proof (cases act)
  case (ClaimUsername uid raw)
  then show ?thesis using claim_keeps [OF inv, of raw uid] ok by auto
next
  case (RenameExplicit uid raw)
  then show ?thesis using rename_keeps [OF inv, of uid raw] by auto
next
  case (PairClient reference raw hash)
  then show ?thesis using pair_keeps [OF inv, of reference raw hash] ok by auto
next
  case (ExecuteWrite appended replaced)
  then show ?thesis using execute_keeps [OF inv, of appended replaced] ok by auto
next
  case DrainReply
  then show ?thesis using drain_keeps [OF inv] by simp
qed

definition fresh_identity :: identity where
  "fresh_identity = \<lparr>id_reg = registry_empty, id_users = [], pending_identity = None, write_reply = None, disk_log = [],
     disk_users = None\<rparr>"

lemma fresh_inv: "identity_inv U hash_ok (\<lambda>_. None) fresh_identity"
  by (simp add: identity_inv_def fresh_identity_def all_names_def name_entries_def dynamic_ids_def store_ok_def disk_holds_def
      log_holds_empty) (simp add: registry_empty_def)

lemma fresh_open: "server_open U hash_ok walk truncate_ok NotFound None = Inr fresh_identity"
  by (simp add: server_open_def store_open_def registry_open_def replay_log_def name_entries_def fresh_identity_def)

text \<open>A disk that holds users and names opens to them, whatever torn record ends the log.\<close>

lemma open_disk:
  assumes disk: "disk_holds U hash_ok ud st" and unique: "names_unique U (all_names ud)" and dyn: "dynamic_ids (snd ud)"
    and tail: "torn tail" and walk: "walks walk"
  shows "\<exists>st'. server_open U hash_ok walk True (Read (disk_log st @ tail)) (disk_users st) = Inr st'
     \<and> by_user (id_reg st') = all_names ud \<and> registry_ok U (id_reg st') \<and> disk_log st' = disk_log st \<and> id_users st' = fst ud"
proof -
  obtain users m where ud: "ud = (users, m)" by (cases ud)
  have d: "store_ok U hash_ok users" "disk_users st = Some users \<or> disk_users st = None \<and> users = []" "log_holds U (disk_log st) m"
    using disk by (simp_all add: disk_holds_def ud)
  have "\<forall>(u, n) \<in> set (name_entries users). username_is_valid U n \<and> u < FIRST_DYNAMIC_USER_ID"
    using d(1) by (auto simp: name_entries_def store_ok_def list_all_iff user_ok_def)
  moreover have ids: "distinct (map fst (name_entries users))" using d(1) by (simp only: entries_ids store_ok_def)
  ultimately obtain reg where reg: "registry_open U walk True (Read (disk_log st @ tail)) (name_entries users) = Inr (disk_log st, reg)"
    "registry_ok U reg" "by_user reg = all_names ud"
    using open_restores [OF d(3) tail _ walk, where truncate_ok = True and users = "name_entries users"] unique
    by (auto simp: all_names_def ud)
  have "map_of (name_entries users) \<subseteq>\<^sub>m all_names ud"
    using dyn d(1) by (auto simp: map_le_def all_names_def ud map_add_def dynamic_ids_def store_ok_def list_all_iff user_ok_def
        name_entries_def dest!: map_of_SomeD split: option.splits)
  then have "names_unique U (map_of (name_entries users))" by (rule names_unique_submap [OF unique])
  then have "store_open U hash_ok (disk_users st) = Inr users"
    using store_open_ok [OF d(1)] d(2) by (auto simp: store_open_def)
  then show ?thesis using reg by (simp add: server_open_def ud)
qed

text \<open>
  The life of a server: it starts on an empty directory, acts, and at any moment may crash and start again
  on what is on disk, with a record of the log cut short if it was being appended.
\<close>

inductive server_reaches :: "unicode_fns \<Rightarrow> (name \<Rightarrow> bool) \<Rightarrow> ((u64 \<Rightarrow> name option) \<Rightarrow> (u64 \<times> name) list) \<Rightarrow> identity \<Rightarrow> bool"
  for U hash_ok walk where
  start: "server_open U hash_ok walk True NotFound None = Inr st \<Longrightarrow> server_reaches U hash_ok walk st"
| act: "server_reaches U hash_ok walk st \<Longrightarrow> act_ok hash_ok a \<Longrightarrow> server_reaches U hash_ok walk (identity_step U a st)"
| crash: "server_reaches U hash_ok walk st \<Longrightarrow> length (utf8_encode n) \<le> 255 \<Longrightarrow> k < length (record_bytes u n)
    \<Longrightarrow> server_open U hash_ok walk True (Read (disk_log st @ take k (record_bytes u n))) (disk_users st) = Inr st'
    \<Longrightarrow> server_reaches U hash_ok walk st'"

text \<open>The names on disk: those in memory, or those after a change whose reply is still under way.\<close>

definition disk_names :: "identity \<Rightarrow> (u64 \<Rightarrow> name option)" where
  "disk_names st = (case pending_identity st of
       Some p \<Rightarrow> if write_reply st = Some True then changed_names p (by_user (id_reg st)) else by_user (id_reg st)
     | None \<Rightarrow> by_user (id_reg st))"

lemma inv_disk:
  assumes "identity_inv U hash_ok dyn st"
  obtains ud where "disk_holds U hash_ok ud st" "all_names ud = disk_names st" "names_unique U (all_names ud)" "dynamic_ids (snd ud)"
proof -
  have i: "registry_ok U (id_reg st)" "by_user (id_reg st) = all_names (id_users st, dyn)" "dynamic_ids dyn"
    using assms by (simp_all add: identity_inv_def)
  have u: "names_unique U (all_names (id_users st, dyn))" using registry_ok_unique [OF i(1)] i(2) by simp
  show ?thesis
  proof (cases "pending_identity st \<noteq> None \<and> write_reply st = Some True")
    case True
    then obtain p where p: "pending_identity st = Some p" "write_reply st = Some True" by auto
    then have q: "pending_ok U hash_ok (id_users st) (all_names (id_users st, dyn)) p"
      "disk_holds U hash_ok (change_to p (id_users st, dyn)) st" "dynamic_ids (snd (change_to p (id_users st, dyn)))"
      using assms i(2) by (auto simp: identity_inv_def)
    have c: "all_names (change_to p (id_users st, dyn)) = changed_names p (all_names (id_users st, dyn))"
      by (rule all_names_change [OF q(1) i(3)])
    then show ?thesis using that [OF q(2) _ _ q(3)] changed_unique [OF u q(1)] p i(2) by (simp add: disk_names_def)
  next
    case False
    then have "disk_holds U hash_ok (id_users st, dyn) st" "disk_names st = by_user (id_reg st)"
      using assms by (auto simp: identity_inv_def disk_names_def split: option.splits)
    then show ?thesis using that u i by (metis snd_conv)
  qed
qed

lemma reopen_inv:
  assumes inv: "identity_inv U hash_ok dyn st" and walk: "walks walk"
    and cut: "length (utf8_encode n) \<le> 255" "k < length (record_bytes u n)"
  obtains st' dyn' where
    "server_open U hash_ok walk True (Read (disk_log st @ take k (record_bytes u n))) (disk_users st) = Inr st'"
    "identity_inv U hash_ok dyn' st'" "by_user (id_reg st') = disk_names st" "disk_log st' = disk_log st"
    "pending_identity st' = None"
proof -
  obtain ud where ud: "disk_holds U hash_ok ud st" "all_names ud = disk_names st" "names_unique U (all_names ud)" "dynamic_ids (snd ud)"
    by (rule inv_disk [OF inv])
  have t: "torn (take k (record_bytes u n))" by (rule torn_prefix [OF cut(2,1)])
  obtain st' where st': "server_open U hash_ok walk True (Read (disk_log st @ take k (record_bytes u n))) (disk_users st) = Inr st'"
    "by_user (id_reg st') = all_names ud" "registry_ok U (id_reg st')" "disk_log st' = disk_log st" "id_users st' = fst ud"
    using open_disk [OF ud(1,3,4) t walk] by blast
  have d: "disk_users st' = disk_users st" "pending_identity st' = None"
    using st'(1) by (auto simp: server_open_def split: sum.splits)
  have "identity_inv U hash_ok (snd ud) st'"
    using st' d ud(1,4) by (simp add: identity_inv_def disk_holds_def)
  then show ?thesis using that st' d(2) ud(2) by simp
qed

lemma server_reaches_inv: "server_reaches U hash_ok walk st \<Longrightarrow> walks walk \<Longrightarrow> \<exists>dyn. identity_inv U hash_ok dyn st"
proof (induction rule: server_reaches.induct)
  case (start st)
  then have "st = fresh_identity" by (simp add: fresh_open)
  then show ?case using fresh_inv by blast
next
  case (act st a)
  then show ?case using step_keeps by blast
next
  case (crash st n k u st')
  then obtain dyn where "identity_inv U hash_ok dyn st" by blast
  then obtain st'' dyn' where
    "server_open U hash_ok walk True (Read (disk_log st @ take k (record_bytes u n))) (disk_users st) = Inr st''"
    "identity_inv U hash_ok dyn' st''" by (rule reopen_inv [OF _ crash.prems crash.hyps(2,3)])
  then show ?case using crash.hyps(4) by auto
qed

section \<open>Properties\<close>

text \<open>
  C34. A username names one account. Over the whole life of a server, through claims, renames, pairings,
  failed writes, replies still under way, crashes and restarts, no two users have names with the same fold, and
  \<open>owner_of\<close> answers for a name exactly the user that has it.
\<close>

theorem username_owner_unique:
  assumes "server_reaches U hash_ok walk st" and "walks walk"
  shows "(owner_of U (id_reg st) name = Some u \<longleftrightarrow>
      (\<exists>n. by_user (id_reg st) u = Some n \<and> username_fold U n = username_fold U name))
    \<and> (by_user (id_reg st) u = Some a \<longrightarrow> by_user (id_reg st) v = Some b \<longrightarrow> username_fold U a = username_fold U b \<longrightarrow> u = v)"
proof -
  have ok: "registry_ok U (id_reg st)" using server_reaches_inv [OF assms] by (auto simp: identity_inv_def)
  have "owner_of U (id_reg st) name = Some u \<longleftrightarrow>
      (\<exists>n. by_user (id_reg st) u = Some n \<and> username_fold U n = username_fold U name)"
    using ok by (simp add: owner_of_def registry_ok_def)
  then show ?thesis using names_uniqueD [OF registry_ok_unique [OF ok]] by blast
qed


section \<open>Witnesses\<close>

definition demo_walk :: "(u64 \<Rightarrow> name option) \<Rightarrow> (u64 \<times> name) list" where
  "demo_walk m = map (\<lambda>u. (u, the (m u))) (sorted_list_of_set (dom m))"

lemma demo_walks: "walks demo_walk"
  unfolding walks_def
proof (intro allI impI conjI ext)
  fix m :: "u64 \<Rightarrow> name option" and u
  assume fin: "finite (dom m)"
  show "distinct (map fst (demo_walk m))" by (simp add: demo_walk_def o_def)
  have "map_of (demo_walk m) u = (if u \<in> dom m then Some (the (m u)) else None)"
    using fin by (simp add: demo_walk_def map_of_map_restrict restrict_map_def)
  then show "map_of (demo_walk m) u = m u" by (auto simp: domIff)
qed

text \<open>A public user claims the name \<open>"Al"\<close>: the record is on disk, the reply not yet served.\<close>

definition demo_claim :: identity where
  "demo_claim = identity_run demo_unicode [ClaimUsername 0x100000000 [65, 108], ExecuteWrite Appended Replaced] fresh_identity"


lemma demo_claim_reaches: "server_reaches demo_unicode (\<lambda>_. True) demo_walk demo_claim"
proof -
  have "server_reaches demo_unicode (\<lambda>_. True) demo_walk fresh_identity" by (rule server_reaches.start) (rule fresh_open)
  from server_reaches.act [OF server_reaches.act [OF this, of "ClaimUsername 0x100000000 [65, 108]"], of "ExecuteWrite Appended Replaced"]
  show ?thesis by (simp add: demo_claim_def identity_run_def is_scalar_def)
qed

theorem username_owner_unique_witness:
  "server_reaches demo_unicode (\<lambda>_. True) demo_walk (identity_step demo_unicode DrainReply demo_claim)
   \<and> (owner_of demo_unicode (id_reg (identity_step demo_unicode DrainReply demo_claim)) [97, 76] = Some 0x100000000 \<longleftrightarrow>
      (\<exists>n. by_user (id_reg (identity_step demo_unicode DrainReply demo_claim)) 0x100000000 = Some n
         \<and> username_fold demo_unicode n = username_fold demo_unicode [97, 76]))"
proof -
  have r: "server_reaches demo_unicode (\<lambda>_. True) demo_walk (identity_step demo_unicode DrainReply demo_claim)"
    by (rule server_reaches.act [OF demo_claim_reaches]) simp
  from username_owner_unique [OF r demo_walks] r show ?thesis by blast
qed


section \<open>An unsynced rename\<close>





end
