(* ===== verification/Device_Identity.thy ===== *)
theory Device_Identity
  imports Handshake Username
begin

text \<open>
  The device identities of an account (\<open>crates/rpc/src/identity.rs\<close>): the canonical MLS client id,
  device certificates, the authority-signed device roster and the compare-and-swap that replaces it.

  A byte array \<open>[u8; n]\<close> is a word of \<open>8 * n\<close> bits, read big-endian: \<open>to_be\<close> gives its bytes, and the
  order of arrays, which is lexicographic, is the order of the words. The signature scheme and the
  digest are those of \<open>crypto_fns\<close>, and \<open>jsony::to_binary\<close> is the parameter \<open>J\<close>.
\<close>

section \<open>Definitions\<close>

type_synonym account_id = "256 word"
type_synonym device_id = "128 word"
type_synonym key32 = "256 word"

definition SIGNATURE_KEY_LEN :: nat where "SIGNATURE_KEY_LEN = 32"
definition SIGNATURE_LEN :: nat where "SIGNATURE_LEN = 64"
definition MAX_ACTIVE_DEVICES :: nat where "MAX_ACTIVE_DEVICES = 16"
definition MAX_DEVICE_NAME_BYTES :: nat where "MAX_DEVICE_NAME_BYTES = 64"
definition ACCOUNT_ID_LEN :: nat where "ACCOUNT_ID_LEN = 32"
definition MAX_MLS_CLIENT_ID_BYTES :: nat where "MAX_MLS_CLIENT_ID_BYTES = 256"

definition ACCOUNT_ID_LABEL :: bytes where "ACCOUNT_ID_LABEL = ascii_bytes ''chatt account identity v1''"
definition CLIENT_ID_LABEL :: bytes where "CLIENT_ID_LABEL = ascii_bytes ''chatt mls client id v1''"
definition CERTIFICATE_SIGNATURE_LABEL :: bytes where
  "CERTIFICATE_SIGNATURE_LABEL = ascii_bytes ''chatt device certificate v1''"
definition ROSTER_SIGNATURE_LABEL :: bytes where "ROSTER_SIGNATURE_LABEL = ascii_bytes ''chatt device roster v1''"
definition DEVICE_BINDING_LABEL :: bytes where "DEVICE_BINDING_LABEL = ascii_bytes ''chatt mls device binding v1''"

record device_certificate_body =
  dc_user_id :: u64
  dc_account_id :: account_id
  dc_authority_public_key :: key32
  dc_device_id :: device_id
  dc_device_name :: bytes
  dc_mls_client_id :: bytes
  dc_mls_signature_public_key :: bytes

record signed_device_certificate =
  cert_body :: device_certificate_body
  cert_signature :: bytes

record device_roster_body =
  dr_user_id :: u64
  dr_account_id :: account_id
  dr_authority_public_key :: key32
  dr_revision :: u64
  dr_active_devices :: "signed_device_certificate list"

record signed_device_roster =
  roster_body :: device_roster_body
  roster_signature :: bytes

record roster_checkpoint =
  rc_account_id :: account_id
  rc_revision :: u64
  rc_digest :: key32

datatype identity_error =
    ServerIdTooLong | ClientIdTooLong
  | ClientIdTruncated | ClientIdDomain | ClientIdLength | ClientIdServer
  | CertificateContext | CertificateAccountId | DeviceName | CertificateClientId | SignatureKeyLength
  | SignatureLength | SignatureInvalid
  | RosterUser | RosterAccountId | RosterRevisionZero | RosterDeviceCount | RosterNotSorted
  | RosterDuplicateClientId | RosterDuplicateKey
  | InitialRevision | StaleCheckpoint | AuthorityChanged | RevisionOverflow | NotNextRevision

record identity_codec =
  jc_certificate :: "device_certificate_body \<Rightarrow> bytes"
  jc_roster_body :: "device_roster_body \<Rightarrow> bytes"
  jc_roster :: "signed_device_roster \<Rightarrow> bytes"

definition account_id :: "crypto_fns \<Rightarrow> bytes \<Rightarrow> u64 \<Rightarrow> key32 \<Rightarrow> account_id" where
  "account_id F server_pk user_id authority_public_key =
     from_be (sha256 F (ACCOUNT_ID_LABEL @ server_pk @ to_le 8 user_id @ to_be 32 authority_public_key))"

definition mls_client_id :: "bytes \<Rightarrow> account_id \<Rightarrow> device_id \<Rightarrow> (identity_error, bytes) result" where
  "mls_client_id server_id account device =
     (if length server_id \<ge> 2 ^ 16 then Inl ServerIdTooLong
      else
        let id = CLIENT_ID_LABEL @ to_be 2 (of_nat (length server_id) :: u16) @ server_id
                 @ to_be 32 account @ to_be 16 device
        in if length id > MAX_MLS_CLIENT_ID_BYTES then Inl ClientIdTooLong else Inr id)"

text \<open>
  The additions of lengths are checked in the code; they cannot overflow, as a \<open>u16\<close> and a few
  constants are added.
\<close>

definition parse_mls_client_id ::
  "bytes \<Rightarrow> bytes \<Rightarrow> (identity_error, account_id \<times> device_id) result" where
  "parse_mls_client_id server_id client_id =
     (let header_len = length CLIENT_ID_LABEL + 2 in
      case get_range 0 header_len client_id of
        None \<Rightarrow> Inl ClientIdTruncated
      | Some header \<Rightarrow>
          if \<not> starts_with CLIENT_ID_LABEL header then Inl ClientIdDomain
          else
            let encoded_server_len = unat (from_be (drop (length CLIENT_ID_LABEL) header) :: u16);
                expected_len = header_len + encoded_server_len + (ACCOUNT_ID_LEN + 16)
            in if length client_id \<noteq> expected_len \<or> encoded_server_len \<noteq> length server_id then Inl ClientIdLength
               else if subslice header_len (header_len + encoded_server_len) client_id \<noteq> server_id
               then Inl ClientIdServer
               else
                 let account_start = header_len + encoded_server_len in
                 Inr (from_be (subslice account_start (account_start + ACCOUNT_ID_LEN) client_id),
                      from_be (drop (account_start + ACCOUNT_ID_LEN) client_id)))"

text \<open>
  The key of an authority is made from its seed, which for a seed of 32 bytes cannot fail.
\<close>

definition authority_public_key :: "crypto_fns \<Rightarrow> key32 \<Rightarrow> key32" where
  "authority_public_key F seed = from_be (ed_public F (to_be 32 seed))"

definition sign_device_certificate ::
  "crypto_fns \<Rightarrow> identity_codec \<Rightarrow> device_certificate_body \<Rightarrow> key32 \<Rightarrow> signed_device_certificate" where
  "sign_device_certificate F J body authority_seed =
     \<lparr>cert_body = body,
      cert_signature = ed_sign F (to_be 32 authority_seed) (CERTIFICATE_SIGNATURE_LABEL @ jc_certificate J body)\<rparr>"

definition verify_signature ::
  "crypto_fns \<Rightarrow> key32 \<Rightarrow> bytes \<Rightarrow> bytes \<Rightarrow> (identity_error, unit) result" where
  "verify_signature F public_key message signature_bytes =
     (if length signature_bytes \<noteq> SIGNATURE_LEN then Inl SignatureLength
      else if ed_verify F (to_be 32 public_key) message signature_bytes then Inr () else Inl SignatureInvalid)"

definition validate_device_name :: "bytes \<Rightarrow> (identity_error, unit) result" where
  "validate_device_name n =
     (if n = [] \<or> length n > MAX_DEVICE_NAME_BYTES \<or> trim n \<noteq> n \<or> list_ex is_control (utf8_chars n)
      then Inl DeviceName else Inr ())"

definition validate_device_certificate ::
  "crypto_fns \<Rightarrow> identity_codec \<Rightarrow> signed_device_certificate \<Rightarrow> bytes \<Rightarrow> u64 \<Rightarrow> account_id \<Rightarrow> key32
     \<Rightarrow> (identity_error, unit) result" where
  "validate_device_certificate F J certificate server_id user_id account authority =
     (let body = cert_body certificate in
      if dc_user_id body \<noteq> user_id \<or> dc_account_id body \<noteq> account
         \<or> dc_authority_public_key body \<noteq> authority
      then Inl CertificateContext
      else if account \<noteq> account_id F server_id user_id authority then Inl CertificateAccountId
      else
        rbind (validate_device_name (dc_device_name body)) (\<lambda>_.
        rbind (mls_client_id server_id account (dc_device_id body)) (\<lambda>client_id.
        if dc_mls_client_id body \<noteq> client_id then Inl CertificateClientId
        else if length (dc_mls_signature_public_key body) \<noteq> SIGNATURE_KEY_LEN then Inl SignatureKeyLength
        else verify_signature F authority (CERTIFICATE_SIGNATURE_LABEL @ jc_certificate J body)
               (cert_signature certificate))))"

definition sign_device_roster ::
  "crypto_fns \<Rightarrow> identity_codec \<Rightarrow> device_roster_body \<Rightarrow> key32 \<Rightarrow> signed_device_roster" where
  "sign_device_roster F J body authority_seed =
     \<lparr>roster_body = body,
      roster_signature = ed_sign F (to_be 32 authority_seed) (ROSTER_SIGNATURE_LABEL @ jc_roster_body J body)\<rparr>"

text \<open>The loop over the certificates, with the previous device id and the ids and keys seen so far.\<close>

fun validate_devices ::
  "crypto_fns \<Rightarrow> identity_codec \<Rightarrow> bytes \<Rightarrow> u64 \<Rightarrow> device_roster_body \<Rightarrow> device_id option \<Rightarrow> bytes list \<Rightarrow> bytes list
     \<Rightarrow> signed_device_certificate list \<Rightarrow> (identity_error, unit) result" where
  "validate_devices F J server_id user_id body previous client_ids signature_keys [] = Inr ()"
| "validate_devices F J server_id user_id body previous client_ids signature_keys (certificate # rest) =
     rbind (validate_device_certificate F J certificate server_id user_id (dr_account_id body)
              (dr_authority_public_key body)) (\<lambda>_.
     if (case previous of None \<Rightarrow> False | Some device_id \<Rightarrow> device_id \<ge> dc_device_id (cert_body certificate))
     then Inl RosterNotSorted
     else if dc_mls_client_id (cert_body certificate) \<in> set client_ids then Inl RosterDuplicateClientId
     else if dc_mls_signature_public_key (cert_body certificate) \<in> set signature_keys then Inl RosterDuplicateKey
     else validate_devices F J server_id user_id body (Some (dc_device_id (cert_body certificate)))
            (client_ids @ [dc_mls_client_id (cert_body certificate)])
            (signature_keys @ [dc_mls_signature_public_key (cert_body certificate)]) rest)"

definition validate_device_roster ::
  "crypto_fns \<Rightarrow> identity_codec \<Rightarrow> signed_device_roster \<Rightarrow> bytes \<Rightarrow> u64 \<Rightarrow> (identity_error, unit) result" where
  "validate_device_roster F J roster server_id user_id =
     (let body = roster_body roster in
      if dr_user_id body \<noteq> user_id then Inl RosterUser
      else if dr_account_id body \<noteq> account_id F server_id user_id (dr_authority_public_key body)
      then Inl RosterAccountId
      else if dr_revision body = 0 then Inl RosterRevisionZero
      else if dr_active_devices body = [] \<or> length (dr_active_devices body) > MAX_ACTIVE_DEVICES
      then Inl RosterDeviceCount
      else
        rbind (validate_devices F J server_id user_id body None [] [] (dr_active_devices body)) (\<lambda>_.
          verify_signature F (dr_authority_public_key body) (ROSTER_SIGNATURE_LABEL @ jc_roster_body J body)
            (roster_signature roster)))"

definition checkpoint_of :: "crypto_fns \<Rightarrow> identity_codec \<Rightarrow> signed_device_roster \<Rightarrow> roster_checkpoint" where
  "checkpoint_of F J roster =
     \<lparr>rc_account_id = dr_account_id (roster_body roster), rc_revision = dr_revision (roster_body roster),
      rc_digest = from_be (sha256 F (jc_roster J roster))\<rparr>"

definition mls_device_binding_message :: "u64 \<Rightarrow> device_id \<Rightarrow> roster_checkpoint \<Rightarrow> bytes" where
  "mls_device_binding_message session device roster =
     DEVICE_BINDING_LABEL @ to_be 8 session @ to_be 16 device @ to_be 32 (rc_account_id roster)
     @ to_be 8 (rc_revision roster) @ to_be 32 (rc_digest roster)"

definition validate_roster_transition ::
  "crypto_fns \<Rightarrow> identity_codec \<Rightarrow> signed_device_roster option \<Rightarrow> signed_device_roster \<Rightarrow> roster_checkpoint option
     \<Rightarrow> bytes \<Rightarrow> u64 \<Rightarrow> (identity_error, unit) result" where
  "validate_roster_transition F J current next expected server_id user_id =
     rbind (validate_device_roster F J next server_id user_id) (\<lambda>_.
     case current of
       None \<Rightarrow>
         if expected \<noteq> None \<or> dr_revision (roster_body next) \<noteq> 1 then Inl InitialRevision else Inr ()
     | Some current \<Rightarrow>
         rbind (validate_device_roster F J current server_id user_id) (\<lambda>_.
         if expected \<noteq> Some (checkpoint_of F J current) then Inl StaleCheckpoint
         else if dr_account_id (roster_body next) \<noteq> dr_account_id (roster_body current)
              \<or> dr_authority_public_key (roster_body next) \<noteq> dr_authority_public_key (roster_body current)
         then Inl AuthorityChanged
         else
           rbind (ok_or RevisionOverflow (checked_add (dr_revision (roster_body current)) 1)) (\<lambda>expected_revision.
             if dr_revision (roster_body next) \<noteq> expected_revision then Inl NotNextRevision else Inr ())))"

section \<open>The canonical client id\<close>

lemma be_widths [simp]:
  "from_be (to_be 32 (w32 :: 256 word)) = w32"
  "from_be (to_be 16 (w16 :: 128 word)) = w16"
  by (simp_all add: from_be_to_be)

lemma to_be_inj_widths:
  "to_be 8 (a8 :: u64) = to_be 8 b8 \<longleftrightarrow> a8 = b8"
  "to_be 16 (a16 :: 128 word) = to_be 16 b16 \<longleftrightarrow> a16 = b16"
  "to_be 32 (a32 :: 256 word) = to_be 32 b32 \<longleftrightarrow> a32 = b32"
  by (metis from_be_to_be_widths be_widths)+

definition client_id_bytes :: "bytes \<Rightarrow> account_id \<Rightarrow> device_id \<Rightarrow> bytes" where
  "client_id_bytes server_id account device =
     CLIENT_ID_LABEL @ to_be 2 (of_nat (length server_id) :: u16) @ server_id @ to_be 32 account @ to_be 16 device"

lemma mls_client_id_Inr:
  "mls_client_id server_id a d = Inr cid \<longleftrightarrow>
     length server_id < 65536 \<and> cid = client_id_bytes server_id a d \<and> length cid \<le> MAX_MLS_CLIENT_ID_BYTES"
  by (auto simp: mls_client_id_def client_id_bytes_def Let_def)

lemma label_len: "length CLIENT_ID_LABEL = 22"
  by (simp add: CLIENT_ID_LABEL_def)

lemma parse_client_id_bytes:
  assumes "length server_id < 65536"
  shows "parse_mls_client_id server_id (client_id_bytes server_id a d) = Inr (a, d)"
proof -
  let ?h = "CLIENT_ID_LABEL @ to_be 2 (of_nat (length server_id) :: u16)"
  have h: "get_range 0 24 (client_id_bytes server_id a d) = Some ?h"
    by (simp add: get_range_Some client_id_bytes_def label_len)
  have s: "starts_with CLIENT_ID_LABEL ?h" by (auto simp: starts_with_iff)
  have n: "unat (from_be (drop 22 ?h) :: u16) = length server_id"
    using assms by (simp add: label_len unat_of_nat_u16)
  have sv: "subslice 24 (24 + length server_id) (client_id_bytes server_id a d) = server_id"
    using subslice_exact [of 24 ?h "24 + length server_id" server_id "to_be 32 a @ to_be 16 d"]
    by (simp add: client_id_bytes_def label_len)
  have ac: "subslice (24 + length server_id) (24 + length server_id + 32) (client_id_bytes server_id a d) = to_be 32 a"
    using subslice_exact [of "24 + length server_id" "?h @ server_id" "24 + length server_id + 32" "to_be 32 a" "to_be 16 d"]
    by (simp add: client_id_bytes_def label_len)
  have dv: "drop (24 + length server_id + 32) (client_id_bytes server_id a d) = to_be 16 d"
    by (simp add: client_id_bytes_def label_len)
  have len: "length (client_id_bytes server_id a d) = 24 + length server_id + 48"
    by (simp add: client_id_bytes_def label_len)
  show ?thesis
    using h s n sv ac dv len
    by (simp add: parse_mls_client_id_def label_len ACCOUNT_ID_LEN_def Let_def del: drop_append)
qed

lemma parse_client_id_only:
  assumes "parse_mls_client_id server_id cid = Inr (a, d)"
  shows "length server_id < 65536 \<and> cid = client_id_bytes server_id a d"
proof -
  let ?n = "length server_id"
  have "get_range 0 24 cid \<noteq> None"
  proof
    assume "get_range 0 24 cid = None"
    with assms show False by (simp add: parse_mls_client_id_def label_len)
  qed
  then have h: "get_range 0 24 cid = Some (take 24 cid)" by (auto simp: get_range_def split: if_splits)
  let ?m = "unat (from_be (drop 22 (take 24 cid)) :: u16)"
  have p: "(if \<not> starts_with CLIENT_ID_LABEL (take 24 cid) then Inl ClientIdDomain
      else if length cid \<noteq> 24 + ?m + 48 \<or> ?m \<noteq> ?n then Inl ClientIdLength
      else if subslice 24 (24 + ?m) cid \<noteq> server_id then Inl ClientIdServer
      else Inr (from_be (subslice (24 + ?m) (24 + ?m + 32) cid), from_be (drop (24 + ?m + 32) cid))) = Inr (a, d)"
  proof -
    have nums: "22 + 2 = (24 :: nat)" "32 + 16 = (48 :: nat)" by simp_all
    show ?thesis
      using assms unfolding parse_mls_client_id_def Let_def label_len ACCOUNT_ID_LEN_def nums h option.case .
  qed
  have sw: "starts_with CLIENT_ID_LABEL (take 24 cid)" by (rule ccontr) (use p in simp)
  have n: "?m = ?n" by (rule ccontr) (use p sw in \<open>simp\<close>)
  have len: "length cid = 24 + ?n + 48" by (rule ccontr) (use p [unfolded n] sw in \<open>simp\<close>)
  have sv: "subslice 24 (24 + ?n) cid = server_id" by (rule ccontr) (use p [unfolded n] sw len in \<open>simp\<close>)
  have ad: "from_be (subslice (24 + ?n) (24 + ?n + 32) cid) = a" "from_be (drop (24 + ?n + 32) cid) = d"
    using p [unfolded n] sw len sv by simp_all
  from n have lt: "?n < 65536" using unsigned_less [of "from_be (drop 22 (take 24 cid)) :: u16", where ?'a = nat] by simp
  from sw obtain r where r: "take 24 cid = CLIENT_ID_LABEL @ r" by (auto simp: starts_with_iff)
  have "length (take 24 cid) = 24" using len by simp
  then have "length r = 2" using arg_cong [OF r, of length] label_len by (simp del: length_take)
  moreover have "from_be r = (of_nat ?n :: u16)"
    using n r label_len unat_of_nat_u16 [OF lt] by (simp add: word_unat_eq_iff)
  ultimately have r2: "r = to_be 2 (of_nat ?n :: u16)" by (metis to_be_from_be_widths(1))
  have "to_be 32 a = subslice (24 + ?n) (24 + ?n + 32) cid"
    unfolding ad(1) [symmetric] by (rule to_be_from_be) (use len in simp_all)
  moreover have "to_be 16 d = drop (24 + ?n + 32) cid"
    unfolding ad(2) [symmetric] by (rule to_be_from_be) (use len in simp_all)
  moreover have "cid = take 24 cid @ subslice 24 (24 + ?n) cid @ subslice (24 + ?n) (24 + ?n + 32) cid @ drop (24 + ?n + 32) cid"
    by (simp add: subslice_to_end)
  ultimately show ?thesis using r r2 sv lt by (simp add: client_id_bytes_def)
qed

text \<open>
  The client id is canonical. \<open>mls_client_id\<close> encodes a server identity, an account and a device as
  the bytes \<open>cid\<close> exactly if \<open>cid\<close> is within the size limit and \<open>parse_mls_client_id\<close> reads that account
  and device from it for that server: no client id has two readings and no device has two client ids.
\<close>

theorem mls_client_id_exact:
  "mls_client_id server_id account device = Inr cid \<longleftrightarrow>
     parse_mls_client_id server_id cid = Inr (account, device) \<and> length cid \<le> MAX_MLS_CLIENT_ID_BYTES"
  using parse_client_id_bytes parse_client_id_only by (auto simp: mls_client_id_Inr)

lemma mls_client_id_parses: "mls_client_id sid a d = Inr cid \<Longrightarrow> parse_mls_client_id sid cid = Inr (a, d)"
  by (simp add: mls_client_id_Inr parse_client_id_bytes)

lemma mls_client_id_inj:
  assumes "mls_client_id sid a d = Inr cid" and "mls_client_id sid a' d' = Inr cid"
  shows "a' = a \<and> d' = d"
  using mls_client_id_parses [OF assms(1)] mls_client_id_parses [OF assms(2)] by simp

section \<open>What a valid roster is\<close>

lemma verify_signature_ok:
  "verify_signature F pk m s = Inr () \<longleftrightarrow> length s = SIGNATURE_LEN \<and> ed_verify F (to_be 32 pk) m s"
  by (simp add: verify_signature_def)

lemma certificate_ok:
  "validate_device_certificate F J c sid uid account pk = Inr () \<Longrightarrow>
     mls_client_id sid account (dc_device_id (cert_body c)) = Inr (dc_mls_client_id (cert_body c)) \<and>
     dc_user_id (cert_body c) = uid \<and> dc_account_id (cert_body c) = account \<and> dc_authority_public_key (cert_body c) = pk \<and>
     length (dc_mls_signature_public_key (cert_body c)) = SIGNATURE_KEY_LEN \<and> length (cert_signature c) = SIGNATURE_LEN \<and>
     ed_verify F (to_be 32 pk) (CERTIFICATE_SIGNATURE_LABEL @ jc_certificate J (cert_body c)) (cert_signature c)"
  by (auto simp: validate_device_certificate_def Let_def rbind_Inr_iff verify_signature_ok split: if_splits)

definition devices_sorted :: "signed_device_certificate list \<Rightarrow> bool" where
  "devices_sorted cs \<longleftrightarrow> sorted_wrt (<) (map (dc_device_id \<circ> cert_body) cs)"

definition client_ids :: "signed_device_certificate list \<Rightarrow> bytes list" where
  "client_ids cs = map (dc_mls_client_id \<circ> cert_body) cs"

definition signature_keys :: "signed_device_certificate list \<Rightarrow> bytes list" where
  "signature_keys cs = map (dc_mls_signature_public_key \<circ> cert_body) cs"

text \<open>
  The loop accepts a list after the certificates \<open>done\<close> exactly if all certificates are valid, the ids go
  on rising and no signature key occurs twice. Its test for a repeated client id never fires: the client
  id of a valid certificate determines its device id.
\<close>

lemma validate_devices_exact:
  fixes F J sid uid body
  defines "ok \<equiv> \<lambda>c. validate_device_certificate F J c sid uid (dr_account_id body) (dr_authority_public_key body) = Inr ()"
  assumes "list_all ok old" and "devices_sorted old"
    and "previous = (if old = [] then None else Some (dc_device_id (cert_body (last old))))"
  shows "validate_devices F J sid uid body previous (client_ids old) (signature_keys old) cs = Inr () \<longleftrightarrow>
     list_all ok cs \<and> devices_sorted (old @ cs) \<and>
     (\<forall>c\<in>set cs. dc_mls_signature_public_key (cert_body c) \<notin> set (signature_keys old)) \<and> distinct (signature_keys cs)"
  using assms(2-)
proof (induction cs arbitrary: old previous)
  case Nil
  then show ?case by (simp add: signature_keys_def)
next
  case (Cons c cs)
  let ?d = "dc_device_id (cert_body c)" and ?i = "dc_mls_client_id (cert_body c)"
    and ?k = "dc_mls_signature_public_key (cert_body c)"
  have rising: "devices_sorted (old @ [c]) \<longleftrightarrow> \<not> (case previous of None \<Rightarrow> False | Some p \<Rightarrow> p \<ge> ?d)"
  proof (cases old rule: rev_cases)
    case Nil
    then show ?thesis using Cons.prems by (simp add: devices_sorted_def)
  next
    case (snoc xs x)
    with Cons.prems show ?thesis
      by (auto simp: devices_sorted_def sorted_wrt_append not_le intro: less_trans)
  qed
  have fresh: "?i \<notin> set (client_ids old)" if "ok c" "devices_sorted (old @ [c])"
  proof
    assume "?i \<in> set (client_ids old)"
    then obtain c' where c': "c' \<in> set old" "dc_mls_client_id (cert_body c') = ?i" by (auto simp: client_ids_def)
    then have "ok c'" using Cons.prems(1) by (simp add: list_all_iff)
    then have "dc_device_id (cert_body c') = ?d"
      using certificate_ok [of F J c sid uid] certificate_ok [of F J c' sid uid] that(1) c'(2) mls_client_id_inj
      unfolding ok_def by metis
    moreover have "dc_device_id (cert_body c') < ?d"
      using that(2) c'(1) by (simp add: devices_sorted_def sorted_wrt_append)
    ultimately show False by simp
  qed
  have step: "validate_devices F J sid uid body (Some ?d) (client_ids old @ [?i]) (signature_keys old @ [?k]) cs = Inr () \<longleftrightarrow>
      list_all ok cs \<and> devices_sorted (old @ c # cs) \<and>
      (\<forall>c'\<in>set cs. dc_mls_signature_public_key (cert_body c') \<notin> insert ?k (set (signature_keys old))) \<and>
      distinct (signature_keys cs)" if "ok c" "devices_sorted (old @ [c])"
    using Cons.IH [of "old @ [c]" "Some ?d"] that Cons.prems by (simp add: client_ids_def signature_keys_def)
  have sub: "devices_sorted (old @ c # cs) \<Longrightarrow> devices_sorted (old @ [c])"
    by (simp add: devices_sorted_def sorted_wrt_append)
  show ?case
  proof (cases "ok c \<and> devices_sorted (old @ [c])")
    case True
    then show ?thesis using step fresh rising sub
      by (auto simp: ok_def signature_keys_def image_iff)
  next
    case False
    then show ?thesis using rising sub by (auto simp: ok_def rbind_Inr_iff split: if_splits)
  qed
qed

lemma validate_devices_all:
  "validate_devices F J sid uid body None [] [] cs = Inr () \<longleftrightarrow>
     list_all (\<lambda>c. validate_device_certificate F J c sid uid (dr_account_id body) (dr_authority_public_key body) = Inr ()) cs \<and>
     devices_sorted cs \<and> distinct (signature_keys cs)"
  using validate_devices_exact [of F J sid uid body "[]" None cs] by (simp add: client_ids_def signature_keys_def devices_sorted_def)

text \<open>What a reader may rely on in a roster that validates.\<close>

definition roster_valid :: "crypto_fns \<Rightarrow> identity_codec \<Rightarrow> bytes \<Rightarrow> u64 \<Rightarrow> signed_device_roster \<Rightarrow> bool" where
  "roster_valid F J sid uid r \<longleftrightarrow>
     (let body = roster_body r; pk = dr_authority_public_key body; devices = dr_active_devices body in
      dr_user_id body = uid \<and> dr_account_id body = account_id F sid uid pk \<and> dr_revision body \<noteq> 0 \<and>
      devices \<noteq> [] \<and> length devices \<le> MAX_ACTIVE_DEVICES \<and>
      list_all (\<lambda>c. validate_device_certificate F J c sid uid (dr_account_id body) pk = Inr ()) devices \<and>
      devices_sorted devices \<and> distinct (signature_keys devices) \<and>
      length (roster_signature r) = SIGNATURE_LEN \<and>
      ed_verify F (to_be 32 pk) (ROSTER_SIGNATURE_LABEL @ jc_roster_body J body) (roster_signature r))"

lemma validate_device_roster_ok:
  "validate_device_roster F J r sid uid = Inr () \<longleftrightarrow> roster_valid F J sid uid r"
  by (auto simp: validate_device_roster_def roster_valid_def Let_def rbind_Inr_iff verify_signature_ok validate_devices_all)

lemma distinct_client_ids:
  assumes "roster_valid F J sid uid r"
  shows "distinct (client_ids (dr_active_devices (roster_body r)))"
proof -
  let ?cs = "dr_active_devices (roster_body r)"
  have ok: "validate_device_certificate F J c sid uid (dr_account_id (roster_body r)) (dr_authority_public_key (roster_body r)) = Inr ()"
    if "c \<in> set ?cs" for c using assms that unfolding roster_valid_def Let_def list_all_iff by blast
  have d: "distinct (map (dc_device_id \<circ> cert_body) ?cs)"
    using assms by (simp add: roster_valid_def Let_def devices_sorted_def strict_sorted_iff)
  have "inj_on (dc_mls_client_id \<circ> cert_body) (set ?cs)"
  proof (rule inj_onI)
    fix c c' assume c: "c \<in> set ?cs" "c' \<in> set ?cs" "(dc_mls_client_id \<circ> cert_body) c = (dc_mls_client_id \<circ> cert_body) c'"
    then have "dc_device_id (cert_body c) = dc_device_id (cert_body c')"
      using certificate_ok [OF ok [OF c(1)]] certificate_ok [OF ok [OF c(2)]] mls_client_id_inj by (metis comp_apply)
    with d c(1,2) show "c = c'" by (simp add: distinct_map inj_on_def)
  qed
  moreover have "distinct ?cs" using d by (simp add: distinct_map)
  ultimately show ?thesis by (simp add: client_ids_def distinct_map)
qed

lemma roster_devices:
  assumes "roster_valid F J sid uid r" and "c \<in> set (dr_active_devices (roster_body r))"
  shows "ed_verify F (to_be 32 (dr_authority_public_key (roster_body r)))
      (CERTIFICATE_SIGNATURE_LABEL @ jc_certificate J (cert_body c)) (cert_signature c) \<and>
    dc_authority_public_key (cert_body c) = dr_authority_public_key (roster_body r) \<and> dc_user_id (cert_body c) = uid \<and>
    dc_account_id (cert_body c) = account_id F sid uid (dr_authority_public_key (roster_body r)) \<and>
    mls_client_id sid (account_id F sid uid (dr_authority_public_key (roster_body r))) (dc_device_id (cert_body c))
      = Inr (dc_mls_client_id (cert_body c)) \<and>
    length (dc_mls_signature_public_key (cert_body c)) = 32"
proof -
  have "validate_device_certificate F J c sid uid (dr_account_id (roster_body r)) (dr_authority_public_key (roster_body r)) = Inr ()"
    and "dr_account_id (roster_body r) = account_id F sid uid (dr_authority_public_key (roster_body r))"
    using assms by (auto simp: roster_valid_def Let_def list_all_iff)
  then show ?thesis using certificate_ok by (simp add: SIGNATURE_KEY_LEN_def)
qed

section \<open>Histories of rosters\<close>

text \<open>The rosters an account went through, the current one first, each accepted after the one before.\<close>

inductive roster_history :: "crypto_fns \<Rightarrow> identity_codec \<Rightarrow> bytes \<Rightarrow> u64 \<Rightarrow> signed_device_roster list \<Rightarrow> bool"
  for F J sid uid where
  initial: "validate_roster_transition F J None next expected sid uid = Inr () \<Longrightarrow> roster_history F J sid uid [next]"
| update: "roster_history F J sid uid (current # older) \<Longrightarrow>
     validate_roster_transition F J (Some current) next expected sid uid = Inr () \<Longrightarrow>
     roster_history F J sid uid (next # current # older)"

lemma transition_initial:
  "validate_roster_transition F J None next expected sid uid = Inr () \<longleftrightarrow>
     roster_valid F J sid uid next \<and> expected = None \<and> dr_revision (roster_body next) = 1"
  by (auto simp: validate_roster_transition_def rbind_Inr_iff validate_device_roster_ok)

lemma transition_update:
  "validate_roster_transition F J (Some current) next expected sid uid = Inr () \<longleftrightarrow>
     roster_valid F J sid uid next \<and> roster_valid F J sid uid current \<and> expected = Some (checkpoint_of F J current) \<and>
     dr_authority_public_key (roster_body next) = dr_authority_public_key (roster_body current) \<and>
     unat (dr_revision (roster_body next)) = Suc (unat (dr_revision (roster_body current)))"
proof -
  let ?c = "dr_revision (roster_body current)" and ?n = "dr_revision (roster_body next)"
  have "(\<exists>r. checked_add ?c 1 = Some r \<and> ?n = r) \<longleftrightarrow> unat ?n = Suc (unat ?c)"
  proof
    assume "\<exists>r. checked_add ?c 1 = Some r \<and> ?n = r"
    then show "unat ?n = Suc (unat ?c)" using checked_add_Some [of ?c 1 ?n] by auto
  next
    assume a: "unat ?n = Suc (unat ?c)"
    then have "unat ?c + 1 < 2 ^ 64" using unsigned_less [of ?n, where ?'a = nat] by simp
    moreover from a this have "?n = ?c + 1" by (simp add: word_unat_eq_iff unat_word_ariths)
    ultimately show "\<exists>r. checked_add ?c 1 = Some r \<and> ?n = r" by (simp add: checked_add_def)
  qed
  moreover have "dr_account_id (roster_body next) = dr_account_id (roster_body current)"
    if "roster_valid F J sid uid next" "roster_valid F J sid uid current"
      "dr_authority_public_key (roster_body next) = dr_authority_public_key (roster_body current)"
    using that by (simp add: roster_valid_def Let_def)
  ultimately show ?thesis
    by (auto simp: validate_roster_transition_def rbind_Inr_iff validate_device_roster_ok)
qed

lemma history_shape:
  assumes "roster_history F J sid uid rs"
  shows "rs \<noteq> [] \<and> (\<forall>i<length rs. roster_valid F J sid uid (rs ! i) \<and>
     unat (dr_revision (roster_body (rs ! i))) = length rs - i \<and>
     dr_authority_public_key (roster_body (rs ! i)) = dr_authority_public_key (roster_body (last rs)))"
  using assms
proof induction
  case (initial "next" expected)
  then show ?case by (simp add: transition_initial)
next
  case (update current older "next" expected)
  let ?rs = "current # older"
  note t = update.hyps(2) [unfolded transition_update]
  from update.IH have r: "unat (dr_revision (roster_body current)) = length ?rs"
    and pk: "dr_authority_public_key (roster_body current) = dr_authority_public_key (roster_body (last ?rs))" by auto
  show ?case
  proof (intro conjI allI impI)
    fix i assume i: "i < length (next # ?rs)"
    show "roster_valid F J sid uid ((next # ?rs) ! i)" using t update.IH i by (cases i) auto
    show "unat (dr_revision (roster_body ((next # ?rs) ! i))) = length (next # ?rs) - i"
      using t r update.IH i by (cases i) auto
    show "dr_authority_public_key (roster_body ((next # ?rs) ! i)) = dr_authority_public_key (roster_body (last (next # ?rs)))"
      using t pk update.IH i by (cases i) auto
  qed simp
qed

text \<open>
  C36. The roster of an account has one linear history under one authority. Whatever sequence of rosters
  was accepted, revision numbers count it without a gap. The key in the first one governs all of them:
  every roster carries a signature that verifies under this key over its own encoded body, names this key
  and the account that the user and the key determine, and holds between 1 and 16 devices, each with a
  certificate for this user, account and key whose signature verifies under this key too. Device ids
  rise, and no two devices share a client id or a signature key. An update names the roster it
  replaces: one that was accepted cannot be accepted again on top of its own result, whoever sends it and
  whatever roster it carries.
\<close>

theorem roster_history_linear:
  assumes "roster_history F J sid uid rs" and "i < length rs"
    and "body = roster_body (rs ! i)" and "authority = dr_authority_public_key (roster_body (last rs))"
  shows "unat (dr_revision body) = length rs - i \<and>
     ed_verify F (to_be 32 authority) (ROSTER_SIGNATURE_LABEL @ jc_roster_body J body) (roster_signature (rs ! i)) \<and>
     dr_authority_public_key body = authority \<and> dr_user_id body = uid \<and>
     dr_account_id body = account_id F sid uid authority \<and>
     1 \<le> length (dr_active_devices body) \<and> length (dr_active_devices body) \<le> 16 \<and>
     (\<forall>c \<in> set (dr_active_devices body).
        ed_verify F (to_be 32 authority) (CERTIFICATE_SIGNATURE_LABEL @ jc_certificate J (cert_body c)) (cert_signature c) \<and>
        dc_authority_public_key (cert_body c) = authority \<and> dc_user_id (cert_body c) = uid \<and>
        dc_account_id (cert_body c) = account_id F sid uid authority \<and>
        mls_client_id sid (account_id F sid uid authority) (dc_device_id (cert_body c)) = Inr (dc_mls_client_id (cert_body c)) \<and>
        length (dc_mls_signature_public_key (cert_body c)) = 32) \<and>
     devices_sorted (dr_active_devices body) \<and>
     distinct (client_ids (dr_active_devices body)) \<and>
     distinct (signature_keys (dr_active_devices body)) \<and>
     (\<forall>other. 0 < i \<longrightarrow> validate_roster_transition F J (Some (hd rs)) other
        (Some (checkpoint_of F J (rs ! i))) sid uid \<noteq> Inr ())"
proof -
  from history_shape [OF assms(1)] assms(2)
  have v: "roster_valid F J sid uid (rs ! i)" and r: "unat (dr_revision (roster_body (rs ! i))) = length rs - i"
    and pk: "dr_authority_public_key body = authority"
    and h: "unat (dr_revision (roster_body (hd rs))) = length rs"
    by (auto simp: hd_conv_nth assms(3,4))
  have fresh: "checkpoint_of F J (rs ! i) \<noteq> checkpoint_of F J (hd rs)" if "0 < i"
  proof
    assume "checkpoint_of F J (rs ! i) = checkpoint_of F J (hd rs)"
    then have "dr_revision (roster_body (rs ! i)) = dr_revision (roster_body (hd rs))" by (simp add: checkpoint_of_def)
    with r h that assms(2) show False by simp
  qed
  note d = roster_devices [OF v, folded assms(3), unfolded pk]
  show ?thesis using fresh r pk d distinct_client_ids [OF v] v [unfolded roster_valid_def Let_def, folded assms(3)]
    by (auto simp: transition_update Suc_le_eq MAX_ACTIVE_DEVICES_def assms(3) [symmetric])
qed

text \<open>A binding proof is a signature over a message that fits one session, device and roster only.\<close>

lemma binding_message_binds:
  assumes "mls_device_binding_message s d r = mls_device_binding_message s' d' r'"
  shows "s = s' \<and> d = d' \<and> r = r'"
  using assms by (auto simp: mls_device_binding_message_def to_be_inj_widths intro: roster_checkpoint.equality)

text \<open>An account with one device, in two revisions.\<close>

definition demo_id_fns :: crypto_fns where
  "demo_id_fns = demo_fns\<lparr>ed_sign := \<lambda>kp m. pad32 kp @ pad32 kp, ed_verify := \<lambda>pk m s. s = pk @ pk\<rparr>"

definition demo_codec :: identity_codec where
  "demo_codec = \<lparr>jc_certificate = dc_device_name, jc_roster_body = (\<lambda>b. to_be 8 (dr_revision b)), jc_roster = roster_signature\<rparr>"

definition demo_account :: account_id where
  "demo_account = account_id demo_id_fns [1] 7 5"

definition demo_certificate :: signed_device_certificate where
  "demo_certificate = sign_device_certificate demo_id_fns demo_codec
     \<lparr>dc_user_id = 7, dc_account_id = demo_account, dc_authority_public_key = 5, dc_device_id = 3,
      dc_device_name = [97], dc_mls_client_id = client_id_bytes [1] demo_account 3,
      dc_mls_signature_public_key = replicate 32 9\<rparr> 5"

definition demo_roster :: "u64 \<Rightarrow> signed_device_roster" where
  "demo_roster revision = sign_device_roster demo_id_fns demo_codec
     \<lparr>dr_user_id = 7, dr_account_id = demo_account, dr_authority_public_key = 5, dr_revision = revision,
      dr_active_devices = [demo_certificate]\<rparr> 5"

lemma pad32_exact: "length bs = 32 \<Longrightarrow> pad32 bs = bs"
  by (simp add: pad32_def)

lemma demo_certificate_ok:
  "validate_device_certificate demo_id_fns demo_codec demo_certificate [1] 7 demo_account 5 = Inr ()"
proof -
  have "trim [97] = [97]" by (rule trim_graphic) (simp add: graphic_def)
  then have "validate_device_name [97] = Inr ()"
    by (simp add: validate_device_name_def MAX_DEVICE_NAME_BYTES_def is_control_def)
  moreover have "mls_client_id [1] demo_account 3 = Inr (client_id_bytes [1] demo_account 3)"
    by (simp add: mls_client_id_Inr MAX_MLS_CLIENT_ID_BYTES_def client_id_bytes_def label_len)
  ultimately show ?thesis
    by (simp add: validate_device_certificate_def demo_certificate_def sign_device_certificate_def demo_account_def
        SIGNATURE_KEY_LEN_def verify_signature_ok SIGNATURE_LEN_def demo_id_fns_def pad32_exact)
qed

lemma demo_roster_valid: "revision \<noteq> 0 \<Longrightarrow> roster_valid demo_id_fns demo_codec [1] 7 (demo_roster revision)"
  using demo_certificate_ok
  by (simp add: roster_valid_def Let_def demo_roster_def sign_device_roster_def MAX_ACTIVE_DEVICES_def devices_sorted_def
      signature_keys_def SIGNATURE_LEN_def) (simp add: demo_id_fns_def pad32_exact demo_account_def)

theorem roster_history_linear_witness:
  "roster_history demo_id_fns demo_codec [1] 7 [demo_roster 2, demo_roster 1] \<and>
   validate_roster_transition demo_id_fns demo_codec (Some (demo_roster 2)) (demo_roster 3)
     (Some (checkpoint_of demo_id_fns demo_codec (demo_roster 1))) [1] 7 \<noteq> Inr ()"
proof -
  have "roster_history demo_id_fns demo_codec [1] 7 [demo_roster 1]"
    by (rule roster_history.initial [of _ _ _ None])
      (simp add: transition_initial demo_roster_valid, simp add: demo_roster_def sign_device_roster_def)
  then have h: "roster_history demo_id_fns demo_codec [1] 7 [demo_roster 2, demo_roster 1]"
    by (rule roster_history.update [of _ _ _ _ _ _ _ "Some (checkpoint_of demo_id_fns demo_codec (demo_roster 1))"])
      (simp add: transition_update demo_roster_valid, simp add: demo_roster_def sign_device_roster_def)
  then show ?thesis using roster_history_linear [OF h, of 1] by simp
qed

end
