(* ===== verification/Mls_Wire.thy ===== *)
theory Mls_Wire
  imports Device_Identity "HOL-Library.Multiset"
begin

text \<open>
  The bounded types of encrypted rooms (\<open>crates/rpc/src/mls.rs\<close>): the room descriptor and its group id,
  the checks on key packages, commit bundles, event batches and application events, the padding of file
  sizes and the sealed chunks of a file transfer. The MLS objects themselves are opaque bytes here as
  they are in the code; \<open>jsony::to_binary\<close> is a parameter.
\<close>

unbundle bit_operations_syntax

section \<open>Definitions\<close>

type_synonym event_id = "128 word"

definition MLS_PROTOCOL_VERSION :: u16 where "MLS_PROTOCOL_VERSION = 1"
definition MAX_ENCRYPTED_ROOM_ACCOUNTS :: nat where "MAX_ENCRYPTED_ROOM_ACCOUNTS = 64"
definition MAX_MLS_GROUP_ID_BYTES :: nat where "MAX_MLS_GROUP_ID_BYTES = 64"
definition MAX_MLS_KEY_PACKAGE_BYTES :: nat where "MAX_MLS_KEY_PACKAGE_BYTES = 64 * 1024"
definition MAX_MLS_KEY_PACKAGES_PER_REQUEST :: nat where "MAX_MLS_KEY_PACKAGES_PER_REQUEST = 32"
definition MAX_MLS_MESSAGE_BYTES :: nat where "MAX_MLS_MESSAGE_BYTES = 224 * 1024"
definition MAX_MLS_WELCOMES_PER_COMMIT :: nat where "MAX_MLS_WELCOMES_PER_COMMIT = 64"
definition MAX_MLS_EVENT_BATCH :: nat where "MAX_MLS_EVENT_BATCH = 500"
definition MAX_MLS_FILE_NAME_BYTES :: nat where "MAX_MLS_FILE_NAME_BYTES = 255"
definition MAX_CHAT_BODY_BYTES :: nat where "MAX_CHAT_BODY_BYTES = 16 * 1024"

definition GROUP_ID_LABEL :: bytes where "GROUP_ID_LABEL = ascii_bytes ''chatt mls group id v1''"

datatype mls_error =
    RoomVersion | RoomAccountCount | RoomNotSorted | RoomCreator | RoomGroupId | RoomDuplicateAccount
  | EventVersion | EventText | EventReaction | EventFile | EventTooLarge
  | KeyPackageCount | KeyPackageLength | WelcomeTargetCount | WelcomeDuplicateTarget
  | MlsLength string | BatchTooLarge | BatchNotOrdered

subsection \<open>Padded sizes\<close>

text \<open>\<open>u64::leading_zeros\<close>, by the number of binary digits.\<close>

fun bit_len :: "nat \<Rightarrow> nat" where
  "bit_len n = (if n = 0 then 0 else Suc (bit_len (n div 2)))"

declare bit_len.simps [simp del]

definition leading_zeros :: "u64 \<Rightarrow> nat" where
  "leading_zeros w = 64 - bit_len (unat w)"

definition padme_len :: "u64 \<Rightarrow> u64" where
  "padme_len len =
     (if len < 2 then len
      else
        let e = 63 - leading_zeros len;
            s = 64 - leading_zeros (of_nat e);
            mask = push_bit (e - s) 1 - 1
        in (len + mask) AND NOT mask)"

subsection \<open>Room descriptors\<close>

record encrypted_room_descriptor =
  er_room_id :: u32
  er_mls_group_id :: bytes
  er_creator :: account_id
  er_member_accounts :: "account_id list"
  er_created_at_ms :: u64
  er_protocol_version :: u16

record group_id_input =
  gi_room_id :: u32
  gi_creator :: account_id
  gi_member_accounts :: "account_id list"
  gi_created_at_ms :: u64
  gi_protocol_version :: u16

definition derived_group_id :: "crypto_fns \<Rightarrow> (group_id_input \<Rightarrow> bytes) \<Rightarrow> encrypted_room_descriptor \<Rightarrow> bytes" where
  "derived_group_id F to_binary d =
     sha256 F (GROUP_ID_LABEL @ to_binary
       \<lparr>gi_room_id = er_room_id d, gi_creator = er_creator d, gi_member_accounts = er_member_accounts d,
        gi_created_at_ms = er_created_at_ms d, gi_protocol_version = er_protocol_version d\<rparr>)"

text \<open>\<open>xs.windows(2).any(p)\<close>.\<close>

fun windows_any :: "('a \<Rightarrow> 'a \<Rightarrow> bool) \<Rightarrow> 'a list \<Rightarrow> bool" where
  "windows_any p (x # y # r) = (p x y \<or> windows_any p (y # r))"
| "windows_any p _ = False"

text \<open>
  \<open>binary_search\<close> runs on a list that the line before found strictly rising; there it finds exactly the
  members.
\<close>

definition descriptor_validate ::
  "crypto_fns \<Rightarrow> (group_id_input \<Rightarrow> bytes) \<Rightarrow> encrypted_room_descriptor \<Rightarrow> (mls_error, unit) result" where
  "descriptor_validate F to_binary d =
     (if er_protocol_version d \<noteq> MLS_PROTOCOL_VERSION then Inl RoomVersion
      else if \<not> (2 \<le> length (er_member_accounts d) \<and> length (er_member_accounts d) \<le> MAX_ENCRYPTED_ROOM_ACCOUNTS)
      then Inl RoomAccountCount
      else if windows_any (\<lambda>a b. a \<ge> b) (er_member_accounts d) then Inl RoomNotSorted
      else if er_creator d \<notin> set (er_member_accounts d) then Inl RoomCreator
      else if length (er_mls_group_id d) > MAX_MLS_GROUP_ID_BYTES
           \<or> er_mls_group_id d \<noteq> derived_group_id F to_binary d
      then Inl RoomGroupId
      else Inr ())"

definition descriptor_new ::
  "crypto_fns \<Rightarrow> (group_id_input \<Rightarrow> bytes) \<Rightarrow> u32 \<Rightarrow> account_id \<Rightarrow> account_id list \<Rightarrow> u64
     \<Rightarrow> (mls_error, encrypted_room_descriptor) result" where
  "descriptor_new F to_binary room_id creator member_accounts created_at_ms =
     (let member_accounts = sort member_accounts in
      if windows_any (=) member_accounts then Inl RoomDuplicateAccount
      else
        let descriptor = \<lparr>er_room_id = room_id, er_mls_group_id = [], er_creator = creator,
                          er_member_accounts = member_accounts, er_created_at_ms = created_at_ms,
                          er_protocol_version = MLS_PROTOCOL_VERSION\<rparr>;
            descriptor = descriptor\<lparr>er_mls_group_id := derived_group_id F to_binary descriptor\<rparr>
        in rbind (descriptor_validate F to_binary descriptor) (\<lambda>_. Inr descriptor))"

definition is_dm :: "encrypted_room_descriptor \<Rightarrow> bool" where
  "is_dm d \<longleftrightarrow> length (er_member_accounts d) = 2"

subsection \<open>Events, key packages and commits\<close>

datatype file_content_encoding = IdentityEncoding | Zstd | Sealed

record mls_file_announcement =
  fa_transfer_id :: u64
  fa_name :: bytes
  fa_size :: u64
  fa_chunk_size :: u32
  fa_encoding :: file_content_encoding
  fa_file_key :: key32
  fa_digest :: key32

datatype chatt_event_content =
    ContentText bytes
  | ContentEdit u64 bytes
  | ContentDelete u64
  | ContentReaction u64 bytes
  | ContentFile mls_file_announcement

record mls_chatt_event =
  ev_version :: u16
  ev_room_id :: u32
  ev_event_id :: event_id
  ev_sender_account :: account_id
  ev_timestamp_ms :: u64
  ev_content :: chatt_event_content

definition event_text_ok :: "bytes \<Rightarrow> bool" where
  "event_text_ok body \<longleftrightarrow> \<not> (trim body = [] \<or> length body > MAX_CHAT_BODY_BYTES)"

definition event_content_validate :: "chatt_event_content \<Rightarrow> (mls_error, unit) result" where
  "event_content_validate content =
     (case content of
        ContentText body \<Rightarrow> if event_text_ok body then Inr () else Inl EventText
      | ContentEdit _ body \<Rightarrow> if event_text_ok body then Inr () else Inl EventText
      | ContentDelete _ \<Rightarrow> Inr ()
      | ContentReaction _ reaction \<Rightarrow> if trim reaction = [] \<or> length reaction > 64 then Inl EventReaction else Inr ()
      | ContentFile file \<Rightarrow>
          if fa_name file = [] \<or> length (fa_name file) > MAX_MLS_FILE_NAME_BYTES
             \<or> 47 \<in> set (fa_name file) \<or> 92 \<in> set (fa_name file)
             \<or> list_ex is_control (utf8_chars (fa_name file))
             \<or> fa_size file = 0 \<or> fa_chunk_size file = 0
          then Inl EventFile else Inr ())"

definition event_validate :: "(mls_chatt_event \<Rightarrow> bytes) \<Rightarrow> mls_chatt_event \<Rightarrow> (mls_error, unit) result" where
  "event_validate to_binary ev =
     (if ev_version ev \<noteq> MLS_PROTOCOL_VERSION then Inl EventVersion
      else rbind (event_content_validate (ev_content ev)) (\<lambda>_.
        if length (to_binary ev) > MAX_MLS_MESSAGE_BYTES then Inl EventTooLarge else Inr ()))"

record published_key_package =
  kp_device_id :: device_id
  kp_package :: bytes

record mls_welcome_bundle =
  wb_device_ids :: "device_id list"
  wb_descriptor :: encrypted_room_descriptor
  wb_welcome :: bytes

record mls_commit_bundle =
  cb_prior_group_info :: "bytes option"
  cb_commit :: bytes
  cb_welcome :: "mls_welcome_bundle option"
  cb_group_info :: bytes

datatype mls_delivery_event =
    DeliveredCommit u64 u64 u64 "signed_device_roster list" bytes
  | DeliveredApplication u64 u64 event_id "signed_device_roster list" bytes

fun event_sequence :: "mls_delivery_event \<Rightarrow> u64" where
  "event_sequence (DeliveredCommit sequence _ _ _ _) = sequence"
| "event_sequence (DeliveredApplication sequence _ _ _ _) = sequence"

definition validate_mls_bytes :: "bytes \<Rightarrow> string \<Rightarrow> (mls_error, unit) result" where
  "validate_mls_bytes bs kind =
     (if bs = [] \<or> length bs > MAX_MLS_MESSAGE_BYTES then Inl (MlsLength kind) else Inr ())"

fun validate_packages :: "published_key_package list \<Rightarrow> (mls_error, unit) result" where
  "validate_packages [] = Inr ()"
| "validate_packages (p # ps) =
     (if kp_package p = [] \<or> length (kp_package p) > MAX_MLS_KEY_PACKAGE_BYTES then Inl KeyPackageLength
      else validate_packages ps)"

definition validate_key_packages :: "published_key_package list \<Rightarrow> (mls_error, unit) result" where
  "validate_key_packages packages =
     (if packages = [] \<or> length packages > MAX_MLS_KEY_PACKAGES_PER_REQUEST then Inl KeyPackageCount
      else validate_packages packages)"

definition validate_welcome ::
  "crypto_fns \<Rightarrow> (group_id_input \<Rightarrow> bytes) \<Rightarrow> mls_welcome_bundle \<Rightarrow> (mls_error, unit) result" where
  "validate_welcome F to_binary welcome =
     (if wb_device_ids welcome = [] \<or> length (wb_device_ids welcome) > MAX_MLS_WELCOMES_PER_COMMIT
      then Inl WelcomeTargetCount
      else if windows_any (=) (sort (wb_device_ids welcome)) then Inl WelcomeDuplicateTarget
      else rbind (descriptor_validate F to_binary (wb_descriptor welcome)) (\<lambda>_.
             validate_mls_bytes (wb_welcome welcome) ''Welcome''))"

definition validate_commit_bundle ::
  "crypto_fns \<Rightarrow> (group_id_input \<Rightarrow> bytes) \<Rightarrow> mls_commit_bundle \<Rightarrow> (mls_error, unit) result" where
  "validate_commit_bundle F to_binary bundle =
     rbind (case cb_prior_group_info bundle of
              None \<Rightarrow> Inr ()
            | Some group_info \<Rightarrow> validate_mls_bytes group_info ''prior GroupInfo'') (\<lambda>_.
     rbind (validate_mls_bytes (cb_commit bundle) ''commit'') (\<lambda>_.
     rbind (case cb_welcome bundle of None \<Rightarrow> Inr () | Some welcome \<Rightarrow> validate_welcome F to_binary welcome) (\<lambda>_.
       validate_mls_bytes (cb_group_info bundle) ''GroupInfo'')))"

fun validate_events :: "u64 option \<Rightarrow> mls_delivery_event list \<Rightarrow> (mls_error, unit) result" where
  "validate_events previous [] = Inr ()"
| "validate_events previous (event # events) =
     (if (case previous of None \<Rightarrow> False | Some sequence \<Rightarrow> sequence \<ge> event_sequence event) then Inl BatchNotOrdered
      else
        rbind (case event of
                 DeliveredCommit _ _ _ _ commit \<Rightarrow> validate_mls_bytes commit ''commit''
               | DeliveredApplication _ _ _ _ ciphertext \<Rightarrow> validate_mls_bytes ciphertext ''application message'') (\<lambda>_.
          validate_events (Some (event_sequence event)) events))"

definition validate_event_batch :: "mls_delivery_event list \<Rightarrow> (mls_error, unit) result" where
  "validate_event_batch events =
     (if length events > MAX_MLS_EVENT_BATCH then Inl BatchTooLarge else validate_events None events)"

subsection \<open>Sealed file chunks\<close>




section \<open>Descriptors are canonical\<close>

lemma windows_any_rising: "windows_any (\<lambda>a b. a \<ge> b) xs \<longleftrightarrow> \<not> sorted_wrt (<) (xs :: 'a::linorder list)"
proof (induction xs rule: induct_list012)
  case (3 x y zs)
  then show ?case by (auto simp: not_le intro: less_trans)
qed simp_all

lemma windows_any_equal: "sorted xs \<Longrightarrow> windows_any (=) xs \<longleftrightarrow> \<not> distinct (xs :: 'a::linorder list)"
proof (induction xs rule: induct_list012)
  case (3 x y zs)
  then show ?case by auto
qed simp_all

lemma descriptor_validate_ok:
  "descriptor_validate F b d = Inr () \<longleftrightarrow>
     er_protocol_version d = MLS_PROTOCOL_VERSION \<and> 2 \<le> length (er_member_accounts d) \<and>
     length (er_member_accounts d) \<le> MAX_ENCRYPTED_ROOM_ACCOUNTS \<and> sorted (er_member_accounts d) \<and>
     distinct (er_member_accounts d) \<and> er_creator d \<in> set (er_member_accounts d) \<and>
     length (er_mls_group_id d) \<le> MAX_MLS_GROUP_ID_BYTES \<and> er_mls_group_id d = derived_group_id F b d"
  by (auto simp: descriptor_validate_def windows_any_rising strict_sorted_iff)

lemma derived_group_id_update [simp]: "derived_group_id F b (d\<lparr>er_mls_group_id := g\<rparr>) = derived_group_id F b d"
  by (simp add: derived_group_id_def)

text \<open>
  C37. An encrypted room has one descriptor. \<open>descriptor_new\<close> makes the descriptor \<open>d\<close> of a room from its
  creator, its accounts in any order and its time of creation exactly if \<open>d\<close> passes \<open>descriptor_validate\<close>
  and has that room, creator, time and those accounts: what the constructor makes is what the check on
  the other side accepts, and two peers that agree on the accounts agree on the descriptor and its group id.
\<close>

theorem descriptor_new_exact:
  "descriptor_new F to_binary room_id creator accounts created_at_ms = Inr d \<longleftrightarrow>
     descriptor_validate F to_binary d = Inr () \<and> er_room_id d = room_id \<and> er_creator d = creator \<and>
     er_created_at_ms d = created_at_ms \<and> mset (er_member_accounts d) = mset accounts"
proof
  assume "descriptor_new F to_binary room_id creator accounts created_at_ms = Inr d"
  then show "descriptor_validate F to_binary d = Inr () \<and> er_room_id d = room_id \<and> er_creator d = creator \<and>
     er_created_at_ms d = created_at_ms \<and> mset (er_member_accounts d) = mset accounts"
    by (auto simp: descriptor_new_def Let_def rbind_Inr_iff split: if_splits)
next
  assume d: "descriptor_validate F to_binary d = Inr () \<and> er_room_id d = room_id \<and> er_creator d = creator \<and>
     er_created_at_ms d = created_at_ms \<and> mset (er_member_accounts d) = mset accounts"
  then have v: "sorted (er_member_accounts d)" "distinct (er_member_accounts d)"
      "er_protocol_version d = MLS_PROTOCOL_VERSION" "er_mls_group_id d = derived_group_id F to_binary d"
    by (simp_all add: descriptor_validate_ok)
  have s: "sort accounts = er_member_accounts d"
    using d v(1) by (metis properties_for_sort)
  have e: "\<lparr>er_room_id = room_id, er_mls_group_id = derived_group_id F to_binary
        \<lparr>er_room_id = room_id, er_mls_group_id = [], er_creator = creator, er_member_accounts = er_member_accounts d,
         er_created_at_ms = created_at_ms, er_protocol_version = MLS_PROTOCOL_VERSION\<rparr>, er_creator = creator,
      er_member_accounts = er_member_accounts d, er_created_at_ms = created_at_ms,
      er_protocol_version = MLS_PROTOCOL_VERSION\<rparr> = d"
    using d v(3,4) by (intro encrypted_room_descriptor.equality) (simp_all add: derived_group_id_def)
  show "descriptor_new F to_binary room_id creator accounts created_at_ms = Inr d"
    using d v(1,2) by (simp add: descriptor_new_def Let_def s windows_any_equal e)
qed

section \<open>Batches and bundles\<close>

lemma validate_mls_bytes_ok: "validate_mls_bytes bs k = Inr () \<longleftrightarrow> bs \<noteq> [] \<and> length bs \<le> MAX_MLS_MESSAGE_BYTES"
  by (auto simp: validate_mls_bytes_def)

fun event_bytes :: "mls_delivery_event \<Rightarrow> bytes" where
  "event_bytes (DeliveredCommit _ _ _ _ commit) = commit"
| "event_bytes (DeliveredApplication _ _ _ _ ciphertext) = ciphertext"

lemma validate_events_ok:
  "validate_events previous events = Inr () \<longleftrightarrow>
     sorted_wrt (<) ((case previous of None \<Rightarrow> [] | Some p \<Rightarrow> [p]) @ map event_sequence events) \<and>
     list_all (\<lambda>e. event_bytes e \<noteq> [] \<and> length (event_bytes e) \<le> MAX_MLS_MESSAGE_BYTES) events"
proof (induction events arbitrary: previous)
  case Nil
  then show ?case by (simp split: option.split)
next
  case (Cons e es)
  have b: "(case e of DeliveredCommit _ _ _ _ commit \<Rightarrow> validate_mls_bytes commit ''commit''
       | DeliveredApplication _ _ _ _ ciphertext \<Rightarrow> validate_mls_bytes ciphertext ''application message'') = Inr () \<longleftrightarrow>
      event_bytes e \<noteq> [] \<and> length (event_bytes e) \<le> MAX_MLS_MESSAGE_BYTES"
    by (cases e) (simp_all add: validate_mls_bytes_ok)
  show ?case
    using Cons.IH [of "Some (event_sequence e)"] b
    by (cases previous) (auto simp: rbind_Inr_iff not_le intro: less_trans)
qed

lemma validate_event_batch_ok:
  "validate_event_batch events = Inr () \<longleftrightarrow>
     length events \<le> MAX_MLS_EVENT_BATCH \<and> sorted_wrt (<) (map event_sequence events) \<and>
     list_all (\<lambda>e. event_bytes e \<noteq> [] \<and> length (event_bytes e) \<le> MAX_MLS_MESSAGE_BYTES) events"
  by (auto simp: validate_event_batch_def validate_events_ok)

lemma validate_key_packages_ok:
  "validate_key_packages ps = Inr () \<longleftrightarrow>
     ps \<noteq> [] \<and> length ps \<le> MAX_MLS_KEY_PACKAGES_PER_REQUEST \<and>
     list_all (\<lambda>p. kp_package p \<noteq> [] \<and> length (kp_package p) \<le> MAX_MLS_KEY_PACKAGE_BYTES) ps"
proof -
  have "validate_packages ps = Inr () \<longleftrightarrow>
      list_all (\<lambda>p. kp_package p \<noteq> [] \<and> length (kp_package p) \<le> MAX_MLS_KEY_PACKAGE_BYTES) ps"
    by (induction ps) auto
  then show ?thesis by (auto simp: validate_key_packages_def)
qed

section \<open>Padded sizes\<close>

lemma bit_len_bounds: "0 < n \<Longrightarrow> 2 ^ (bit_len n - 1) \<le> n \<and> n < 2 ^ bit_len n \<and> 0 < bit_len n"
proof (induction n rule: bit_len.induct)
  case (1 n)
  show ?case
  proof (cases "n div 2 = 0")
    case True
    with 1(2) have "n = 1" by simp
    then show ?thesis by (simp add: bit_len.simps)
  next
    case False
    with 1 have ih: "2 ^ (bit_len (n div 2) - 1) \<le> n div 2" "n div 2 < 2 ^ bit_len (n div 2)" "0 < bit_len (n div 2)"
      by auto
    have b: "bit_len n = Suc (bit_len (n div 2))" using 1(2) by (simp add: bit_len.simps [of n])
    obtain k where k: "bit_len (n div 2) = Suc k" using ih(3) by (cases "bit_len (n div 2)") auto
    show ?thesis using ih b k by auto
  qed
qed

lemma bit_len_le: "n < 2 ^ k \<Longrightarrow> bit_len n \<le> k"
proof (cases "n = 0")
  case True
  then show ?thesis by (simp add: bit_len.simps)
next
  case False
  assume "n < 2 ^ k"
  with bit_len_bounds [of n] False have "(2 :: nat) ^ (bit_len n - 1) < 2 ^ k" by (meson le_less_trans neq0_conv)
  then have "bit_len n - 1 < k" by simp
  then show ?thesis by simp
qed

text \<open>The number of low bits that padding clears, for a size of \<open>n\<close> bytes.\<close>

definition padme_bits :: "nat \<Rightarrow> nat" where
  "padme_bits n = (bit_len n - 1) - bit_len (bit_len n - 1)"

lemma unat_and_not_mask: "unat ((x :: u64) AND NOT (push_bit k 1 - 1)) = unat x div 2 ^ k * 2 ^ k"
proof -
  have m: "push_bit k 1 - 1 = (mask k :: u64)" by (simp add: mask_eq_exp_minus_1 push_bit_eq_mult)
  have "x AND NOT (push_bit k 1 - 1) = push_bit k (drop_bit k x)"
    unfolding m by (rule bit_word_eqI) (auto simp: bit_simps)
  moreover have "unat (push_bit k (drop_bit k x)) = unat x div 2 ^ k * 2 ^ k"
  proof -
    have x: "unat x < 2 ^ 64" using unsigned_less [of x, where ?'a = nat] by simp
    then have "unat x div 2 ^ k * 2 ^ k < 2 ^ 64" by (rule le_less_trans [OF div_times_less_eq_dividend])
    with x show ?thesis
      by (simp only: unsigned_push_bit_eq unsigned_drop_bit_eq) (simp add: push_bit_eq_mult drop_bit_eq_div take_bit_eq_mod)
  qed
  ultimately show ?thesis by simp
qed

lemma padme_len_nat:
  assumes "2 \<le> unat len" and "unat len \<le> 2 ^ 63"
  shows "unat (padme_len len) = (unat len + (2 ^ padme_bits (unat len) - 1)) div 2 ^ padme_bits (unat len) * 2 ^ padme_bits (unat len)"
proof -
  define n where "n = unat len"
  define e where "e = bit_len n - 1"
  define k where "k = padme_bits n"
  have "0 < bit_len n" "bit_len n \<le> 64"
    using assms bit_len_bounds [of n] bit_len_le [of n 64] by (auto simp: n_def)
  then have e: "63 - leading_zeros len = e" and e64: "e < 64"
    by (auto simp: leading_zeros_def e_def n_def)
  have "bit_len e \<le> 6" using e64 by (intro bit_len_le) simp
  moreover have "unat (of_nat e :: u64) = e" using e64 by (simp add: unat_of_nat)
  ultimately have s: "64 - leading_zeros (of_nat e) = bit_len e"
    by (simp add: leading_zeros_def)
  have ks: "e - bit_len e = k" by (simp add: k_def padme_bits_def e_def)
  have "k \<le> 62"
  proof (cases "e = 0")
    case False
    then show ?thesis using bit_len_bounds [of e] e64 ks by linarith
  qed (use ks in simp)
  then have m: "(2 :: nat) ^ k \<le> 2 ^ 62" by (intro power_increasing) simp_all
  have "(push_bit k 1 - 1 :: u64) = of_nat (2 ^ k - 1)" by (simp add: push_bit_eq_mult of_nat_diff)
  then have um: "unat (push_bit k 1 - 1 :: u64) = 2 ^ k - 1"
    using m by (simp only: unat_of_nat) simp
  have "n + (2 ^ k - 1) < 2 ^ 64" using m assms(2) by (simp add: n_def)
  then have a: "unat (len + (push_bit k 1 - 1)) = n + (2 ^ k - 1)"
    by (simp only: unat_word_ariths(1) um n_def [symmetric]) simp
  have "\<not> len < 2" using assms(1) by (simp add: word_less_nat_alt)
  then have "padme_len len = (len + (push_bit k 1 - 1)) AND NOT (push_bit k 1 - 1)"
    by (simp only: padme_len_def Let_def e s ks if_False)
  then have "unat (padme_len len) = (n + (2 ^ k - 1)) div 2 ^ k * 2 ^ k"
    by (simp only: unat_and_not_mask a)
  then show ?thesis by (simp only: n_def k_def)
qed

lemma padme_bits_small: "2 \<le> n \<Longrightarrow> 8 * (2 ^ padme_bits n - 1) \<le> n"
proof -
  assume n: "2 \<le> n"
  let ?e = "bit_len n - 1"
  let ?s = "bit_len ?e"
  have le: "2 ^ ?e \<le> n" and e: "0 < ?e"
    using n bit_len_bounds [of n] bit_len_bounds [of "n div 2"] by (auto simp: bit_len.simps [of n])
  have s: "0 < ?s" "2 ^ (?s - 1) \<le> ?e" "?e < 2 ^ ?s" using e bit_len_bounds [of ?e] by auto
  show ?thesis
  proof (cases "3 \<le> ?s")
    case True
    have "(8 :: nat) * 2 ^ (?e - ?s) \<le> 2 ^ ?s * 2 ^ (?e - ?s)"
      using power_increasing [OF True, of "2 :: nat"] by simp
    also have "\<dots> = 2 ^ ?e"
      using bit_len_le [of ?e ?e] by (simp add: power_add [symmetric])
    finally show ?thesis using le by (simp add: padme_bits_def diff_mult_distrib2)
  next
    case False
    then have "?s = 1 \<or> ?s = 2" using s(1) by auto
    then have "?e - ?s = 0 \<or> ?e = 3 \<and> ?e - ?s = 1" using s(2,3) by auto
    then show ?thesis using le by (auto simp: padme_bits_def)
  qed
qed

lemma round_up_bounds:
  fixes n k :: nat
  assumes "0 < k"
  shows "n \<le> (n + (k - 1)) div k * k" "(n + (k - 1)) div k * k \<le> n + (k - 1)"
proof -
  show "(n + (k - 1)) div k * k \<le> n + (k - 1)" by simp
  have "(n + (k - 1)) div k * k + (n + (k - 1)) mod k = n + (k - 1)" by simp
  moreover have "(n + (k - 1)) mod k < k" using assms by simp
  ultimately show "n \<le> (n + (k - 1)) div k * k" using assms by linarith
qed

lemma round_up_dvd: "2 ^ k dvd (p :: nat) \<Longrightarrow> (p + (2 ^ k - 1)) div 2 ^ k * 2 ^ k = p"
proof -
  assume "2 ^ k dvd p"
  then obtain q where q: "p = q * 2 ^ k" by (auto simp: dvd_def mult.commute)
  have "(p + (2 ^ k - 1)) div 2 ^ k = q"
    unfolding q by (subst add.commute, subst div_mult_self1) simp_all
  then show ?thesis using q by simp
qed

text \<open>A padded size stays in the range of its own number of digits or is the next power of two.\<close>

lemma padme_fixed:
  assumes "2 \<le> n" and "n \<le> 2 ^ 63" and p: "p = (n + (2 ^ padme_bits n - 1)) div 2 ^ padme_bits n * 2 ^ padme_bits n"
  shows "p \<le> 2 ^ bit_len n \<and> 2 ^ padme_bits p dvd p \<and> p \<le> 2 ^ 63"
proof -
  let ?k = "padme_bits n" and ?b = "bit_len n"
  have b: "2 ^ (?b - 1) \<le> n" "n < 2 ^ ?b" "0 < ?b" using bit_len_bounds [of n] assms(1) by auto
  have kb: "?k \<le> ?b" by (simp add: padme_bits_def)
  have np: "n \<le> p" and pn: "p \<le> n + (2 ^ ?k - 1)" using round_up_bounds [of "2 ^ ?k" n] p by simp_all
  have up: "p \<le> 2 ^ j" if "n \<le> 2 ^ j" "?k \<le> j" for j
  proof -
    have "2 ^ ?k dvd (2 ^ j :: nat)" using that(2) by (rule le_imp_power_dvd)
    from round_up_dvd [OF this] have "2 ^ j = (2 ^ j + (2 ^ ?k - 1)) div 2 ^ ?k * (2 ^ ?k :: nat)" by simp
    moreover have "(n + (2 ^ ?k - 1)) div 2 ^ ?k \<le> (2 ^ j + (2 ^ ?k - 1)) div (2 ^ ?k :: nat)"
      using that(1) by (intro div_le_mono) simp
    ultimately show ?thesis using p by (metis mult_le_mono1)
  qed
  have p1: "p \<le> 2 ^ ?b" using up [of ?b] b(2) kb by simp
  have p2: "p \<le> 2 ^ 63"
  proof (rule up [OF assms(2)])
    show "?k \<le> 63" using bit_len_le [of n 64] assms(2) by (simp add: padme_bits_def)
  qed
  have "2 ^ padme_bits p dvd p"
  proof (cases "p = 2 ^ ?b")
    case True
    have "bit_len p = Suc ?b"
    proof -
      have "bit_len p \<le> Suc ?b" using True by (intro bit_len_le) simp
      moreover have "2 ^ ?b < (2 :: nat) ^ bit_len p" using bit_len_bounds [of p] True by auto
      then have "?b < bit_len p" by simp
      ultimately show ?thesis by simp
    qed
    then have "padme_bits p \<le> ?b" by (simp add: padme_bits_def)
    then show ?thesis unfolding True by (rule le_imp_power_dvd)
  next
    case False
    then have "bit_len p \<le> ?b" using p1 by (intro bit_len_le) simp
    moreover have "?b \<le> bit_len p"
    proof (rule ccontr)
      assume "\<not> ?b \<le> bit_len p"
      then have "(2 :: nat) ^ bit_len p \<le> 2 ^ (?b - 1)" by (intro power_increasing) simp_all
      moreover have "p < 2 ^ bit_len p" using bit_len_bounds [of p] np assms(1) by simp
      ultimately show False using b(1) np by linarith
    qed
    ultimately have "bit_len p = ?b" by simp
    then have "padme_bits p = ?k" by (simp add: padme_bits_def)
    then show ?thesis using p by simp
  qed
  with p1 p2 show ?thesis by simp
qed

text \<open>
  Padding hides a file size at a bounded cost. For every size up to \<open>2 ^ 63\<close> the padded size is not
  smaller, exceeds it by at most an eighth, and padding a padded size changes nothing, so the relay sees
  only the fixed points of the padding.
\<close>

theorem padme_len_bounds:
  assumes "unat len \<le> 2 ^ 63"
  shows "len \<le> padme_len len \<and> unat (padme_len len) \<le> unat len + unat len div 8 \<and>
     padme_len (padme_len len) = padme_len len"
proof (cases "2 \<le> unat len")
  case False
  then have "len < 2" by (simp add: word_less_nat_alt)
  then show ?thesis by (simp add: padme_len_def)
next
  case True
  define n where "n = unat len"
  define k where "k = padme_bits n"
  define p where "p = (n + (2 ^ k - 1)) div 2 ^ k * 2 ^ k"
  have n: "2 \<le> n" "n \<le> 2 ^ 63" using True assms by (simp_all add: n_def)
  have u: "unat (padme_len len) = p" using padme_len_nat [OF True assms] by (simp only: n_def p_def k_def)
  have np: "n \<le> p" and pn: "p \<le> n + (2 ^ k - 1)" using round_up_bounds [of "2 ^ k" n] by (simp_all only: p_def) simp_all
  have k8: "8 * (2 ^ k - 1) \<le> n" unfolding k_def by (rule padme_bits_small [OF n(1)])
  have up: "p \<le> 2 ^ bit_len n" and dv: "2 ^ padme_bits p dvd p" and p63: "p \<le> 2 ^ 63"
    using padme_fixed [OF n, of p] by (simp_all add: p_def k_def)
  have "unat (padme_len (padme_len len)) = p"
    using padme_len_nat [of "padme_len len"] u np n(1) p63 round_up_dvd [OF dv] by simp
  then have "padme_len (padme_len len) = padme_len len" using u by (simp add: word_unat_eq_iff)
  then show ?thesis using u np pn k8 by (simp add: word_le_nat_alt n_def)
qed

theorem padme_len_bounds_witness:
  "(9 :: u64) \<le> padme_len 9 \<and> unat (padme_len 9) \<le> 10 \<and> padme_len (padme_len 9) = padme_len 9"
  using padme_len_bounds [of 9] by simp

section \<open>File chunks\<close>






end
