(* ===== verification/Addr_Text.thy ===== *)
theory Addr_Text
  imports Strings
begin

text \<open>
  What the code asks of the standard library's number and address parsers: whether a text is a \<open>u16\<close>
  (\<open>u16::from_str\<close>) and whether it is a socket address (\<open>SocketAddr::from_str\<close>). A reader takes the text
  and returns what is left of it, or \<open>None\<close>, in which case the position is as before.
\<close>

definition digit_value :: "nat \<Rightarrow> byte \<Rightarrow> nat option" where
  "digit_value radix b =
     (let n = unat b;
          v = (if 48 \<le> n \<and> n \<le> 57 then Some (n - 48)
               else if 97 \<le> n \<and> n \<le> 122 then Some (n - 87)
               else if 65 \<le> n \<and> n \<le> 90 then Some (n - 55)
               else None)
      in case v of None \<Rightarrow> None | Some d \<Rightarrow> if d < radix then Some d else None)"

definition is_digit :: "nat \<Rightarrow> byte \<Rightarrow> bool" where
  "is_digit radix b \<longleftrightarrow> digit_value radix b \<noteq> None"

fun digits_value :: "nat \<Rightarrow> nat \<Rightarrow> bytes \<Rightarrow> nat" where
  "digits_value radix acc [] = acc"
| "digits_value radix acc (b # bs) =
     digits_value radix (acc * radix + (case digit_value radix b of None \<Rightarrow> 0 | Some d \<Rightarrow> d)) bs"

text \<open>\<open>str::parse::<u16>()\<close>: an optional plus sign and decimal digits, with no more than 65535 as value.\<close>

definition is_u16 :: "bytes \<Rightarrow> bool" where
  "is_u16 s =
     (let t = (case s of b # r \<Rightarrow> if b = 43 then r else s | [] \<Rightarrow> [])
      in t \<noteq> [] \<and> list_all (is_digit 10) t \<and> digits_value 10 0 t < 65536)"

text \<open>\<open>Parser::read_number\<close>: the digits at the front, at most \<open>max_digits\<close> of them, with a value below \<open>bound\<close>.\<close>

definition read_number :: "nat \<Rightarrow> nat option \<Rightarrow> bool \<Rightarrow> nat \<Rightarrow> bytes \<Rightarrow> bytes option" where
  "read_number radix max_digits allow_zero_prefix bound s =
     (let ds = takeWhile (is_digit radix) s in
      if ds = [] then None
      else if (case max_digits of None \<Rightarrow> False | Some m \<Rightarrow> length ds > m) then None
      else if \<not> allow_zero_prefix \<and> hd ds = 48 \<and> length ds > 1 then None
      else if digits_value radix 0 ds \<ge> bound then None
      else Some (drop (length ds) s))"

definition read_given_char :: "byte \<Rightarrow> bytes \<Rightarrow> bytes option" where
  "read_given_char c s = (case s of b # r \<Rightarrow> if b = c then Some r else None | [] \<Rightarrow> None)"

definition read_separator :: "byte \<Rightarrow> nat \<Rightarrow> (bytes \<Rightarrow> bytes option) \<Rightarrow> bytes \<Rightarrow> bytes option" where
  "read_separator sep index inner s =
     (if index > 0 then Option.bind (read_given_char sep s) inner else inner s)"

definition read_ipv4_addr :: "bytes \<Rightarrow> bytes option" where
  "read_ipv4_addr s =
     (let octet = \<lambda>i. read_separator 46 i (read_number 10 (Some 3) False 256)
      in Option.bind (octet 0 s) (\<lambda>s. Option.bind (octet 1 s) (\<lambda>s. Option.bind (octet 2 s) (octet 3))))"

text \<open>The groups of an IPv6 address: how many were read, and whether they ended in an IPv4 address.\<close>

function read_groups :: "nat \<Rightarrow> nat \<Rightarrow> bytes \<Rightarrow> nat \<times> bool \<times> bytes" where
  "read_groups limit i s =
     (if i \<ge> limit then (limit, False, s)
      else
        case (if i < limit - 1 then read_separator 58 i read_ipv4_addr s else None) of
          Some r \<Rightarrow> (i + 2, True, r)
        | None \<Rightarrow>
            (case read_separator 58 i (read_number 16 (Some 4) True 65536) s of
               Some r \<Rightarrow> read_groups limit (Suc i) r
             | None \<Rightarrow> (i, False, s)))"
  by pat_completeness auto
termination
  by (relation "measure (\<lambda>(limit, i, s). limit - i)") auto

declare read_groups.simps [simp del]

definition read_ipv6_addr :: "bytes \<Rightarrow> bytes option" where
  "read_ipv6_addr s =
     (case read_groups 8 0 s of
        (head_size, head_ipv4, r) \<Rightarrow>
          if head_size = 8 then Some r
          else if head_ipv4 then None
          else Option.bind (read_given_char 58 r) (\<lambda>r. Option.bind (read_given_char 58 r) (\<lambda>r.
                 case read_groups (8 - (head_size + 1)) 0 r of (_, _, r) \<Rightarrow> Some r)))"

definition read_port :: "bytes \<Rightarrow> bytes option" where
  "read_port s = Option.bind (read_given_char 58 s) (read_number 10 None True 65536)"

definition read_scope_id :: "bytes \<Rightarrow> bytes" where
  "read_scope_id s =
     (case Option.bind (read_given_char 37 s) (read_number 10 None True (2 ^ 32)) of None \<Rightarrow> s | Some r \<Rightarrow> r)"

definition is_socket_addr :: "bytes \<Rightarrow> bool" where
  "is_socket_addr s =
     (case Option.bind (read_ipv4_addr s) read_port of
        Some r \<Rightarrow> r = []
      | None \<Rightarrow>
          Option.bind (read_given_char 91 s) (\<lambda>s. Option.bind (read_ipv6_addr s) (\<lambda>s.
            Option.bind (read_given_char 93 (read_scope_id s)) read_port)) = Some [])"

text \<open>\<open>rsplit_once\<close>: the parts before and after the last occurrence.\<close>

definition rsplit_once :: "byte \<Rightarrow> bytes \<Rightarrow> (bytes \<times> bytes) option" where
  "rsplit_once c s =
     (if c \<in> set s
      then Some (rev (tl (dropWhile (\<lambda>b. b \<noteq> c) (rev s))), rev (takeWhile (\<lambda>b. b \<noteq> c) (rev s)))
      else None)"

lemma rsplit_once_Some:
  assumes "rsplit_once c s = Some (a, b)"
  shows "s = a @ c # b \<and> c \<notin> set b"
proof -
  have c: "c \<in> set (rev s)" and a: "a = rev (tl (dropWhile (\<lambda>b. b \<noteq> c) (rev s)))"
    and b: "b = rev (takeWhile (\<lambda>b. b \<noteq> c) (rev s))"
    using assms by (auto simp: rsplit_once_def split: if_splits)
  have "dropWhile (\<lambda>b. b \<noteq> c) (rev s) = c # tl (dropWhile (\<lambda>b. b \<noteq> c) (rev s))"
    using c by (metis (mono_tags, lifting) dropWhile_eq_Nil_conv hd_Cons_tl hd_dropWhile)
  then have "rev s = takeWhile (\<lambda>b. b \<noteq> c) (rev s) @ c # tl (dropWhile (\<lambda>b. b \<noteq> c) (rev s))"
    by (metis takeWhile_dropWhile_id)
  then have "s = a @ c # b" unfolding a b by (metis append.assoc append_Cons append_Nil rev.simps(2) rev_append rev_rev_ident)
  moreover have "c \<notin> set b" unfolding b by (auto dest: set_takeWhileD)
  ultimately show ?thesis by simp
qed

end
