(* ===== verification/Base64_Url.thy ===== *)
theory Base64_Url
  imports Strings
begin

text \<open>
  Unpadded base64 in the URL alphabet (\<open>crates/rpc/src/control.rs\<close>), the text form of a join string. The
  code packs three bytes into a \<open>u32\<close> and takes four groups of six bits from it; the decoder is its
  inverse on everything the encoder writes.
\<close>

unbundle bit_operations_syntax

section \<open>Definitions\<close>

definition BASE64URL :: bytes where
  "BASE64URL = ascii_bytes ''ABCDEFGHIJKLMNOPQRSTUVWXYZabcdefghijklmnopqrstuvwxyz0123456789-_''"

definition base64_symbol :: "u32 \<Rightarrow> nat \<Rightarrow> byte" where
  "base64_symbol value shift = BASE64URL ! unat (drop_bit shift value AND 0x3f)"

definition encoded_base64_len :: "nat \<Rightarrow> nat" where
  "encoded_base64_len len = (len div 3) * 4 + (if len mod 3 = 0 then 0 else if len mod 3 = 1 then 2 else 3)"

fun encode_base64url_no_pad :: "bytes \<Rightarrow> bytes" where
  "encode_base64url_no_pad (a # b # c # rest) =
     (let value = push_bit 16 (ucast a) OR push_bit 8 (ucast b) OR ucast c :: u32
      in base64_symbol value 18 # base64_symbol value 12 # base64_symbol value 6 # base64_symbol value 0
         # encode_base64url_no_pad rest)"
| "encode_base64url_no_pad [a] =
     (let value = push_bit 16 (ucast a) :: u32 in [base64_symbol value 18, base64_symbol value 12])"
| "encode_base64url_no_pad [a, b] =
     (let value = push_bit 16 (ucast a) OR push_bit 8 (ucast b) :: u32
      in [base64_symbol value 18, base64_symbol value 12, base64_symbol value 6])"
| "encode_base64url_no_pad [] = []"

datatype base64_error = PayloadEmpty | PayloadPadding | PayloadLength | PayloadData

definition decode_base64url_byte :: "byte \<Rightarrow> (base64_error, byte) result" where
  "decode_base64url_byte b =
     (if 65 \<le> b \<and> b \<le> 90 then Inr (b - 65)
      else if 97 \<le> b \<and> b \<le> 122 then Inr (b - 97 + 26)
      else if 48 \<le> b \<and> b \<le> 57 then Inr (b - 48 + 52)
      else if b = 45 then Inr 62
      else if b = 95 then Inr 63
      else Inl PayloadData)"

text \<open>The loop over groups of four symbols and the two or three symbols that may follow.\<close>

fun decode_base64_groups :: "bytes \<Rightarrow> (base64_error, bytes) result" where
  "decode_base64_groups (a # b # c # d # rest) =
     rbind (decode_base64url_byte a) (\<lambda>a.
     rbind (decode_base64url_byte b) (\<lambda>b.
     rbind (decode_base64url_byte c) (\<lambda>c.
     rbind (decode_base64url_byte d) (\<lambda>d.
       let packed = push_bit 18 (ucast a) OR push_bit 12 (ucast b) OR push_bit 6 (ucast c) OR ucast d :: u32
       in rbind (decode_base64_groups rest) (\<lambda>out.
            Inr (ucast (drop_bit 16 packed AND 0xff) # ucast (drop_bit 8 packed AND 0xff)
                 # ucast (packed AND 0xff) # out))))))"
| "decode_base64_groups [a, b, c] =
     rbind (decode_base64url_byte a) (\<lambda>a.
     rbind (decode_base64url_byte b) (\<lambda>b.
     rbind (decode_base64url_byte c) (\<lambda>c.
       let packed = push_bit 18 (ucast a) OR push_bit 12 (ucast b) OR push_bit 6 (ucast c) :: u32
       in Inr [ucast (drop_bit 16 packed AND 0xff), ucast (drop_bit 8 packed AND 0xff)])))"
| "decode_base64_groups [a, b] =
     rbind (decode_base64url_byte a) (\<lambda>a.
     rbind (decode_base64url_byte b) (\<lambda>b.
       let packed = push_bit 18 (ucast a) OR push_bit 12 (ucast b) :: u32
       in Inr [ucast (drop_bit 16 packed AND 0xff)]))"
| "decode_base64_groups [a] = Inl PayloadLength"
| "decode_base64_groups [] = Inr []"

definition decode_base64url_no_pad :: "bytes \<Rightarrow> (base64_error, bytes) result" where
  "decode_base64url_no_pad value =
     (if value = [] then Inl PayloadEmpty
      else if 61 \<in> set value then Inl PayloadPadding
      else if length value mod 4 = 1 then Inl PayloadLength
      else decode_base64_groups value)"

section \<open>Round trip\<close>

lemma symbols_ok:
  "list_all (\<lambda>n. decode_base64url_byte (BASE64URL ! n) = Inr (of_nat n) \<and> BASE64URL ! n \<noteq> 61 \<and> graphic (BASE64URL ! n)) [0..<64]"
  by (simp add: BASE64URL_def ascii_bytes_def decode_base64url_byte_def graphic_def upt_conv_Cons)

lemma decode_symbol:
  "decode_base64url_byte (base64_symbol value shift) = Inr (ucast (drop_bit shift value AND 0x3f))"
  "base64_symbol value shift \<noteq> 61" "graphic (base64_symbol value shift)"
proof -
  let ?n = "unat (drop_bit shift value AND 0x3f)"
  have "drop_bit shift value AND 0x3f \<le> 0x3f" by (rule word_and_le1)
  then have "?n < 64" by (simp add: word_le_nat_alt)
  then have "decode_base64url_byte (BASE64URL ! ?n) = Inr (of_nat ?n) \<and> BASE64URL ! ?n \<noteq> 61 \<and> graphic (BASE64URL ! ?n)"
    using symbols_ok by (simp add: list_all_iff del: upt_Suc)
  then show "decode_base64url_byte (base64_symbol value shift) = Inr (ucast (drop_bit shift value AND 0x3f))"
    "base64_symbol value shift \<noteq> 61" "graphic (base64_symbol value shift)"
    by (simp_all add: base64_symbol_def)
qed

lemma masks: "(0x3f :: u32) = mask 6" "(0xff :: u32) = mask 8"
  by (simp_all add: mask_eq_exp_minus_1)

lemma six_bits: "bit (ucast (ucast (drop_bit k (v :: u32) AND 0x3f) :: byte) :: u32) n \<longleftrightarrow> n < 6 \<and> bit v (k + n)"
proof -
  have "bit v (k + n) \<Longrightarrow> n < 32" using bit_imp_le_length [of v "k + n"] by simp
  then show ?thesis by (auto simp: bit_simps masks)
qed

definition six :: "nat \<Rightarrow> u32 \<Rightarrow> u32" where
  "six k v = push_bit k (ucast (ucast (drop_bit k v AND 0x3f) :: byte))"

lemma bit_six: "bit (six k v) n \<longleftrightarrow> k \<le> n \<and> n < k + 6 \<and> n < 32 \<and> bit v n"
  by (auto simp: six_def bit_push_bit_iff six_bits)

lemma repack:
  "six 18 v OR six 12 v OR six 6 v OR six 0 v = v AND mask 24"
  "six 18 v OR six 12 v OR six 6 v = v AND mask 24 AND NOT (mask 6)"
  "six 18 v OR six 12 v = v AND mask 24 AND NOT (mask 12)"
proof -
  show "six 18 v OR six 12 v OR six 6 v OR six 0 v = v AND mask 24"
    by (rule bit_word_eqI) (auto simp: bit_or_iff bit_and_iff bit_mask_iff bit_six)
  show "six 18 v OR six 12 v OR six 6 v = v AND mask 24 AND NOT (mask 6)"
    by (rule bit_word_eqI) (auto simp: bit_or_iff bit_and_iff bit_mask_iff bit_not_iff bit_six)
  show "six 18 v OR six 12 v = v AND mask 24 AND NOT (mask 12)"
    by (rule bit_word_eqI) (auto simp: bit_or_iff bit_and_iff bit_mask_iff bit_not_iff bit_six)
qed

lemma ucast_byte_bits: "bit (ucast (a :: byte) :: u32) n \<longleftrightarrow> n < 8 \<and> bit a n"
  using bit_imp_le_length [of a n] by (auto simp: bit_simps)

lemma take_byte:
  assumes "\<And>n. n < 8 \<Longrightarrow> bit (w :: u32) (k + n) = bit (a :: byte) n" and "k \<le> 24"
  shows "(ucast (drop_bit k w AND 0xff) :: byte) = a"
  by (rule bit_word_eqI) (use assms in \<open>auto simp: masks bit_simps\<close>)

lemma three_bytes:
  fixes a b c :: byte
  defines "v \<equiv> push_bit 16 (ucast a) OR push_bit 8 (ucast b) OR ucast c :: u32"
  shows "(ucast (drop_bit 16 (v AND mask 24) AND 0xff) :: byte) = a" "(ucast (drop_bit 8 (v AND mask 24) AND 0xff) :: byte) = b"
    "(ucast (drop_bit 0 (v AND mask 24) AND 0xff) :: byte) = c"
proof -
  note bits = bit_or_iff bit_and_iff bit_mask_iff bit_push_bit_iff ucast_byte_bits v_def
  show "(ucast (drop_bit 16 (v AND mask 24) AND 0xff) :: byte) = a" by (rule take_byte) (auto simp: bits)
  show "(ucast (drop_bit 8 (v AND mask 24) AND 0xff) :: byte) = b" by (rule take_byte) (auto simp: bits)
  show "(ucast (drop_bit 0 (v AND mask 24) AND 0xff) :: byte) = c" by (rule take_byte) (auto simp: bits)
qed

lemma two_bytes:
  fixes a b :: byte
  defines "v \<equiv> push_bit 16 (ucast a) OR push_bit 8 (ucast b) :: u32"
  shows "(ucast (drop_bit 16 (v AND mask 24 AND NOT (mask 6)) AND 0xff) :: byte) = a"
    "(ucast (drop_bit 8 (v AND mask 24 AND NOT (mask 6)) AND 0xff) :: byte) = b"
proof -
  note bits = bit_or_iff bit_and_iff bit_mask_iff bit_not_iff bit_push_bit_iff ucast_byte_bits v_def
  show "(ucast (drop_bit 16 (v AND mask 24 AND NOT (mask 6)) AND 0xff) :: byte) = a" by (rule take_byte) (auto simp: bits)
  show "(ucast (drop_bit 8 (v AND mask 24 AND NOT (mask 6)) AND 0xff) :: byte) = b" by (rule take_byte) (auto simp: bits)
qed

lemma one_byte:
  fixes a :: byte
  defines "v \<equiv> push_bit 16 (ucast a) :: u32"
  shows "(ucast (drop_bit 16 (v AND mask 24 AND NOT (mask 12)) AND 0xff) :: byte) = a"
  by (rule take_byte) (auto simp: bit_and_iff bit_mask_iff bit_not_iff bit_push_bit_iff ucast_byte_bits v_def)

lemma repack4:
  fixes v :: u32
  shows "push_bit 18 (ucast (ucast (drop_bit 18 v AND 0x3f) :: byte)) OR push_bit 12 (ucast (ucast (drop_bit 12 v AND 0x3f) :: byte))
      OR push_bit 6 (ucast (ucast (drop_bit 6 v AND 0x3f) :: byte)) OR ucast (ucast (drop_bit 0 v AND 0x3f) :: byte) = v AND mask 24"
  using repack(1) [of v] by (simp add: six_def)

lemma decode_four:
  "decode_base64_groups (base64_symbol v 18 # base64_symbol v 12 # base64_symbol v 6 # base64_symbol v 0 # rest) =
     rbind (decode_base64_groups rest) (\<lambda>out. Inr (ucast (drop_bit 16 (v AND mask 24) AND 0xff)
       # ucast (drop_bit 8 (v AND mask 24) AND 0xff) # ucast ((v AND mask 24) AND 0xff) # out))"
  by (simp only: decode_base64_groups.simps decode_symbol rbind_simps Let_def repack4)

lemma decode_three:
  "decode_base64_groups [base64_symbol v 18, base64_symbol v 12, base64_symbol v 6] =
     Inr [ucast (drop_bit 16 (v AND mask 24 AND NOT (mask 6)) AND 0xff), ucast (drop_bit 8 (v AND mask 24 AND NOT (mask 6)) AND 0xff)]"
  by (simp only: decode_base64_groups.simps decode_symbol rbind_simps Let_def repack(2) [unfolded six_def])

lemma decode_two:
  "decode_base64_groups [base64_symbol v 18, base64_symbol v 12] = Inr [ucast (drop_bit 16 (v AND mask 24 AND NOT (mask 12)) AND 0xff)]"
  by (simp only: decode_base64_groups.simps decode_symbol rbind_simps Let_def repack(3) [unfolded six_def])

lemma decode_groups_encode: "decode_base64_groups (encode_base64url_no_pad bs) = Inr bs"
proof (induction bs rule: encode_base64url_no_pad.induct)
  case (1 a b c rest)
  then show ?case
    by (simp only: encode_base64url_no_pad.simps Let_def decode_four three_bytes three_bytes(3) [unfolded drop_bit_0 id_apply] rbind_simps)
next
  case (2 a)
  show ?case by (simp only: encode_base64url_no_pad.simps Let_def decode_two one_byte)
next
  case (3 a b)
  show ?case by (simp only: encode_base64url_no_pad.simps Let_def decode_three two_bytes)
qed simp

lemma length_encode_base64: "length (encode_base64url_no_pad bs) = encoded_base64_len (length bs)"
proof (induction bs rule: encode_base64url_no_pad.induct)
  case (1 a b c rest)
  have "(3 + n) div 3 = Suc (n div 3)" for n :: nat by simp
  with 1 show ?case by (simp add: encoded_base64_len_def Let_def)
qed (simp_all add: encoded_base64_len_def Let_def)

lemma encode_base64_symbols: "list_all (\<lambda>b. graphic b \<and> b \<noteq> 61) (encode_base64url_no_pad bs)"
  by (induction bs rule: encode_base64url_no_pad.induct) (simp_all add: Let_def decode_symbol)

lemma encoded_base64_len_mod: "encoded_base64_len n mod 4 \<noteq> 1"
  by (simp add: encoded_base64_len_def)

lemma base64url_round_trip: "bs \<noteq> [] \<Longrightarrow> decode_base64url_no_pad (encode_base64url_no_pad bs) = Inr bs"
proof -
  assume "bs \<noteq> []"
  then have "encode_base64url_no_pad bs \<noteq> []" by (cases bs rule: encode_base64url_no_pad.cases) (simp_all add: Let_def)
  moreover have "61 \<notin> set (encode_base64url_no_pad bs)" using encode_base64_symbols [of bs] by (auto simp: list_all_iff)
  ultimately show ?thesis
    using encoded_base64_len_mod [of "length bs"]
    by (simp add: decode_base64url_no_pad_def decode_groups_encode length_encode_base64)
qed

end
