(* ===== verification/Base32.thy ===== *)
theory Base32
  imports Prelude
begin

text \<open>
  Unpadded Crockford base32 (\<open>crates/rpc/src/base32.rs\<close>), the text form of pairing tickets,
  identity cards and link secrets. The code shifts bytes through a \<open>u32\<close> accumulator; the
  specification is a plain regrouping of a bit stream, eight bits a byte against five bits a
  symbol, and the accumulator loops are proved to compute it.
\<close>

unbundle bit_operations_syntax

section \<open>Definitions\<close>

definition ALPHABET :: string where
  "ALPHABET = ''0123456789abcdefghjkmnpqrstvwxyz''"

definition encode_value :: "byte \<Rightarrow> char" where
  "encode_value value = ALPHABET ! unat (value AND 31)"

definition to_ascii_lowercase :: "char \<Rightarrow> char" where
  "to_ascii_lowercase c =
     (let n = (of_char c :: nat) in if 65 \<le> n \<and> n \<le> 90 then char_of (n + 32) else c)"

fun position :: "'a \<Rightarrow> 'a list \<Rightarrow> nat option" where
  "position x [] = None"
| "position x (y # ys) = (if y = x then Some 0 else map_option Suc (position x ys))"

definition decode_value :: "char \<Rightarrow> byte option" where
  "decode_value byte =
     (let lower = to_ascii_lowercase byte;
          byte = (if lower = CHR ''i'' \<or> lower = CHR ''l'' then CHR ''1''
                  else if lower = CHR ''o'' then CHR ''0''
                  else lower)
      in map_option of_nat (position byte ALPHABET))"

text \<open>The inner \<open>while bits >= 5\<close> and the outer \<open>for\<close> loop of \<open>encode\<close>.\<close>

fun encode_flush :: "u32 \<Rightarrow> nat \<Rightarrow> string \<Rightarrow> nat \<times> string" where
  "encode_flush accumulator bits out =
     (if bits \<ge> 5 then
        encode_flush accumulator (bits - 5)
          (out @ [encode_value (ucast ((drop_bit (bits - 5) accumulator) AND 31))])
      else (bits, out))"

declare encode_flush.simps [simp del]

fun encode_loop :: "bytes \<Rightarrow> u32 \<Rightarrow> nat \<Rightarrow> string \<Rightarrow> u32 \<times> nat \<times> string" where
  "encode_loop [] accumulator bits out = (accumulator, bits, out)"
| "encode_loop (byte # rest) accumulator bits out =
     (let accumulator = push_bit 8 accumulator OR ucast byte in
      case encode_flush accumulator (bits + 8) out of
        (bits, out) \<Rightarrow> encode_loop rest accumulator bits out)"

definition base32_encode :: "bytes \<Rightarrow> string" where
  "base32_encode bs =
     (case encode_loop bs 0 0 [] of
        (accumulator, bits, out) \<Rightarrow>
          if bits > 0
          then out @ [encode_value (ucast ((push_bit (5 - bits) accumulator) AND 31))]
          else out)"

fun decode_loop :: "string \<Rightarrow> u32 \<Rightarrow> nat \<Rightarrow> bytes \<Rightarrow> (u32 \<times> nat \<times> bytes) option" where
  "decode_loop [] accumulator bits out = Some (accumulator, bits, out)"
| "decode_loop (byte # rest) accumulator bits out =
     (case decode_value byte of
        None \<Rightarrow> None
      | Some v \<Rightarrow>
          let accumulator = push_bit 5 accumulator OR ucast v;
              bits = bits + 5
          in if bits \<ge> 8 then
               let bits = bits - 8 in
               decode_loop rest (accumulator AND (push_bit bits 1 - 1)) bits
                 (out @ [ucast (drop_bit bits accumulator)])
             else decode_loop rest accumulator bits out)"

definition base32_decode :: "string \<Rightarrow> bytes option" where
  "base32_decode value =
     (case decode_loop value 0 0 [] of
        None \<Rightarrow> None
      | Some (accumulator, bits, out) \<Rightarrow>
          if bits > 0 \<and> accumulator \<noteq> 0 then None else Some out)"

section \<open>The specification: regrouping a bit stream\<close>

text \<open>\<open>msb_bits k w\<close> is the low \<open>k\<close> bits of \<open>w\<close>, most significant first.\<close>

definition msb_bits :: "nat \<Rightarrow> 'a::len word \<Rightarrow> bool list" where
  "msb_bits k w = map (bit w) (rev [0..<k])"

definition byte_bits :: "bytes \<Rightarrow> bool list" where
  "byte_bits bs = concat (map (msb_bits 8) bs)"

text \<open>The bits a text stands for, five a symbol; \<open>None\<close> when a symbol is not base32.\<close>

fun symbol_bits :: "string \<Rightarrow> bool list option" where
  "symbol_bits [] = Some []"
| "symbol_bits (c # cs) =
     (case decode_value c of
        None \<Rightarrow> None
      | Some v \<Rightarrow> map_option ((@) (msb_bits 5 v)) (symbol_bits cs))"

lemma length_msb_bits [simp]: "length (msb_bits k w) = k"
  by (simp add: msb_bits_def)

lemma length_byte_bits [simp]: "length (byte_bits bs) = 8 * length bs"
  by (induction bs) (simp_all add: byte_bits_def)

lemma byte_bits_simps [simp]:
  "byte_bits [] = []" "byte_bits (b # bs) = msb_bits 8 b @ byte_bits bs"
  "byte_bits (xs @ ys) = byte_bits xs @ byte_bits ys"
  by (simp_all add: byte_bits_def)

lemma msb_bits_nth: "i < k \<Longrightarrow> msb_bits k w ! i = bit w (k - Suc i)"
  by (simp add: msb_bits_def rev_nth)

lemma msb_bits_eqI: "(\<And>n. n < k \<Longrightarrow> bit v n = bit w n) \<Longrightarrow> msb_bits k v = msb_bits k w"
  by (simp add: msb_bits_def)

lemma msb_bits_0 [simp]: "msb_bits 0 w = []"
  by (simp add: msb_bits_def)

text \<open>Shifting a chunk into the accumulator appends its bits.\<close>

lemma msb_bits_shift_in:
  fixes acc :: u32 and v :: byte
  assumes "k + n \<le> 32" and "\<And>i. n \<le> i \<Longrightarrow> \<not> bit v i"
  shows "msb_bits (k + n) (push_bit n acc OR ucast v) = msb_bits k acc @ msb_bits n v"
proof (rule nth_equalityI)
  fix i assume i: "i < length (msb_bits (k + n) (push_bit n acc OR ucast v))"
  show "msb_bits (k + n) (push_bit n acc OR ucast v) ! i = (msb_bits k acc @ msb_bits n v) ! i"
  proof (cases "i < k")
    case True
    with assms(1) assms(2) [of "k + n - Suc i"] show ?thesis
      by (auto simp: nth_append msb_bits_nth bit_simps)
  next
    case False
    with i assms(1) have "k + n - Suc i = n - Suc (i - k)" "n - Suc (i - k) < n" by auto
    with False i assms(1) show ?thesis
      by (auto simp: nth_append msb_bits_nth bit_simps)
  qed
qed simp

text \<open>Reading at an offset takes the leading bits.\<close>

lemma msb_bits_drop: "msb_bits n (drop_bit m (w :: 'a::len word)) = take n (msb_bits (m + n) w)"
proof (rule nth_equalityI)
  fix i assume "i < length (msb_bits n (drop_bit m w))"
  then have "i < n" and "m + (n - Suc i) = m + n - Suc i" by simp_all
  then show "msb_bits n (drop_bit m w) ! i = take n (msb_bits (m + n) w) ! i"
    by (simp add: msb_bits_nth bit_simps)
qed simp

lemma msb_bits_low: "msb_bits m w = drop n (msb_bits (m + n) (w :: 'a::len word))"
  by (rule nth_equalityI) (simp_all add: msb_bits_nth)

lemma msb_bits_split: "msb_bits (m + n) w = msb_bits n (drop_bit m w) @ msb_bits m (w :: 'a::len word)"
  using msb_bits_drop [of n m w] msb_bits_low [of m w n] by simp


section \<open>The loops compute the specification\<close>

lemma symbol_bits_append:
  "symbol_bits (xs @ ys) =
     (case symbol_bits xs of None \<Rightarrow> None | Some a \<Rightarrow> map_option ((@) a) (symbol_bits ys))"
  by (induction xs; cases "symbol_bits ys") (auto split: option.splits)

lemma position_nth: "distinct xs \<Longrightarrow> n < length xs \<Longrightarrow> position (xs ! n) xs = Some n"
  by (induction xs arbitrary: n) (auto simp: nth_Cons split: nat.splits)

lemma ALPHABET_distinct: "distinct ALPHABET"
  by (simp add: ALPHABET_def)

lemma length_ALPHABET [simp]: "length ALPHABET = 32"
  by (simp add: ALPHABET_def)

lemma ALPHABET_lower:
  "list_all (\<lambda>c. to_ascii_lowercase c = c \<and> c \<notin> {CHR ''i'', CHR ''l'', CHR ''o''}) ALPHABET"
  by (simp add: ALPHABET_def to_ascii_lowercase_def)

lemma decode_encode_nat: "n < 32 \<Longrightarrow> decode_value (ALPHABET ! n) = Some (of_nat n)"
  using ALPHABET_lower position_nth [OF ALPHABET_distinct, of n]
  by (auto simp: decode_value_def Let_def list_all_length)

lemma and_31_bound: "unat ((v :: byte) AND 31) < 32"
proof -
  have "v AND 31 = take_bit 5 v" by (simp add: take_bit_eq_mask mask_numeral)
  then show ?thesis using take_bit_nat_less_exp [of 5 "unat v"] by (simp add: unsigned_take_bit_eq)
qed

lemma decode_encode_value: "decode_value (encode_value v) = Some (v AND 31)"
  using decode_encode_nat [OF and_31_bound [of v]] by (simp add: encode_value_def)

lemma bit_31: "bit (31 :: byte) n \<longleftrightarrow> n < 5" "bit (31 :: u32) n \<longleftrightarrow> n < 5"
  using bit_mask_iff [of 5 n, where ?'a = byte] bit_mask_iff [of 5 n, where ?'a = u32]
  by (auto simp: mask_numeral dest: bit_imp_le_length)

lemma symbol_of_acc:
  "decode_value (encode_value (ucast ((acc :: u32) AND 31))) = Some v \<Longrightarrow> msb_bits 5 v = msb_bits 5 acc"
  by (rule msb_bits_eqI)
    (simp only: decode_encode_value option.inject, auto simp only: bit_31 bit_and_iff bit_ucast_iff, simp)

lemma encode_flush_spec:
  "\<exists>syms sb. encode_flush acc bits out = (bits mod 5, out @ syms) \<and>
     symbol_bits syms = Some sb \<and> sb @ msb_bits (bits mod 5) acc = msb_bits bits acc"
proof (induction bits arbitrary: out rule: less_induct)
  case (less bits)
  show ?case
  proof (cases "5 \<le> bits")
    case False
    then show ?thesis by (subst encode_flush.simps) simp
  next
    case True
    let ?a = "drop_bit (bits - 5) acc"
    let ?c = "encode_value (ucast (?a AND 31))"
    obtain syms sb where ih: "encode_flush acc (bits - 5) (out @ [?c]) = ((bits - 5) mod 5, (out @ [?c]) @ syms)"
      "symbol_bits syms = Some sb" "sb @ msb_bits ((bits - 5) mod 5) acc = msb_bits (bits - 5) acc"
      using less.IH [of "bits - 5" "out @ [?c]"] True by auto
    have m: "(bits - 5) mod 5 = bits mod 5" using True by (metis le_mod_geq)
    have "encode_flush acc bits out = (bits mod 5, out @ (?c # syms))"
      using True ih(1) m by (subst encode_flush.simps) simp
    moreover obtain v where v: "decode_value ?c = Some v" by (simp add: decode_encode_value)
    then have "symbol_bits (?c # syms) = Some (msb_bits 5 ?a @ sb)"
      using ih(2) symbol_of_acc [OF v] by simp
    moreover have "(msb_bits 5 ?a @ sb) @ msb_bits (bits mod 5) acc = msb_bits bits acc"
      using ih(3) m True msb_bits_split [of "bits - 5" 5 acc] by simp
    ultimately show ?thesis by blast
  qed
qed

lemma byte_high_bits: "8 \<le> i \<Longrightarrow> \<not> bit (v :: byte) i"
  by (auto dest: bit_imp_le_length)

lemma encode_loop_spec:
  assumes "bits < 5"
  shows "\<exists>acc' bits' syms sb. encode_loop bs acc bits out = (acc', bits', out @ syms) \<and>
     bits' < 5 \<and> symbol_bits syms = Some sb \<and>
     sb @ msb_bits bits' acc' = msb_bits bits acc @ byte_bits bs"
  using assms
proof (induction bs arbitrary: acc bits out)
  case Nil
  then show ?case by auto
next
  case (Cons b bs)
  let ?acc = "push_bit 8 acc OR ucast b"
  obtain syms sb where f: "encode_flush ?acc (bits + 8) out = ((bits + 8) mod 5, out @ syms)"
    "symbol_bits syms = Some sb" "sb @ msb_bits ((bits + 8) mod 5) ?acc = msb_bits (bits + 8) ?acc"
    using encode_flush_spec by blast
  obtain acc' bits' syms' sb' where l:
    "encode_loop bs ?acc ((bits + 8) mod 5) (out @ syms) = (acc', bits', (out @ syms) @ syms')"
    "bits' < 5" "symbol_bits syms' = Some sb'"
    "sb' @ msb_bits bits' acc' = msb_bits ((bits + 8) mod 5) ?acc @ byte_bits bs"
    using Cons.IH [of "(bits + 8) mod 5" ?acc "out @ syms"] by auto
  have "encode_loop (b # bs) acc bits out = (acc', bits', out @ (syms @ syms'))"
    using f(1) l(1) by simp
  moreover have "symbol_bits (syms @ syms') = Some (sb @ sb')"
    using f(2) l(3) by (simp add: symbol_bits_append)
  moreover have "(sb @ sb') @ msb_bits bits' acc' = msb_bits bits acc @ byte_bits (b # bs)"
  proof -
    have "msb_bits (bits + 8) ?acc = msb_bits bits acc @ msb_bits 8 b"
      using Cons.prems by (intro msb_bits_shift_in) (simp_all add: byte_high_bits)
    with f(3) l(4) show ?thesis by (metis append.assoc byte_bits_simps(2))
  qed
  ultimately show ?case using l(2) by blast
qed

lemma encode_pad_symbol:
  fixes acc :: u32
  assumes "bits < 5" and "decode_value (encode_value (ucast ((push_bit (5 - bits) acc) AND 31))) = Some v"
  shows "msb_bits 5 v = msb_bits bits acc @ replicate (5 - bits) False"
proof -
  have "msb_bits 5 v = msb_bits 5 (push_bit (5 - bits) acc)" using symbol_of_acc [OF assms(2)] .
  also have "\<dots> = msb_bits bits acc @ replicate (5 - bits) False"
    using assms(1) by (intro nth_equalityI) (auto simp: msb_bits_nth nth_append bit_simps)
  finally show ?thesis .
qed

lemma base32_encode_bits:
  "\<exists>pad. pad < 5 \<and> symbol_bits (base32_encode bs) = Some (byte_bits bs @ replicate pad False)"
proof -
  obtain acc bits syms sb where l: "encode_loop bs 0 0 [] = (acc, bits, syms)" "bits < 5"
    "symbol_bits syms = Some sb" "sb @ msb_bits bits acc = byte_bits bs"
    using encode_loop_spec [of 0 bs 0 "[]"] by auto
  let ?c = "encode_value (ucast ((push_bit (5 - bits) acc) AND 31))"
  obtain v where v: "decode_value ?c = Some v" by (simp add: decode_encode_value)
  show ?thesis
  proof (cases "bits = 0")
    case True
    with l show ?thesis by (intro exI [of _ 0]) (simp add: base32_encode_def)
  next
    case False
    with l v have "symbol_bits (base32_encode bs) = Some (sb @ msb_bits 5 v)"
      by (simp add: base32_encode_def symbol_bits_append)
    also have "sb @ msb_bits 5 v = byte_bits bs @ replicate (5 - bits) False"
      using encode_pad_symbol [OF l(2) v] l(4) by (metis append.assoc)
    finally show ?thesis using False by (intro exI [of _ "5 - bits"]) simp
  qed
qed

lemma decode_value_bits: "decode_value c = Some v \<Longrightarrow> 5 \<le> i \<Longrightarrow> \<not> bit v i"
proof -
  have pos: "position x xs = Some n \<Longrightarrow> n < length xs" for x :: char and xs n
    by (induction xs arbitrary: n) (auto split: if_splits)
  assume "decode_value c = Some v" and i: "5 \<le> i"
  then obtain n where n: "v = of_nat n" "n < 32"
    using pos [of _ ALPHABET] by (fastforce simp: decode_value_def Let_def)
  have "n < 2 ^ i" using n(2) power_increasing [OF i, of "2 :: nat"] by simp
  then have "\<not> bit n i" by (simp add: bit_iff_odd)
  with n(1) show ?thesis by (auto simp: bit_simps)
qed

definition acc_inv :: "u32 \<Rightarrow> nat \<Rightarrow> bool" where
  "acc_inv acc bits \<longleftrightarrow> bits < 8 \<and> (\<forall>i\<ge>bits. \<not> bit acc i)"

lemma all_False_iff: "xs = replicate (length xs) False \<longleftrightarrow> True \<notin> set xs"
  by (induction xs) auto

lemma acc_zero: "acc_inv acc bits \<Longrightarrow> acc = 0 \<longleftrightarrow> msb_bits bits acc = replicate bits False"
proof -
  assume inv: "acc_inv acc bits"
  have "msb_bits bits acc = replicate bits False \<longleftrightarrow> (\<forall>i<bits. \<not> bit acc i)"
    using all_False_iff [of "msb_bits bits acc"] by (auto simp: msb_bits_def)
  also have "\<dots> \<longleftrightarrow> acc = 0"
    using inv by (auto simp: acc_inv_def bit_eq_iff not_le [symmetric])
  finally show ?thesis by blast
qed

lemma decode_loop_spec:
  assumes "acc_inv acc bits"
  shows "case symbol_bits s of
      None \<Rightarrow> decode_loop s acc bits out = None
    | Some sb \<Rightarrow> \<exists>acc' bits' bs. decode_loop s acc bits out = Some (acc', bits', out @ bs) \<and>
        acc_inv acc' bits' \<and> byte_bits bs @ msb_bits bits' acc' = msb_bits bits acc @ sb"
  using assms
proof (induction s arbitrary: acc bits out)
  case Nil
  then show ?case by auto
next
  case (Cons c s)
  show ?case
  proof (cases "decode_value c")
    case None
    then show ?thesis by simp
  next
    case (Some v)
    let ?acc = "push_bit 5 acc OR ucast v"
    have shift: "msb_bits (bits + 5) ?acc = msb_bits bits acc @ msb_bits 5 v"
      using Cons.prems decode_value_bits [OF Some] by (intro msb_bits_shift_in) (auto simp: acc_inv_def)
    have high: "\<not> bit ?acc i" if "bits + 5 \<le> i" for i
      using that Cons.prems decode_value_bits [OF Some, of i]
      by (auto simp: bit_simps acc_inv_def)
    show ?thesis
    proof (cases "8 \<le> bits + 5")
      case False
      with high have "acc_inv ?acc (bits + 5)" by (simp add: acc_inv_def)
      from Cons.IH [OF this, of out] show ?thesis
        using Some False shift by (cases "symbol_bits s") auto
    next
      case True
      let ?m = "bits + 5 - 8"
      let ?acc' = "?acc AND (push_bit ?m 1 - 1)"
      have mask: "push_bit ?m 1 - 1 = (mask ?m :: u32)" by (simp add: mask_eq_decr_exp push_bit_eq_mult)
      have inv: "acc_inv ?acc' ?m"
        unfolding mask using Cons.prems by (auto simp: acc_inv_def bit_simps)
      have low: "msb_bits ?m ?acc' = msb_bits ?m ?acc"
        unfolding mask using Cons.prems by (intro msb_bits_eqI) (auto simp: bit_simps acc_inv_def)
      have top: "msb_bits 8 (ucast (drop_bit ?m ?acc) :: byte) = msb_bits 8 (drop_bit ?m ?acc)"
        by (rule msb_bits_eqI) (simp add: bit_ucast_iff)
      have split: "msb_bits (bits + 5) ?acc = msb_bits 8 (ucast (drop_bit ?m ?acc) :: byte) @ msb_bits ?m ?acc'"
        using msb_bits_split [of ?m 8 ?acc] True top low by (simp add: add.commute [of 5])
      from Cons.IH [OF inv, of "out @ [ucast (drop_bit ?m ?acc)]"] show ?thesis
        using Some True shift split
        by (cases "symbol_bits s") (auto simp: Let_def)
    qed
  qed
qed

text \<open>The bytes of a bit stream are determined by it, up to fewer than eight bits at the end.\<close>

lemma msb_bits_inj: "msb_bits 8 (a :: byte) = msb_bits 8 b \<Longrightarrow> a = b"
  by (rule bit_word_eqI) (simp add: msb_bits_def)

lemma byte_bits_unique:
  assumes "byte_bits xs @ r = byte_bits ys @ q" and "length r < 8" and "length q < 8"
  shows "xs = ys \<and> r = q"
  using assms(1)
proof (induction xs arbitrary: ys)
  case Nil
  then have "length r = length (byte_bits ys) + length q" by simp
  with assms(2) have "ys = []" by (cases ys) auto
  with Nil show ?case by simp
next
  case (Cons x xs)
  then have "length (byte_bits (x # xs)) + length r = length (byte_bits ys) + length q"
    by (metis length_append)
  with assms(3) obtain y ys' where ys: "ys = y # ys'" by (cases ys) auto
  with Cons.prems have "msb_bits 8 x = msb_bits 8 y" "byte_bits xs @ r = byte_bits ys' @ q"
    by simp_all
  with Cons.IH ys msb_bits_inj show ?case by blast
qed

lemma base32_decode_of_bits:
  assumes "symbol_bits str = Some (byte_bits bs @ replicate pad False)" and "pad < 8"
  shows "base32_decode str = Some bs"
proof -
  obtain acc bits out where l: "decode_loop str 0 0 [] = Some (acc, bits, out)"
    "acc_inv acc bits" "byte_bits out @ msb_bits bits acc = byte_bits bs @ replicate pad False"
    using decode_loop_spec [of 0 0 str "[]"] assms(1) by (auto simp: acc_inv_def)
  from byte_bits_unique [OF l(3)] l(2) assms(2)
  have "out = bs" and r: "msb_bits bits acc = replicate pad False" by (simp_all add: acc_inv_def)
  moreover from r have "pad = bits" by (metis length_msb_bits length_replicate)
  ultimately show ?thesis using l acc_zero [OF l(2)] by (simp add: base32_decode_def)
qed

lemma base32_decode_bits:
  assumes "base32_decode str = Some bs"
  shows "\<exists>pad<8. symbol_bits str = Some (byte_bits bs @ replicate pad False)"
proof (cases "symbol_bits str")
  case None
  then show ?thesis
    using decode_loop_spec [of 0 0 str "[]"] assms by (simp add: base32_decode_def acc_inv_def)
next
  case (Some sb)
  then obtain acc bits out where l: "decode_loop str 0 0 [] = Some (acc, bits, out)"
    "acc_inv acc bits" "byte_bits out @ msb_bits bits acc = sb"
    using decode_loop_spec [of 0 0 str "[]"] by (auto simp: acc_inv_def)
  with assms have "out = bs" "bits = 0 \<or> acc = 0" by (auto simp: base32_decode_def split: if_splits)
  then have "out = bs" "msb_bits bits acc = replicate bits False" using acc_zero [OF l(2)] by auto
  with l Some show ?thesis by (auto simp: acc_inv_def)
qed

text \<open>
  C4. The base32 decoder accepts exactly the texts that spell whole bytes followed by fewer than
  eight zero bits, and returns those bytes: every symbol must be in the alphabet (in either
  case, with \<open>i\<close>, \<open>l\<close> and \<open>o\<close> read as digits) and padding bits must be zero.
\<close>

theorem base32_decode_exact:
  "base32_decode str = Some bs \<longleftrightarrow>
     (\<exists>pad<8. symbol_bits str = Some (byte_bits bs @ replicate pad False))"
  using base32_decode_of_bits base32_decode_bits by blast

lemma decode_value_lower: "decode_value (to_ascii_lowercase c) = decode_value c"
proof -
  have "to_ascii_lowercase (to_ascii_lowercase c) = to_ascii_lowercase c"
    by (simp add: to_ascii_lowercase_def Let_def)
  then show ?thesis by (simp add: decode_value_def Let_def)
qed

lemma symbol_bits_lower: "symbol_bits (map to_ascii_lowercase str) = symbol_bits str"
  by (induction str) (simp_all add: decode_value_lower split: option.split)

text \<open>
  Round trip. A text that agrees with \<open>encode bytes\<close> up to the case of its letters
  decodes to exactly \<open>bytes\<close>.
\<close>

theorem base32_round_trip:
  assumes "map to_ascii_lowercase str = base32_encode bs"
  shows "base32_decode str = Some bs"
proof -
  obtain pad where "pad < 5" "symbol_bits str = Some (byte_bits bs @ replicate pad False)"
    using base32_encode_bits [of bs] symbol_bits_lower [of str] assms by auto
  then show ?thesis using base32_decode_of_bits [of str bs pad] by simp
qed

theorem base32_round_trip_witness: "base32_decode ''ZW0g'' = Some [255, 1]"
  by (rule base32_round_trip)
    (simp add: base32_encode_def encode_flush.simps encode_value_def ALPHABET_def to_ascii_lowercase_def
      char_of_def bit_0)

end
