(* ===== verification/Control_Message.thy ===== *)
theory Control_Message
  imports Mls_Wire Addr_Text Base64_Url Base32
begin

text \<open>
  The messages of the control channel (\<open>crates/rpc/src/control.rs\<close>): what a client may send, the checks
  on it that run on both sides, and the join strings of invites with their base64 text. A \<open>String\<close> is
  its UTF-8 bytes. The binary form of a value is that of the crate \<open>jsony\<close> and is a parameter. Errors
  are the messages of the code, without the numbers that are formatted into two of them.
\<close>

section \<open>Definitions\<close>

definition MAX_CONTROL_PAYLOAD_BYTES :: nat where "MAX_CONTROL_PAYLOAD_BYTES = 224 * 1024"
definition MAX_FILE_CHUNK_BYTES :: nat where "MAX_FILE_CHUNK_BYTES = 192 * 1024"
definition MAX_FILE_NAME_BYTES :: nat where "MAX_FILE_NAME_BYTES = 255"
definition MAX_BUG_REPORT_DESC_BYTES :: nat where "MAX_BUG_REPORT_DESC_BYTES = 4 * 1024"
definition MAX_BUG_REPORT_METADATA_BYTES :: nat where "MAX_BUG_REPORT_METADATA_BYTES = 32 * 1024"
definition MAX_BUG_REPORT_BYTES :: u64 where "MAX_BUG_REPORT_BYTES = 8 * 1024 * 1024"
definition MAX_AUTH_FIELD_BYTES :: nat where "MAX_AUTH_FIELD_BYTES = 512"
definition MAX_VIDEO_CODEC_BYTES :: nat where "MAX_VIDEO_CODEC_BYTES = 64"
definition MAX_VIDEO_EXTRADATA_BYTES :: nat where "MAX_VIDEO_EXTRADATA_BYTES = 4 * 1024"
definition MIN_PAIRING_SECRET_BYTES :: nat where "MIN_PAIRING_SECRET_BYTES = 16"
definition MIN_PAIRED_TOKEN_BYTES :: nat where "MIN_PAIRED_TOKEN_BYTES = 32"
definition MAX_HISTORY_FETCH_MESSAGES :: u16 where "MAX_HISTORY_FETCH_MESSAGES = 500"
definition JOIN_STRING_PREFIX :: bytes where "JOIN_STRING_PREFIX = ascii_bytes ''tcj1_''"
definition MAX_JOIN_STRING_BYTES :: nat where "MAX_JOIN_STRING_BYTES = 4096"

datatype voice_state = Live | Muted | Deafened
datatype p2p_nat_kind = UnknownNat | Cone | Symmetric
datatype p2p_candidate_kind = Host | ServerReflexive | PeerReflexive | PortMapped | Relay

record p2p_candidate =
  pc_id :: u32
  pc_socket_id :: u32
  pc_generation :: u64
  pc_kind :: p2p_candidate_kind
  pc_addr :: bytes
  pc_priority :: u32
  pc_foundation :: bytes
  pc_verified :: bool

datatype (plugins only: code size) client_control =
    Authenticate bytes bytes bool u64
  | PairClient bytes bytes bytes bool u64
  | OpenPair bytes bytes bytes bool u64
  | CreateDeviceLink bytes bytes
  | CancelDeviceLink bytes
  | FetchDeviceLink bytes
  | RedeemDeviceLink bytes "128 word" roster_checkpoint signed_device_roster "published_key_package list" bytes bool u64
  | SendChat u32 bytes
  | SetVoiceState voice_state
  | PublishP2p u32 u64 p2p_nat_kind u64 "p2p_candidate list"
  | UploadFileStart u32 u64 bytes u64 file_content_encoding "event_id option"
  | UploadFileChunk u64 u64 bytes
  | UploadFileComplete u64
  | UploadFileCancel u64 bytes
  | StartShare u64 u32 bytes u32 u32 bytes
  | StopShare u32
  | ControlPing u64
  | BugReportStart u64 bytes bytes u64
  | BugReportChunk u64 u64 bytes
  | BugReportComplete u64
  | FetchHistory u32 "u64 option" u16
  | JoinVoice u32
  | LeaveVoice
  | OpenDm u64
  | SkipFile u64
  | EditChat u32 u64 bytes
  | DeleteChat u32 u64
  | FetchDeviceRoster u64
  | PutDeviceRoster "roster_checkpoint option" signed_device_roster
  | BindMlsDevice device_id roster_checkpoint bytes
  | PublishKeyPackages device_id "published_key_package list"
  | TakeKeyPackage device_id
  | CreateEncryptedRoom encrypted_room_descriptor "roster_checkpoint list" mls_commit_bundle
  | FetchGroupInfo u32
  | SubmitCommitBundle u32 u64 mls_commit_bundle
  | SubmitMlsApplication u32 u64 event_id bytes
  | FetchMlsEvents u32 u64 u16
  | FetchMlsWelcome u64
  | AckMlsEvent u32 u64
  | AckMlsWelcome u64

datatype control_error = ControlError string | MlsRejected mls_error | CodecError string

record control_codec =
  to_binary_control :: "client_control \<Rightarrow> bytes"
  from_binary_control :: "bytes \<Rightarrow> (string, client_control) result"
  to_binary_group :: "group_id_input \<Rightarrow> bytes"
  to_binary_client_hello :: "client_hello \<Rightarrow> bytes"
  from_binary_client_hello :: "bytes \<Rightarrow> (string, client_hello) result"
  to_binary_server_hello :: "server_hello \<Rightarrow> bytes"
  from_binary_server_hello :: "bytes \<Rightarrow> (string, server_hello) result"

definition bounded_decode ::
  "(bytes \<Rightarrow> (string, 'a) result) \<Rightarrow> bytes \<Rightarrow> (control_error, 'a) result" where
  "bounded_decode from_binary bs =
     (if length bs > MAX_CONTROL_PAYLOAD_BYTES then Inl (ControlError ''control payload exceeds maximum length'')
      else map_err CodecError (from_binary bs))"

subsection \<open>Validation\<close>

definition reject_if :: "bool \<Rightarrow> string \<Rightarrow> (control_error, unit) result" where
  "reject_if c message = (if c then Inl (ControlError message) else Inr ())"

definition validate_optional_auth_field :: "string \<Rightarrow> bytes \<Rightarrow> (control_error, unit) result" where
  "validate_optional_auth_field field_name value =
     (if length value > MAX_AUTH_FIELD_BYTES then Inl (ControlError (field_name @ '' exceeds maximum length'')) else Inr ())"

definition validate_auth_field :: "string \<Rightarrow> bytes \<Rightarrow> (control_error, unit) result" where
  "validate_auth_field field_name value =
     (if trim value = [] then Inl (ControlError (field_name @ '' is empty''))
      else validate_optional_auth_field field_name value)"

definition validate_file_name :: "bytes \<Rightarrow> (control_error, unit) result" where
  "validate_file_name n =
     (if trim n = [] then Inl (ControlError ''file name is empty'')
      else if length n > MAX_FILE_NAME_BYTES then Inl (ControlError ''file name exceeds maximum length'')
      else if 47 \<in> set n \<or> 92 \<in> set n then Inl (ControlError ''file name must not contain path separators'')
      else Inr ())"

definition is_valid_mdns_candidate_name :: "bytes \<Rightarrow> bool" where
  "is_valid_mdns_candidate_name n =
     (let trimmed = rev (dropWhile (\<lambda>b. b = 46) (rev n)) in
      if length trimmed > 80 \<or> length (filter (\<lambda>b. b = 46) trimmed) \<noteq> 1 then False
      else case strip_prefix (rev (ascii_bytes ''.local'')) (rev trimmed) of
             None \<Rightarrow> False
           | Some label_rev \<Rightarrow>
               label_rev \<noteq> [] \<and> list_all (\<lambda>b. is_digit 36 b \<or> b = 45) label_rev)"

definition is_valid_candidate_addr :: "bytes \<Rightarrow> bool" where
  "is_valid_candidate_addr addr =
     (if is_socket_addr addr then True
      else case rsplit_once 58 addr of
             None \<Rightarrow> False
           | Some (host, port) \<Rightarrow> is_u16 port \<and> is_valid_mdns_candidate_name host)"

fun validate_candidates :: "p2p_candidate list \<Rightarrow> (control_error, unit) result" where
  "validate_candidates [] = Inr ()"
| "validate_candidates (c # cs) =
     (if \<not> is_valid_candidate_addr (pc_addr c) then Inl (ControlError ''P2P candidate address is invalid'')
      else validate_candidates cs)"

definition roster_count_invalid :: "signed_device_roster \<Rightarrow> bool" where
  "roster_count_invalid roster \<longleftrightarrow>
     dr_active_devices (roster_body roster) = [] \<or> length (dr_active_devices (roster_body roster)) > MAX_ACTIVE_DEVICES"

definition validate_client_control :: "crypto_fns \<Rightarrow> control_codec \<Rightarrow> client_control \<Rightarrow> (control_error, unit) result" where
  "validate_client_control F K control =
     (case control of
        Authenticate username token receive_files limit \<Rightarrow> validate_auth_field ''token'' token
      | PairClient username pairing_code token receive_files limit \<Rightarrow>
         rbind (validate_auth_field ''display name'' username) (\<lambda>_.
         rbind (validate_auth_field ''pairing code'' pairing_code) (\<lambda>_.
         rbind (validate_auth_field ''token'' token) (\<lambda>_.
         rbind (reject_if (length pairing_code < MIN_PAIRING_SECRET_BYTES) ''pairing code is too short'') (\<lambda>_.
           reject_if (length token < MIN_PAIRED_TOKEN_BYTES) ''paired token is too short''))))
      | OpenPair username password existing_token receive_files limit \<Rightarrow>
         rbind (validate_auth_field ''display name'' username) (\<lambda>_.
         rbind (validate_optional_auth_field ''password'' password) (\<lambda>_.
           validate_optional_auth_field ''existing token'' existing_token))
      | CreateDeviceLink redemption_secret_hash enrollment_bundle \<Rightarrow>
         rbind (reject_if (length redemption_secret_hash \<noteq> 32) ''device-link secret hash has the wrong length'') (\<lambda>_.
           reject_if (enrollment_bundle = [] \<or> length enrollment_bundle > 16 * 1024)
             ''device enrollment bundle length is invalid'')
      | CancelDeviceLink redemption_secret_hash \<Rightarrow>
         reject_if (length redemption_secret_hash \<noteq> 32) ''device-link secret hash has the wrong length''
      | FetchDeviceLink secret \<Rightarrow>
         rbind (validate_auth_field ''device-link redemption secret'' secret) (\<lambda>_.
           reject_if (length secret < MIN_PAIRING_SECRET_BYTES) ''device-link redemption secret is too short'')
      | RedeemDeviceLink secret attempt expected roster key_packages bearer_token receive_files limit \<Rightarrow>
         rbind (validate_auth_field ''device-link redemption secret'' secret) (\<lambda>_.
         rbind (reject_if (length secret < MIN_PAIRING_SECRET_BYTES) ''device-link redemption secret is too short'') (\<lambda>_.
         rbind (validate_auth_field ''device-link bearer token'' bearer_token) (\<lambda>_.
         rbind (reject_if (\<not> starts_with (ascii_bytes ''tct2_'') bearer_token \<or> length bearer_token < MIN_PAIRED_TOKEN_BYTES)
                  ''device-link bearer token is invalid'') (\<lambda>_.
         rbind (reject_if (roster_count_invalid roster) ''paired MLS roster device count is invalid'') (\<lambda>_.
           map_err MlsRejected (validate_key_packages key_packages))))))
      | SendChat room_id body \<Rightarrow>
         rbind (reject_if (trim body = []) ''chat message is empty'') (\<lambda>_.
           reject_if (length body > MAX_CHAT_BODY_BYTES) ''chat message exceeds maximum length'')
      | EditChat room_id target body \<Rightarrow>
         rbind (reject_if (trim body = []) ''chat message is empty'') (\<lambda>_.
           reject_if (length body > MAX_CHAT_BODY_BYTES) ''chat message exceeds maximum length'')
      | PublishP2p room_id generation nat_kind tie_breaker candidates \<Rightarrow>
         rbind (reject_if (length candidates > 64) ''too many P2P candidates'') (\<lambda>_. validate_candidates candidates)
      | UploadFileStart room_id transfer_id file_name file_size encoding mls_event_id \<Rightarrow>
         rbind (validate_file_name file_name) (\<lambda>_.
           case mls_event_id of
             None \<Rightarrow> reject_if (encoding = Sealed) ''sealed upload is missing its MLS event id''
           | Some _ \<Rightarrow> reject_if (encoding \<noteq> Sealed) ''MLS event id on an unsealed upload'')
      | UploadFileChunk transfer_id offset data \<Rightarrow>
         rbind (reject_if (data = []) ''file chunk is empty'') (\<lambda>_.
           reject_if (length data > MAX_FILE_CHUNK_BYTES) ''file chunk exceeds maximum length'')
      | UploadFileCancel transfer_id reason \<Rightarrow>
         reject_if (length reason > 512) ''file cancel reason exceeds maximum length''
      | BugReportStart report_id description metadata logs_size \<Rightarrow>
         rbind (reject_if (length description > MAX_BUG_REPORT_DESC_BYTES) ''bug report description exceeds maximum length'') (\<lambda>_.
         rbind (reject_if (length metadata > MAX_BUG_REPORT_METADATA_BYTES) ''bug report metadata exceeds maximum length'') (\<lambda>_.
           reject_if (logs_size > MAX_BUG_REPORT_BYTES) ''bug report logs exceed maximum length''))
      | BugReportChunk report_id offset data \<Rightarrow>
         rbind (reject_if (data = []) ''bug report chunk is empty'') (\<lambda>_.
           reject_if (length data > MAX_FILE_CHUNK_BYTES) ''bug report chunk exceeds maximum length'')
      | FetchHistory room_id before limit \<Rightarrow>
         rbind (reject_if (limit = 0) ''history fetch limit must be non-zero'') (\<lambda>_.
           reject_if (limit > MAX_HISTORY_FETCH_MESSAGES) ''history fetch limit exceeds maximum'')
      | StartShare attempt_id room_id codec coded_width coded_height extradata \<Rightarrow>
         rbind (reject_if (trim codec = []) ''share codec is empty'') (\<lambda>_.
         rbind (reject_if (length codec > MAX_VIDEO_CODEC_BYTES) ''share codec exceeds maximum length'') (\<lambda>_.
           reject_if (length extradata > MAX_VIDEO_EXTRADATA_BYTES) ''share extradata exceeds maximum length''))
      | PutDeviceRoster expected roster \<Rightarrow>
         rbind (reject_if (roster_count_invalid roster) ''device roster has an invalid active device count'') (\<lambda>_.
           reject_if (length (roster_signature roster) \<noteq> SIGNATURE_LEN) ''device roster signature has the wrong length'')
      | BindMlsDevice device roster signature_bytes \<Rightarrow>
         reject_if (length signature_bytes \<noteq> SIGNATURE_LEN) ''MLS device binding proof has the wrong length''
      | PublishKeyPackages device packages \<Rightarrow> map_err MlsRejected (validate_key_packages packages)
      | CreateEncryptedRoom descriptor checkpoints initial_commit \<Rightarrow>
         rbind (map_err MlsRejected (descriptor_validate F (to_binary_group K) descriptor)) (\<lambda>_.
         rbind (reject_if (length checkpoints \<noteq> length (er_member_accounts descriptor))
                  ''encrypted room roster checkpoint count does not match'') (\<lambda>_.
           map_err MlsRejected (validate_commit_bundle F (to_binary_group K) initial_commit)))
      | SubmitCommitBundle room_id expected_epoch bundle \<Rightarrow>
         map_err MlsRejected (validate_commit_bundle F (to_binary_group K) bundle)
      | SubmitMlsApplication room_id epoch event ciphertext \<Rightarrow>
         reject_if (ciphertext = [] \<or> length ciphertext > MAX_MLS_MESSAGE_BYTES) ''invalid MLS application message length''
      | FetchMlsEvents room_id after_sequence limit \<Rightarrow>
         reject_if (limit = 0 \<or> unat limit > MAX_MLS_EVENT_BATCH) ''invalid MLS event fetch limit''
      | _ \<Rightarrow> Inr ())"

definition encode_client_control ::
  "crypto_fns \<Rightarrow> control_codec \<Rightarrow> client_control \<Rightarrow> (control_error, bytes) result" where
  "encode_client_control F K value =
     rbind (validate_client_control F K value) (\<lambda>_. Inr (to_binary_control K value))"

definition decode_client_control ::
  "crypto_fns \<Rightarrow> control_codec \<Rightarrow> bytes \<Rightarrow> (control_error, client_control) result" where
  "decode_client_control F K bs =
     rbind (bounded_decode (from_binary_control K) bs) (\<lambda>value.
     rbind (validate_client_control F K value) (\<lambda>_. Inr value))"

subsection \<open>Join strings\<close>

definition DEVICE_LINK_STRING_PREFIX :: bytes where "DEVICE_LINK_STRING_PREFIX = ascii_bytes ''tcd1_''"

record invite_ticket =
  it_version :: u16
  it_pairing_code :: bytes
  it_tcp_addr :: bytes
  it_udp_addr :: bytes
  it_udp_probe_addr :: "bytes option"
  it_server_public_key :: bytes

record device_link_ticket =
  dl_version :: u16
  dl_pairing_secret :: key32
  dl_tcp_addr :: bytes
  dl_udp_addr :: bytes
  dl_udp_probe_addr :: "bytes option"
  dl_server_public_key :: key32

definition validate_endpoint :: "string \<Rightarrow> bytes \<Rightarrow> (control_error, unit) result" where
  "validate_endpoint field_name value0 =
     (let value = trim value0 in
      if value = [] then Inl (ControlError (field_name @ '' is empty''))
      else if length value > MAX_AUTH_FIELD_BYTES then Inl (ControlError (field_name @ '' exceeds maximum length''))
      else if is_socket_addr value then Inr ()
      else case rsplit_once 58 value of
             None \<Rightarrow> Inl (ControlError (field_name @ '' must include a port''))
           | Some (host, port) \<Rightarrow>
               if trim host = [] \<or> trim port = [] then Inl (ControlError (field_name @ '' must include a host and port''))
               else if is_u16 port then Inr ()
               else Inl (ControlError (field_name @ '' port is invalid'')))"

definition validate_invite_ticket :: "invite_ticket \<Rightarrow> (control_error, unit) result" where
  "validate_invite_ticket value =
     (if it_version value \<noteq> PROTOCOL_VERSION then Inl (ControlError ''unsupported invite version'')
      else
        rbind (validate_auth_field ''pairing code'' (it_pairing_code value)) (\<lambda>_.
        rbind (reject_if (length (it_pairing_code value) < MIN_PAIRING_SECRET_BYTES) ''pairing code is too short'') (\<lambda>_.
        rbind (validate_auth_field ''server public key'' (it_server_public_key value)) (\<lambda>_.
        rbind (validate_endpoint ''invite TCP address'' (it_tcp_addr value)) (\<lambda>_.
        rbind (validate_endpoint ''invite UDP address'' (it_udp_addr value)) (\<lambda>_.
        case it_udp_probe_addr value of
          None \<Rightarrow> Inr ()
        | Some addr \<Rightarrow> validate_endpoint ''invite UDP probe address'' addr))))))"

definition validate_device_link_ticket :: "device_link_ticket \<Rightarrow> (control_error, unit) result" where
  "validate_device_link_ticket value =
     (if dl_version value \<noteq> PROTOCOL_VERSION then Inl (ControlError ''unsupported device-link version'')
      else
        rbind (validate_endpoint ''device-link TCP address'' (dl_tcp_addr value)) (\<lambda>_.
        rbind (validate_endpoint ''device-link UDP address'' (dl_udp_addr value)) (\<lambda>_.
        case dl_udp_probe_addr value of
          None \<Rightarrow> Inr ()
        | Some addr \<Rightarrow> validate_endpoint ''device-link UDP probe address'' addr)))"

definition encode_invite_ticket :: "(invite_ticket \<Rightarrow> bytes) \<Rightarrow> invite_ticket \<Rightarrow> (control_error, bytes) result" where
  "encode_invite_ticket to_binary value =
     rbind (validate_invite_ticket value) (\<lambda>_.
       Inr (JOIN_STRING_PREFIX @ encode_base64url_no_pad (to_binary value)))"

definition base64_message :: "base64_error \<Rightarrow> string" where
  "base64_message e =
     (case e of
        PayloadEmpty \<Rightarrow> ''join string payload is empty''
      | PayloadPadding \<Rightarrow> ''join string payload must not contain padding''
      | PayloadLength \<Rightarrow> ''join string payload length is invalid''
      | PayloadData \<Rightarrow> ''join string payload contains invalid base64url data'')"

definition decode_invite_ticket ::
  "(bytes \<Rightarrow> (string, invite_ticket) result) \<Rightarrow> bytes \<Rightarrow> (control_error, invite_ticket) result" where
  "decode_invite_ticket from_binary value0 =
     (let value = trim value0 in
      if length value > MAX_JOIN_STRING_BYTES then Inl (ControlError ''join string exceeds maximum length'')
      else
        rbind (ok_or (ControlError ''join string has an unknown prefix'') (strip_prefix JOIN_STRING_PREFIX value)) (\<lambda>payload.
        rbind (map_err (\<lambda>e. ControlError (base64_message e)) (decode_base64url_no_pad payload)) (\<lambda>bs.
        rbind (bounded_decode from_binary bs) (\<lambda>ticket.
        rbind (validate_invite_ticket ticket) (\<lambda>_. Inr ticket)))))"

text \<open>The base32 codec works on characters, which here are the bytes of the ASCII text.\<close>

definition encode_device_link_ticket ::
  "(device_link_ticket \<Rightarrow> bytes) \<Rightarrow> device_link_ticket \<Rightarrow> (control_error, bytes) result" where
  "encode_device_link_ticket to_binary value =
     rbind (validate_device_link_ticket value) (\<lambda>_.
       Inr (DEVICE_LINK_STRING_PREFIX @ ascii_bytes (base32_encode (to_binary value))))"

definition decode_device_link_ticket ::
  "(bytes \<Rightarrow> (string, device_link_ticket) result) \<Rightarrow> bytes \<Rightarrow> (control_error, device_link_ticket) result" where
  "decode_device_link_ticket from_binary value0 =
     (let value = trim value0 in
      if length value > MAX_JOIN_STRING_BYTES then Inl (ControlError ''device pairing string exceeds maximum length'')
      else
        rbind (ok_or (ControlError ''device pairing string has an unknown prefix'')
                 (strip_prefix DEVICE_LINK_STRING_PREFIX value)) (\<lambda>payload.
        rbind (ok_or (ControlError ''device pairing string is not valid base32'')
                 (base32_decode (map (\<lambda>b. char_of (unat b)) payload))) (\<lambda>bs.
        rbind (bounded_decode from_binary bs) (\<lambda>ticket.
        rbind (validate_device_link_ticket ticket) (\<lambda>_. Inr ticket)))))"

section \<open>Codecs\<close>

lemma bounded_decode_Inr: "bounded_decode f bs = Inr v \<longleftrightarrow> length bs \<le> MAX_CONTROL_PAYLOAD_BYTES \<and> f bs = Inr v"
  by (auto simp: bounded_decode_def)

lemma decode_client_control_Inr:
  "decode_client_control F K bs = Inr c \<longleftrightarrow>
     length bs \<le> MAX_CONTROL_PAYLOAD_BYTES \<and> from_binary_control K bs = Inr c \<and> validate_client_control F K c = Inr ()"
  by (auto simp: decode_client_control_def rbind_Inr_iff bounded_decode_Inr)

lemma encode_client_control_Inr:
  "encode_client_control F K c = Inr bs \<longleftrightarrow> validate_client_control F K c = Inr () \<and> bs = to_binary_control K c"
  by (auto simp: encode_client_control_def rbind_Inr_iff)

text \<open>The contract of \<open>jsony\<close>: what it writes it reads back.\<close>

definition codec_round_trips :: "control_codec \<Rightarrow> bool" where
  "codec_round_trips K \<longleftrightarrow>
     (\<forall>c. from_binary_control K (to_binary_control K c) = Inr c) \<and>
     (\<forall>h. from_binary_client_hello K (to_binary_client_hello K h) = Inr h) \<and>
     (\<forall>h. from_binary_server_hello K (to_binary_server_hello K h) = Inr h)"

lemma decode_encoded_control:
  assumes "codec_round_trips K" and "encode_client_control F K c = Inr bs"
  shows "decode_client_control F K bs =
     (if length bs \<le> MAX_CONTROL_PAYLOAD_BYTES then Inr c
      else Inl (ControlError ''control payload exceeds maximum length''))"
  using assms by (auto simp: codec_round_trips_def encode_client_control_Inr decode_client_control_def bounded_decode_def)

text \<open>
  The limit on an application message equals the limit on a whole control payload, so the largest
  message the sender's check lets through is one the receiver's check refuses: its encoding also
  carries the room, the epoch and the event id.
\<close>

theorem largest_application_undeliverable:
  assumes "\<And>c. length c < length (to_binary_control K (SubmitMlsApplication room epoch event c))"
    and "length ciphertext = MAX_MLS_MESSAGE_BYTES"
  shows "\<exists>bs. encode_client_control F K (SubmitMlsApplication room epoch event ciphertext) = Inr bs \<and>
     decode_client_control F K bs = Inl (ControlError ''control payload exceeds maximum length'')"
proof -
  let ?c = "SubmitMlsApplication room epoch event ciphertext"
  have "validate_client_control F K ?c = Inr ()"
    using assms(2) by (auto simp: validate_client_control_def reject_if_def MAX_MLS_MESSAGE_BYTES_def)
  moreover have "\<not> length (to_binary_control K ?c) \<le> MAX_CONTROL_PAYLOAD_BYTES"
    using assms(1) [of ciphertext] assms(2) by (simp add: MAX_MLS_MESSAGE_BYTES_def MAX_CONTROL_PAYLOAD_BYTES_def)
  ultimately show ?thesis
    by (simp add: encode_client_control_def decode_client_control_def bounded_decode_def)
qed

section \<open>Join strings round trip\<close>

lemma trim_prefixed:
  assumes "list_all graphic s" and "p \<noteq> []" and "list_all graphic p"
  shows "trim (p @ s) = p @ s"
  by (rule trim_graphic) (use assms in \<open>cases p; cases s rule: rev_cases; auto simp: list_all_iff\<close>)

lemma encoded_base64_len_ge: "n \<le> encoded_base64_len n"
proof -
  obtain q r where q: "q = n div 3" and r: "r = n mod 3" by blast
  then have "n = q * 3 + r" "r < 3" by simp_all
  then show ?thesis unfolding encoded_base64_len_def q [symmetric] r [symmetric] by auto
qed

text \<open>
  C39. An invite survives being pasted. A join string that the server wrote decodes to the ticket it was
  made from, provided it is not longer than the decoder's limit: trimming, the prefix, the base64 text,
  the binary form and the checks on the ticket all undo or repeat what the encoder did.
\<close>

theorem invite_ticket_round_trip:
  assumes "from_binary (to_binary ticket) = Inr ticket" and "to_binary ticket \<noteq> []"
    and "encode_invite_ticket to_binary ticket = Inr join" and "length join \<le> MAX_JOIN_STRING_BYTES"
  shows "decode_invite_ticket from_binary join = Inr ticket"
proof -
  let ?p = "to_binary ticket"
  have v: "validate_invite_ticket ticket = Inr ()" and join: "join = JOIN_STRING_PREFIX @ encode_base64url_no_pad ?p"
    using assms(3) by (auto simp: encode_invite_ticket_def rbind_Inr_iff)
  have "list_all graphic (encode_base64url_no_pad ?p)"
    using encode_base64_symbols [of ?p] by (simp add: list_all_iff)
  moreover have "JOIN_STRING_PREFIX \<noteq> []" "list_all graphic JOIN_STRING_PREFIX"
    by (simp_all add: JOIN_STRING_PREFIX_def ascii_bytes_def graphic_def)
  ultimately have "trim join = join" unfolding join by (rule trim_prefixed)
  moreover have "length ?p \<le> MAX_CONTROL_PAYLOAD_BYTES"
    using assms(4) encoded_base64_len_ge [of "length ?p"]
    by (simp add: join length_encode_base64 MAX_JOIN_STRING_BYTES_def MAX_CONTROL_PAYLOAD_BYTES_def)
  moreover have "strip_prefix JOIN_STRING_PREFIX join = Some (encode_base64url_no_pad ?p)" by (simp add: join)
  ultimately show ?thesis
    using assms v base64url_round_trip [OF assms(2)] by (simp add: decode_invite_ticket_def Let_def bounded_decode_def)
qed

definition demo_ticket :: invite_ticket where
  "demo_ticket = \<lparr>it_version = PROTOCOL_VERSION, it_pairing_code = replicate 16 97, it_tcp_addr = [97, 58, 49],
     it_udp_addr = [97, 58, 49], it_udp_probe_addr = None, it_server_public_key = [98]\<rparr>"

lemma demo_ticket_valid: "validate_invite_ticket demo_ticket = Inr ()"
proof -
  have t: "trim [97, 58, 49] = [97, 58, 49]" "trim [97] = [97]" "trim [49] = [49]" "trim [98] = [98]" "trim (replicate 16 97) = replicate 16 97"
    by (rule trim_graphic; simp add: graphic_def)+
  have "validate_endpoint n [97, 58, 49] = Inr ()" for n
    using t(1-3) by (simp add: validate_endpoint_def MAX_AUTH_FIELD_BYTES_def is_socket_addr_def read_ipv4_addr_def read_separator_def
        read_number_def is_digit_def digit_value_def read_given_char_def rsplit_once_def is_u16_def)
  then show ?thesis
    using t(4,5) by (simp add: validate_invite_ticket_def demo_ticket_def validate_auth_field_def validate_optional_auth_field_def
        MAX_AUTH_FIELD_BYTES_def MIN_PAIRING_SECRET_BYTES_def reject_if_def)
qed

theorem invite_ticket_round_trip_witness:
  "\<exists>join. encode_invite_ticket (\<lambda>_. [1]) demo_ticket = Inr join \<and> decode_invite_ticket (\<lambda>_. Inr demo_ticket) join = Inr demo_ticket"
proof -
  obtain join where j: "encode_invite_ticket (\<lambda>_. [1]) demo_ticket = Inr join" "length join = 7"
    by (simp add: encode_invite_ticket_def demo_ticket_valid JOIN_STRING_PREFIX_def Let_def)
  then show ?thesis
    using invite_ticket_round_trip [of "\<lambda>_. Inr demo_ticket" "\<lambda>_. [1]" demo_ticket join]
    by (simp add: MAX_JOIN_STRING_BYTES_def)
qed

lemma char_of_byte: "char_of (unat (of_char a :: byte)) = a"
proof -
  have "(of_char a :: byte) = of_nat (of_char a)" by (cases a) simp
  then have "unat (of_char a :: byte) = of_char a mod 256" by (simp only: unat_of_nat) simp
  then show ?thesis by simp
qed

text \<open>Everything the base32 encoder writes is a symbol of its alphabet.\<close>

lemma ALPHABET_graphic: "list_all graphic (ascii_bytes ALPHABET)"
  by (simp add: ALPHABET_def ascii_bytes_def graphic_def)

lemma symbol_graphic: "graphic (of_char (encode_value v))"
proof -
  have "encode_value v \<in> set ALPHABET" using and_31_bound [of v] by (simp add: encode_value_def)
  then show ?thesis using ALPHABET_graphic by (simp add: list_all_iff ascii_bytes_def)
qed

lemma encode_flush_graphic:
  "list_all graphic (ascii_bytes out) \<Longrightarrow> list_all graphic (ascii_bytes (snd (encode_flush acc bits out)))"
proof (induction acc bits out rule: encode_flush.induct)
  case (1 acc bits out)
  then show ?case
    by (subst encode_flush.simps) (simp add: ascii_bytes_def symbol_graphic)
qed

lemma encode_loop_graphic:
  "list_all graphic (ascii_bytes out) \<Longrightarrow> list_all graphic (ascii_bytes (snd (snd (encode_loop bs acc bits out))))"
proof (induction bs arbitrary: acc bits out)
  case (Cons b bs)
  obtain n o' where f: "encode_flush (push_bit 8 acc OR ucast b) (bits + 8) out = (n, o')" by fastforce
  with encode_flush_graphic [OF Cons.prems, of "push_bit 8 acc OR ucast b" "bits + 8"]
  have "list_all graphic (ascii_bytes o')" by simp
  with Cons.IH f show ?case by (simp add: Let_def)
qed simp

lemma base32_graphic: "list_all graphic (ascii_bytes (base32_encode bs))"
proof -
  obtain acc bits out where l: "encode_loop bs 0 0 [] = (acc, bits, out)" by (metis prod_cases3)
  with encode_loop_graphic [of "[]" bs 0 0] have "list_all graphic (ascii_bytes out)" by (simp add: ascii_bytes_def)
  with l show ?thesis by (simp add: base32_encode_def ascii_bytes_def symbol_graphic)
qed

lemma device_link_ticket_round_trip:
  assumes "from_binary (to_binary ticket) = Inr ticket" and "length (to_binary ticket) \<le> MAX_CONTROL_PAYLOAD_BYTES"
    and "encode_device_link_ticket to_binary ticket = Inr join" and "length join \<le> MAX_JOIN_STRING_BYTES"
  shows "decode_device_link_ticket from_binary join = Inr ticket"
proof -
  let ?p = "to_binary ticket"
  have v: "validate_device_link_ticket ticket = Inr ()"
    and join: "join = DEVICE_LINK_STRING_PREFIX @ ascii_bytes (base32_encode ?p)"
    using assms(3) by (auto simp: encode_device_link_ticket_def rbind_Inr_iff)
  have chars: "map (\<lambda>b. char_of (unat b)) (ascii_bytes s) = s" for s
    by (induction s) (simp_all add: ascii_bytes_def char_of_byte)
  obtain pad where "pad < 5" "symbol_bits (base32_encode ?p) = Some (byte_bits ?p @ replicate pad False)"
    using base32_encode_bits [of ?p] by auto
  then have d: "base32_decode (base32_encode ?p) = Some ?p" using base32_decode_of_bits [of "base32_encode ?p" ?p pad] by simp
  have "list_all graphic (ascii_bytes (base32_encode ?p))" by (rule base32_graphic)
  moreover have "DEVICE_LINK_STRING_PREFIX \<noteq> []" "list_all graphic DEVICE_LINK_STRING_PREFIX"
    by (simp_all add: DEVICE_LINK_STRING_PREFIX_def ascii_bytes_def graphic_def)
  ultimately have "trim join = join" unfolding join by (rule trim_prefixed)
  moreover have "strip_prefix DEVICE_LINK_STRING_PREFIX join = Some (ascii_bytes (base32_encode ?p))" by (simp add: join)
  ultimately show ?thesis
    using assms v d by (simp add: decode_device_link_ticket_def Let_def bounded_decode_def chars)
qed

end
