(* ===== verification/Control_Conn.thy ===== *)
theory Control_Conn
  imports Control_Message Buffers Media_Payload Video
begin

text \<open>
  One TCP connection of the server, from the first byte to the handling of its controls
  (\<open>crates/server/src/lib.rs\<close>: \<open>read_client\<close>, \<open>control_conn_step\<close>, \<open>handle_client_hello\<close>, the dispatch of
  \<open>handle_control\<close> and \<open>seal_control_payload_now\<close>).

  The state of the rest of the server is a type of its own, and what other parts of the server do with
  it are the fields of \<open>server_env\<close>: the operations behind the controls before and after
  authentication, whether the connection has to wait, the flush of a write queue, and the removal of the
  connection. An operation answers with the state the connection is in after it.
\<close>

section \<open>Definitions\<close>

datatype conn_state = AwaitClientHello | AwaitAuth | Ready

datatype conn_kind = Unidentified | ControlKind | VideoKind bool

datatype conn_change = Keep conn_state | BeginClose conn_state | Removed

record control_conn =
  cc_read_buf :: recv_buffer
  cc_write_buf :: write_queue
  cc_kind :: conn_kind
  cc_state :: conn_state
  cc_control :: "record_protection option"
  cc_transport :: "session_transport option"
  cc_closing :: bool

datatype conn_error =
    InvalidControlFrame frame_error | MissingControlCipher | ControlCipher crypto_error
  | InvalidControl control_error | HandshakeFailed crypto_error | ServerHelloFrame frame_error
  | ProtocolError string

type_synonym 's control_op = "client_control \<Rightarrow> 's \<Rightarrow> (string, unit) result \<times> conn_change \<times> 's"

record 's server_env =
  se_crypto :: crypto_fns
  se_codec :: control_codec
  se_rng :: rng_draws
  se_key_pair :: bytes
  se_mode :: transport_mode
  se_require_hello_mac :: bool
  se_clogged :: "'s \<Rightarrow> bool"
  se_pending :: "'s \<Rightarrow> bool"
  se_identity_busy :: "'s \<Rightarrow> bool"
  se_defer :: "client_control \<Rightarrow> 's \<Rightarrow> 's"
  se_pre_auth :: "'s control_op"
  se_ready :: "'s control_op"
  se_write :: "write_queue \<Rightarrow> 's \<Rightarrow> write_queue option \<times> 's"
  se_disconnect :: "'s \<Rightarrow> 's"

definition CONTROL_STEPS_PER_READ :: nat where "CONTROL_STEPS_PER_READ = 64"

definition conn_new :: control_conn where
  "conn_new = \<lparr>cc_read_buf = rb_new, cc_write_buf = wq_new, cc_kind = Unidentified, cc_state = AwaitClientHello,
     cc_control = None, cc_transport = None, cc_closing = False\<rparr>"

subsection \<open>One frame\<close>

datatype conn_step = StepHello client_hello | StepControl client_control

abbreviation env_aead :: "'s server_env \<Rightarrow> aead_fns" where
  "env_aead E \<equiv> aead_fns.truncate (se_crypto E)"

definition control_conn_step ::
  "'s server_env \<Rightarrow> control_conn \<Rightarrow> (conn_error, conn_step option) result \<times> control_conn" where
  "control_conn_step E client =
     (case parse_frame (rb_pending (cc_read_buf client)) of
        Inl e \<Rightarrow> (Inl (InvalidControlFrame e), client)
      | Inr None \<Rightarrow> (Inr None, client)
      | Inr (Some (_, n)) \<Rightarrow>
          let frame = subslice LENGTH_PREFIX_LEN n (rb_pending (cc_read_buf client));
              consumed = client\<lparr>cc_read_buf := rb_consume n (cc_read_buf client)\<rparr>
          in case cc_state client of
               AwaitClientHello \<Rightarrow>
                 (case bounded_decode (from_binary_client_hello (se_codec E)) frame of
                    Inl e \<Rightarrow> (Inl (InvalidControl e), client)
                  | Inr hello \<Rightarrow> (Inr (Some (StepHello hello)), consumed))
             | _ \<Rightarrow>
                 (case cc_control client of
                    None \<Rightarrow> (Inl MissingControlCipher, client)
                  | Some transport \<Rightarrow>
                      (case open_next (env_aead E) transport CHANNEL_CONTROL frame of
                         (Inl e, transport') \<Rightarrow> (Inl (ControlCipher e), client\<lparr>cc_control := Some transport'\<rparr>)
                       | (Inr plaintext, transport') \<Rightarrow>
                           (case decode_client_control (se_crypto E) (se_codec E) plaintext of
                              Inl e \<Rightarrow> (Inl (InvalidControl e), client\<lparr>cc_control := Some transport'\<rparr>)
                            | Inr control \<Rightarrow>
                                (Inr (Some (StepControl control)), consumed\<lparr>cc_control := Some transport'\<rparr>)))))"

subsection \<open>The two handlers\<close>

text \<open>The second component is the connection after the call, or \<open>None\<close> if it was removed.\<close>

definition handle_client_hello ::
  "'s server_env \<Rightarrow> client_hello \<Rightarrow> control_conn \<Rightarrow> 's \<Rightarrow> (conn_error, unit) result \<times> control_conn option \<times> 's" where
  "handle_client_hello E hello client st =
     (let F = se_crypto E in
      if se_require_hello_mac E \<and> \<not> verify_client_hello_mac1 F (ed_public F (se_key_pair E)) hello
      then (Inr (), None, se_disconnect E st)
      else
        case respond_to_client_hello F (se_rng E) (se_key_pair E) hello (se_mode E) of
          Inl e \<Rightarrow> (Inl (HandshakeFailed e), Some client, st)
        | Inr (response, transport) \<Rightarrow>
            (case encode_frame (to_binary_server_hello (se_codec E) response) [] of
               Inl e \<Rightarrow> (Inl (ServerHelloFrame e), Some client, st)
             | Inr encoded \<Rightarrow>
                 let client = client\<lparr>cc_write_buf := wq_tail_append encoded (cc_write_buf client),
                                     cc_control := Some (control_record transport),
                                     cc_transport := Some transport, cc_state := AwaitAuth\<rparr>
                 in case se_write E (cc_write_buf client) st of
                      (None, st) \<Rightarrow> (Inr (), None, st)
                    | (Some q, st) \<Rightarrow> (Inr (), Some (client\<lparr>cc_write_buf := q\<rparr>), st)))"

definition is_auth_control :: "client_control \<Rightarrow> bool" where
  "is_auth_control control =
     (case control of
        Authenticate _ _ _ _ \<Rightarrow> True
      | PairClient _ _ _ _ _ \<Rightarrow> True
      | OpenPair _ _ _ _ _ \<Rightarrow> True
      | FetchDeviceLink _ \<Rightarrow> True
      | RedeemDeviceLink _ _ _ _ _ _ _ _ \<Rightarrow> True
      | _ \<Rightarrow> False)"

definition identity_control_needs_ordering :: "client_control \<Rightarrow> bool" where
  "identity_control_needs_ordering control =
     (case control of
        Authenticate _ _ _ _ \<Rightarrow> True
      | PairClient _ _ _ _ _ \<Rightarrow> True
      | OpenPair _ _ _ _ _ \<Rightarrow> True
      | RedeemDeviceLink _ _ _ _ _ _ _ _ \<Rightarrow> True
      | _ \<Rightarrow> False)"

definition handle_control ::
  "'s server_env \<Rightarrow> client_control \<Rightarrow> conn_state \<Rightarrow> 's \<Rightarrow> (string, unit) result \<times> conn_change \<times> 's" where
  "handle_control E control state st =
     (case state of
        AwaitAuth \<Rightarrow>
          if is_auth_control control then se_pre_auth E control st
          else (Inl ''authenticate before sending control messages'', Keep state, st)
      | Ready \<Rightarrow>
          if is_auth_control control then (Inl ''session is already authenticated'', Keep state, st)
          else se_ready E control st
      | AwaitClientHello \<Rightarrow> (Inl ''handshake is not complete'', Keep state, st))"

definition apply_change :: "conn_change \<Rightarrow> control_conn \<Rightarrow> control_conn option" where
  "apply_change change client =
     (case change of
        Keep state \<Rightarrow> Some (client\<lparr>cc_state := state\<rparr>)
      | BeginClose state \<Rightarrow> Some (client\<lparr>cc_state := state, cc_closing := True\<rparr>)
      | Removed \<Rightarrow> None)"

subsection \<open>Reading a connection\<close>

datatype loop_exit = Parked | StepLimit | Gone

text \<open>The loop of \<open>read_client\<close> over the buffered control frames, with the steps that are left to it.\<close>

fun read_controls :: "'s server_env \<Rightarrow> nat \<Rightarrow> control_conn \<Rightarrow> 's \<Rightarrow> loop_exit \<times> control_conn option \<times> 's" where
  "read_controls E 0 client st = (StepLimit, Some client, st)"
| "read_controls E (Suc left) client st =
     (if se_clogged E st \<or> se_pending E st \<or> cc_closing client then (Parked, Some client, st)
      else
        case control_conn_step E client of
          (Inr None, client) \<Rightarrow> (Parked, Some client, st)
        | (Inr (Some (StepHello hello)), client) \<Rightarrow>
            (case handle_client_hello E hello client st of
               (Inl _, _, st) \<Rightarrow> (Gone, None, se_disconnect E st)
             | (Inr _, None, st) \<Rightarrow> (Gone, None, st)
             | (Inr _, Some client, st) \<Rightarrow> read_controls E left client st)
        | (Inr (Some (StepControl control)), client) \<Rightarrow>
            if se_identity_busy E st \<and> cc_state client = AwaitAuth \<and> identity_control_needs_ordering control
            then (Parked, Some client, se_defer E control st)
            else
              (case handle_control E control (cc_state client) st of
                 (Inl _, _, st) \<Rightarrow> (Gone, None, se_disconnect E st)
               | (Inr _, change, st) \<Rightarrow>
                   (case apply_change change client of
                      None \<Rightarrow> (Gone, None, st)
                    | Some client \<Rightarrow> read_controls E left client st))
        | (Inl _, client) \<Rightarrow> (Gone, None, se_disconnect E st))"

datatype read_exit = ReadParked | ReadRequeued | ReadGone | ReadVideo | ReadVoice recv_buffer

text \<open>
  What \<open>read_into_buffer\<close> did for a connection: the bytes it appended, whether it stopped at its limit
  with the socket still readable, and whether the peer is gone. An error of the socket counts as the
  latter, as in the code. \<open>ReadRequeued\<close> says that the event loop is to read the connection again without
  waiting for the socket.
\<close>

record socket_fill =
  sf_bytes :: bytes
  sf_hit_limit :: bool
  sf_disconnected :: bool

definition client_read_work_ready :: "'s server_env \<Rightarrow> bool \<Rightarrow> control_conn \<Rightarrow> 's \<Rightarrow> bool" where
  "client_read_work_ready E ready client st \<longleftrightarrow>
     \<not> (cc_closing client \<or> se_pending E st \<or> se_clogged E st) \<and>
     (ready \<or> parse_frame (rb_pending (cc_read_buf client)) \<noteq> Inr None)"

definition control_pass ::
  "'s server_env \<Rightarrow> bool \<Rightarrow> control_conn \<Rightarrow> 's \<Rightarrow> read_exit \<times> control_conn option \<times> 's" where
  "control_pass E ready client st =
     (case read_controls E CONTROL_STEPS_PER_READ client st of
        (_, None, st) \<Rightarrow> (ReadGone, None, st)
      | (exit, Some client, st) \<Rightarrow>
          (if ready \<or> exit = StepLimit \<and> client_read_work_ready E ready client st then ReadRequeued else ReadParked,
           Some client, st))"

text \<open>
  What becomes of a connection that turns out to carry video or voice is modelled with those lanes.
\<close>

definition read_client ::
  "'s server_env \<Rightarrow> socket_fill \<Rightarrow> control_conn \<Rightarrow> 's \<Rightarrow> read_exit \<times> control_conn option \<times> 's" where
  "read_client E fill client st =
     (let skip = (cc_kind client = ControlKind \<and> se_clogged E st \<or> cc_kind client = VideoKind True);
          client = (if skip then client else client\<lparr>cc_read_buf := rb_push (sf_bytes fill) (cc_read_buf client)\<rparr>);
          ready = (\<not> skip \<and> sf_hit_limit fill);
          pending = rb_pending (cc_read_buf client)
      in if \<not> skip \<and> sf_disconnected fill then (ReadGone, None, se_disconnect E st)
         else case cc_kind client of
           Unidentified \<Rightarrow>
             if length pending < length VIDEO_MAGIC
             then (if ready then ReadRequeued else ReadParked, Some client, st)
             else if starts_with VIDEO_MAGIC pending
             then (ReadVideo, Some (client\<lparr>cc_read_buf := rb_consume (length VIDEO_MAGIC) (cc_read_buf client),
                                            cc_kind := VideoKind False\<rparr>), st)
             else if starts_with VOICE_TCP_MAGIC pending
             then (ReadVoice (rb_consume (length VOICE_TCP_MAGIC) (cc_read_buf client)), None, st)
             else control_pass E ready (client\<lparr>cc_kind := ControlKind\<rparr>) st
         | VideoKind _ \<Rightarrow> (ReadVideo, Some client, st)
         | ControlKind \<Rightarrow> control_pass E ready client st)"

text \<open>The reads of a connection one after the other, as long as it is there and carries controls.\<close>

fun read_all ::
  "'s server_env \<Rightarrow> socket_fill list \<Rightarrow> read_exit \<Rightarrow> control_conn \<Rightarrow> 's \<Rightarrow> read_exit \<times> control_conn option \<times> 's" where
  "read_all E [] exit client st = (exit, Some client, st)"
| "read_all E (fill # fills) exit client st =
     (case read_client E fill client st of
        (ReadParked, Some client, st) \<Rightarrow> read_all E fills ReadParked client st
      | (ReadRequeued, Some client, st) \<Rightarrow> read_all E fills ReadRequeued client st
      | other \<Rightarrow> other)"

subsection \<open>Sending\<close>

definition seal_control_payload_now ::
  "'s server_env \<Rightarrow> bytes \<Rightarrow> control_conn \<Rightarrow> (conn_error, unit) result \<times> control_conn" where
  "seal_control_payload_now E payload client =
     (case cc_control client of
        None \<Rightarrow> (Inl MissingControlCipher, client)
      | Some transport \<Rightarrow>
          let prefix = to_le 4 (of_nat (sealed_len transport (length payload)) :: u32) in
          (case seal_next_into (env_aead E) transport CHANNEL_CONTROL payload (wq_buf (cc_write_buf client) @ prefix) of
             (Inl e, transport', _) \<Rightarrow> (Inl (ControlCipher e), client\<lparr>cc_control := Some transport'\<rparr>)
           | (Inr _, transport', out) \<Rightarrow>
               (Inr (), client\<lparr>cc_control := Some transport',
                               cc_write_buf := (cc_write_buf client)\<lparr>wq_buf := out\<rparr>\<rparr>)))"

section \<open>What reaches the operations\<close>

text \<open>
  Two servers that differ only in what their operations do where the code should never call them: the
  results must then be the same for all bytes a client may send.
\<close>

definition with_ops :: "'s control_op \<Rightarrow> 's control_op \<Rightarrow> 's server_env \<Rightarrow> 's server_env" where
  "with_ops pre ready E = E\<lparr>se_pre_auth := pre, se_ready := ready\<rparr>"

lemma with_ops_fields [simp]:
  "se_crypto (with_ops p r E) = se_crypto E" "se_codec (with_ops p r E) = se_codec E" "se_rng (with_ops p r E) = se_rng E"
  "se_key_pair (with_ops p r E) = se_key_pair E" "se_mode (with_ops p r E) = se_mode E"
  "se_require_hello_mac (with_ops p r E) = se_require_hello_mac E" "se_write (with_ops p r E) = se_write E"
  "se_clogged (with_ops p r E) = se_clogged E" "se_pending (with_ops p r E) = se_pending E"
  "se_identity_busy (with_ops p r E) = se_identity_busy E" "se_defer (with_ops p r E) = se_defer E"
  "se_disconnect (with_ops p r E) = se_disconnect E" "se_pre_auth (with_ops p r E) = p" "se_ready (with_ops p r E) = r"
  by (simp_all add: with_ops_def)

lemma with_ops_step [simp]: "control_conn_step (with_ops p r E) client = control_conn_step E client"
  by (simp only: control_conn_step_def with_ops_fields)

lemma with_ops_hello [simp]: "handle_client_hello (with_ops p r E) hello client st = handle_client_hello E hello client st"
  by (simp only: handle_client_hello_def with_ops_fields)

lemma step_valid:
  "control_conn_step E client = (Inr (Some (StepControl c)), client') \<Longrightarrow>
     validate_client_control (se_crypto E) (se_codec E) c = Inr () \<and> cc_state client \<noteq> AwaitClientHello \<and>
     cc_state client' = cc_state client"
  by (auto simp: control_conn_step_def Let_def decode_client_control_Inr
      split: sum.splits option.splits prod.splits conn_state.splits)

lemma step_hello:
  "control_conn_step E client = (Inr (Some (StepHello h)), client') \<Longrightarrow> cc_state client = AwaitClientHello"
  by (auto simp: control_conn_step_def Let_def split: sum.splits option.splits prod.splits conn_state.splits)

lemma hello_state:
  "handle_client_hello E h client st = (r, Some client', st') \<Longrightarrow> cc_state client' = cc_state client \<or> cc_state client' = AwaitAuth"
  by (auto simp: handle_client_hello_def Let_def split: if_splits sum.splits option.splits prod.splits)

lemma control_loop_cong:
  assumes "\<And>c st. validate_client_control (se_crypto E) (se_codec E) c = Inr () \<Longrightarrow> is_auth_control c \<Longrightarrow> p c st = se_pre_auth E c st"
    and "\<And>c st. validate_client_control (se_crypto E) (se_codec E) c = Inr () \<Longrightarrow> \<not> is_auth_control c \<Longrightarrow> r c st = se_ready E c st"
  shows "read_controls (with_ops p r E) n client st = read_controls E n client st"
proof (induction n arbitrary: client st)
  case (Suc n)
  have h: "handle_control (with_ops p r E) c (cc_state client') st = handle_control E c (cc_state client') st"
    if "control_conn_step E client = (Inr (Some (StepControl c)), client')" for c client'
    using step_valid [OF that] assms by (simp add: handle_control_def split: conn_state.split)
  show ?case
    using h by (auto simp: Suc.IH split: sum.splits option.splits prod.splits conn_step.splits)
qed simp

lemma control_pass_cong:
  assumes "read_controls (with_ops p r E) CONTROL_STEPS_PER_READ client st = read_controls E CONTROL_STEPS_PER_READ client st"
  shows "control_pass (with_ops p r E) ready client st = control_pass E ready client st"
  by (simp only: control_pass_def assms client_read_work_ready_def with_ops_fields)

text \<open>
  C0. Only well-formed controls reach an operation. Let the operations behind the controls be replaced
  by any others that agree with them on controls that pass \<open>validate_client_control\<close>, the operations of
  unauthenticated connections only on the five controls that authenticate and the others only on the
  rest. Then, for every sequence of bytes and every way the network cuts it, the server does exactly
  what it did: an ill-formed, oversized or misplaced control never gets to an operation.
\<close>

theorem operations_see_valid_controls:
  assumes "\<And>c st. validate_client_control (se_crypto E) (se_codec E) c = Inr () \<Longrightarrow> is_auth_control c \<Longrightarrow> p c st = se_pre_auth E c st"
    and "\<And>c st. validate_client_control (se_crypto E) (se_codec E) c = Inr () \<Longrightarrow> \<not> is_auth_control c \<Longrightarrow> r c st = se_ready E c st"
  shows "read_all (with_ops p r E) fills exit client st = read_all E fills exit client st"
proof (induction fills arbitrary: exit client st)
  case (Cons s ss)
  have pass: "control_pass (with_ops p r E) ready c st = control_pass E ready c st" for ready c st
    by (rule control_pass_cong) (rule control_loop_cong; rule assms)
  have "read_client (with_ops p r E) s client st = read_client E s client st"
    by (simp only: read_client_def pass with_ops_fields)
  then show ?case by (auto simp: Cons.IH split: prod.splits option.splits read_exit.splits)
qed simp

definition never_admits :: "'s server_env \<Rightarrow> bool" where
  "never_admits E \<longleftrightarrow> (\<forall>c st. fst (snd (se_pre_auth E c st)) \<noteq> Keep Ready \<and> fst (snd (se_pre_auth E c st)) \<noteq> BeginClose Ready)"

lemma never_admitsD: "never_admits E \<Longrightarrow> se_pre_auth E c st = (res, change, st') \<Longrightarrow> change \<noteq> Keep Ready \<and> change \<noteq> BeginClose Ready"
  unfolding never_admits_def by (metis fst_conv snd_conv)

lemma gate_loop:
  assumes "never_admits E"
    and "cc_state client \<noteq> Ready"
  shows "read_controls (with_ops (se_pre_auth E) r E) n client st = read_controls E n client st \<and>
     (\<forall>exit client' st'. read_controls E n client st = (exit, Some client', st') \<longrightarrow> cc_state client' \<noteq> Ready)"
  using assms(2)
proof (induction n arbitrary: client st)
  case (Suc n)
  let ?E = "with_ops (se_pre_auth E) r E"
  obtain res client1 where step: "control_conn_step E client = (res, client1)" by fastforce
  show ?case
  proof (cases "se_clogged E st \<or> se_pending E st \<or> cc_closing client")
    case True
    then show ?thesis using Suc.prems by simp
  next
    case False
    consider e where "res = Inl e" | "res = Inr None" | h where "res = Inr (Some (StepHello h))"
      | c where "res = Inr (Some (StepControl c))"
      by (cases res; auto split: option.splits) (metis conn_step.exhaust not_None_eq)
    then show ?thesis
    proof cases
      case 1
      then show ?thesis using False step by simp
    next
      case 2
      have "cc_state client1 = cc_state client"
        using step 2 by (auto simp: control_conn_step_def Let_def split: sum.splits option.splits prod.splits conn_state.splits)
      then show ?thesis using False step 2 Suc.prems by simp
    next
      case (3 h)
      obtain rr oc st1 where hh: "handle_client_hello E h client1 st = (rr, oc, st1)" by (metis prod_cases3)
      have "cc_state client1 \<noteq> Ready"
        using step 3 by (auto simp: control_conn_step_def Let_def split: sum.splits option.splits prod.splits conn_state.splits)
      then have "cc_state client2 \<noteq> Ready" if "oc = Some client2" for client2
        using hello_state [of E h client1 st rr client2 st1] hh that by auto
      then show ?thesis using False step 3 hh Suc.IH [of _ st1] by (auto split: sum.splits option.splits)
    next
      case (4 c)
      have st: "cc_state client1 = cc_state client" using step_valid step 4 by auto
      obtain rr ch st1 where hh: "handle_control E c (cc_state client1) st = (rr, ch, st1)" by (metis prod_cases3)
      have same: "handle_control ?E c (cc_state client1) st = (rr, ch, st1)"
        using hh Suc.prems st by (auto simp: handle_control_def split: conn_state.splits)
      have "ch \<noteq> Keep Ready \<and> ch \<noteq> BeginClose Ready"
        using hh Suc.prems st never_admitsD [OF assms(1)]
        by (cases "cc_state client1") (auto simp: handle_control_def split: if_splits)
      then have "cc_state client2 \<noteq> Ready" if "apply_change ch client1 = Some client2" for client2
        using that by (cases ch) (auto simp: apply_change_def)
      then show ?thesis
        using False step 4 hh same Suc.prems st Suc.IH [of _ st1] by (auto split: sum.splits option.splits)
    qed
  qed
qed simp

lemma gate_pass:
  assumes "never_admits E"
    and "cc_state client \<noteq> Ready"
  shows "control_pass (with_ops (se_pre_auth E) r E) ready client st = control_pass E ready client st \<and>
     (\<forall>x client' st'. control_pass E ready client st = (x, Some client', st') \<longrightarrow> cc_state client' \<noteq> Ready)"
proof -
  note loop = gate_loop [OF assms, of r CONTROL_STEPS_PER_READ st]
  obtain exit oc st1 where l: "read_controls E CONTROL_STEPS_PER_READ client st = (exit, oc, st1)" by (metis prod_cases3)
  from loop have "control_pass (with_ops (se_pre_auth E) r E) ready client st = control_pass E ready client st"
    by (intro control_pass_cong) simp
  moreover have "cc_state client' \<noteq> Ready" if "control_pass E ready client st = (x, Some client', st')" for x client' st'
    using that loop l by (cases oc) (auto simp: control_pass_def)
  ultimately show ?thesis by blast
qed

lemma gate_client:
  assumes "never_admits E"
    and "cc_state client \<noteq> Ready"
  shows "read_client (with_ops (se_pre_auth E) r E) fill client st = read_client E fill client st \<and>
     (\<forall>x client' st'. read_client E fill client st = (x, Some client', st') \<longrightarrow> cc_state client' \<noteq> Ready)"
proof -
  have pass: "control_pass (with_ops (se_pre_auth E) r E) ready c st = control_pass E ready c st"
    "control_pass E ready c st = (x, Some c', st') \<Longrightarrow> cc_state c' \<noteq> Ready"
    if "cc_state c = cc_state client" for ready c x c' st'
    using gate_pass [OF assms(1), where client = c and r = r and ready = ready and st = st] that assms(2) by simp_all
  show ?thesis
    using assms(2)
    by (auto simp: read_client_def Let_def pass split: conn_kind.splits if_splits dest!: pass(2) [rotated])
qed

text \<open>
  C0. No operation of a session runs before authentication. If the operations that authenticate never
  admit the client, then nothing a client sends, however it is cut, is observed by any operation behind
  the other controls: the server behaves the same whatever these operations are.
\<close>

theorem no_operation_before_auth:
  assumes "never_admits E"
    and "cc_state client \<noteq> Ready"
  shows "read_all (with_ops (se_pre_auth E) r E) fills exit client st = read_all E fills exit client st"
  using assms(2)
proof (induction fills arbitrary: exit client st)
  case (Cons s ss)
  have eq: "read_client (with_ops (se_pre_auth E) r E) s client st = read_client E s client st"
    and inv: "\<And>x client' st'. read_client E s client st = (x, Some client', st') \<Longrightarrow> cc_state client' \<noteq> Ready"
    using gate_client [OF assms(1) Cons.prems] by blast+
  show ?case
    by (auto simp: eq Cons.IH split: prod.splits option.splits read_exit.splits dest!: inv)
qed simp

section \<open>The channel delivers\<close>

text \<open>The records of a lane, opened and decoded one after the other.\<close>

fun opens :: "'s server_env \<Rightarrow> record_protection \<Rightarrow> bytes list \<Rightarrow> client_control list \<Rightarrow> bool" where
  "opens E rp [] cs \<longleftrightarrow> cs = []"
| "opens E rp (r # rs) cs \<longleftrightarrow>
     (\<exists>p rp' c cs'. cs = c # cs' \<and> open_next (env_aead E) rp CHANNEL_CONTROL r = (Inr p, rp') \<and>
        decode_client_control (se_crypto E) (se_codec E) p = Inr c \<and> opens E rp' rs cs')"

lemma opens_open_all:
  assumes "open_all (env_aead E) CHANNEL_CONTROL rp rs = Inr ps"
    and "list_all2 (\<lambda>p c. decode_client_control (se_crypto E) (se_codec E) p = Inr c) ps cs"
  shows "opens E rp rs cs"
  using assms
proof (induction rs arbitrary: rp ps cs)
  case (Cons r rs)
  obtain x rp' where o: "open_next (env_aead E) rp CHANNEL_CONTROL r = (x, rp')" by fastforce
  with Cons.prems(1) obtain p ps' where p: "x = Inr p" "open_all (env_aead E) CHANNEL_CONTROL rp' rs = Inr ps'" "ps = p # ps'"
    by (cases x) (auto simp: rbind_Inr_iff)
  with Cons.prems(2) obtain c cs' where c: "cs = c # cs'" "decode_client_control (se_crypto E) (se_codec E) p = Inr c"
      "list_all2 (\<lambda>p c. decode_client_control (se_crypto E) (se_codec E) p = Inr c) ps' cs'"
    by (auto simp: list_all2_Cons1)
  from Cons.IH [OF p(2) c(3)] o p(1) c(1,2) show ?case by auto
qed simp

text \<open>The controls handled one after the other by a server that is not held up and accepts them all.\<close>

fun serve :: "'s server_env \<Rightarrow> conn_state \<Rightarrow> 's \<Rightarrow> client_control list \<Rightarrow> (conn_state \<times> 's) option" where
  "serve E state st [] = Some (state, st)"
| "serve E state st (c # cs) =
     (if se_clogged E st \<or> se_pending E st \<or>
         se_identity_busy E st \<and> state = AwaitAuth \<and> identity_control_needs_ordering c then None
      else case handle_control E c state st of
             (Inr _, Keep state', st') \<Rightarrow> if state' = AwaitClientHello then None else serve E state' st' cs
           | _ \<Rightarrow> None)"

lemma encode_prefixed: "length p \<le> MAX_FRAME_LEN \<Longrightarrow> encode_frame p [] = Inr (prefixed p)"
  by (simp add: encode_frame_def prefixed_def MAX_FRAME_LEN_def)

lemma buffered_frame:
  assumes "pending @ later = prefixed r @ rest" and "length r \<le> MAX_FRAME_LEN"
  shows "(\<exists>more. pending = prefixed r @ more \<and> more @ later = rest \<and> parse_frame pending = Inr (Some (r, length (prefixed r)))) \<or>
         parse_frame pending = Inr None \<and> length pending < length (prefixed r) \<and> later \<noteq> []"
proof (cases "length (prefixed r) \<le> length pending")
  case True
  with assms(1) obtain more where m: "pending = prefixed r @ more" "more @ later = rest"
    by (metis append_eq_append_conv_if append_take_drop_id)
  then show ?thesis using control_lane.parse_encoded [OF encode_prefixed [OF assms(2)], of more] by blast
next
  case False
  then have "pending = take (length pending) (prefixed r)"
    using assms(1) by (metis append_eq_conv_conj linorder_le_cases take_all_iff take_append append.right_neutral diff_is_0_eq take_0)
  moreover have "parse_frame (take (length pending) (prefixed r)) = Inr None"
    using control_lane.parse_partial [OF encode_prefixed [OF assms(2)]] False by simp
  moreover have "later \<noteq> []" using assms(1) False by (metis append_Nil2 length_append le_add1)
  ultimately show ?thesis using False by auto
qed

text \<open>
  A connection in the middle of the channel: what is buffered and what is still to come are the frames
  of records that open to the controls \<open>cs\<close>, and serving these ends in \<open>fin\<close>.
\<close>

definition in_channel :: "'s server_env \<Rightarrow> conn_state \<times> 's \<Rightarrow> bytes \<Rightarrow> client_control list \<Rightarrow> control_conn \<Rightarrow> 's \<Rightarrow> bool" where
  "in_channel E fin later cs client st \<longleftrightarrow>
     cc_kind client = ControlKind \<and> cc_state client \<noteq> AwaitClientHello \<and> \<not> cc_closing client \<and> rb_inv (cc_read_buf client) \<and>
     serve E (cc_state client) st cs = Some fin \<and>
     (\<exists>rp rs. cc_control client = Some rp \<and> opens E rp rs cs \<and> list_all (\<lambda>r. length r \<le> MAX_FRAME_LEN) rs \<and>
        rb_pending (cc_read_buf client) @ later = concat (map prefixed rs))"

lemma in_channel_step:
  assumes "in_channel E fin later (c # cs) client st"
  shows "(\<exists>client'. control_conn_step E client = (Inr (Some (StepControl c)), client') \<and>
            cc_kind client' = ControlKind \<and> \<not> cc_closing client' \<and> cc_state client' = cc_state client \<and> rb_inv (cc_read_buf client') \<and>
            (\<exists>rp rs. cc_control client' = Some rp \<and> opens E rp rs cs \<and> list_all (\<lambda>r. length r \<le> MAX_FRAME_LEN) rs \<and>
               rb_pending (cc_read_buf client') @ later = concat (map prefixed rs))) \<or>
         control_conn_step E client = (Inr None, client) \<and> later \<noteq> [] \<and> parse_frame (rb_pending (cc_read_buf client)) = Inr None"
proof -
  let ?b = "cc_read_buf client"
  from assms obtain rp rs where ch: "cc_control client = Some rp" "opens E rp rs (c # cs)"
      "list_all (\<lambda>r. length r \<le> MAX_FRAME_LEN) rs" "rb_pending ?b @ later = concat (map prefixed rs)"
    and k: "cc_kind client = ControlKind" "\<not> cc_closing client" "cc_state client \<noteq> AwaitClientHello" "rb_inv ?b"
    unfolding in_channel_def by blast
  from ch(2) obtain r rs' p rp' where r: "rs = r # rs'" "open_next (env_aead E) rp CHANNEL_CONTROL r = (Inr p, rp')"
      "decode_client_control (se_crypto E) (se_codec E) p = Inr c" "opens E rp' rs' cs"
    by (cases rs) auto
  from buffered_frame [of "rb_pending ?b" later r "concat (map prefixed rs')"] ch(3,4) r(1)
  consider more where "rb_pending ?b = prefixed r @ more" "more @ later = concat (map prefixed rs')"
      "parse_frame (rb_pending ?b) = Inr (Some (r, length (prefixed r)))"
    | "parse_frame (rb_pending ?b) = Inr None" "later \<noteq> []"
    by auto
  then show ?thesis
  proof cases
    case 1
    let ?n = "length (prefixed r)"
    have c: "rb_inv (rb_consume ?n ?b)" "rb_pending (rb_consume ?n ?b) = more"
      using rb.invar_pop [OF k(4), of ?n] rb.pending_pop [OF k(4), of ?n] 1(1) by simp_all
    have f: "subslice LENGTH_PREFIX_LEN ?n (rb_pending ?b) = r"
      using 1(1) by (simp add: LENGTH_PREFIX_LEN_def subslice_def prefixed_def)
    have "control_conn_step E client =
        (Inr (Some (StepControl c)), client\<lparr>cc_read_buf := rb_consume ?n ?b, cc_control := Some rp'\<rparr>)"
      using 1(3) f r(2,3) ch(1) k(3) by (cases "cc_state client") (simp_all add: control_conn_step_def)
    then show ?thesis using c 1(2) ch(3) r(1,4) k by auto
  next
    case 2
    then show ?thesis by (simp add: control_conn_step_def)
  qed
qed

lemma in_channel_loop:
  assumes "in_channel E fin later cs client st"
  shows "\<exists>exit client' st' cs'. read_controls E n client st = (exit, Some client', st') \<and>
     in_channel E fin later cs' client' st' \<and>
     (exit = StepLimit \<and> length cs' + n = length cs \<or> exit = Parked \<and> length cs' \<le> length cs \<and> (later = [] \<longrightarrow> cs' = []))"
  using assms
proof (induction n arbitrary: cs client st)
  case 0
  then show ?case by auto
next
  case (Suc n)
  show ?case
  proof (cases cs)
    case Nil
    with Suc.prems have "rb_pending (cc_read_buf client) = []"
      unfolding in_channel_def by (metis append_is_Nil_conv concat.simps(1) list.exhaust list.map(1) opens.simps(2) list.distinct(1))
    then have "control_conn_step E client = (Inr None, client)"
      by (simp add: control_conn_step_def control_lane.parse_nil)
    moreover have "\<not> cc_closing client" using Suc.prems by (simp add: in_channel_def)
    ultimately show ?thesis using Suc.prems Nil by (auto intro!: exI [of _ Parked])
  next
    case (Cons c cs')
    from Suc.prems have sv: "serve E (cc_state client) st (c # cs') = Some fin" and cl: "\<not> cc_closing client"
      by (simp_all add: in_channel_def Cons)
    then have free: "\<not> (se_clogged E st \<or> se_pending E st)"
        "\<not> (se_identity_busy E st \<and> cc_state client = AwaitAuth \<and> identity_control_needs_ordering c)"
      by (auto split: if_splits)
    from sv free obtain u state' st' where h: "handle_control E c (cc_state client) st = (Inr u, Keep state', st')"
        "state' \<noteq> AwaitClientHello" "serve E state' st' cs' = Some fin"
      by (auto split: prod.splits sum.splits conn_change.splits if_splits)
    from in_channel_step [OF Suc.prems [unfolded Cons]] show ?thesis
    proof (elim disjE exE conjE)
      fix client' rp rs
      assume s: "control_conn_step E client = (Inr (Some (StepControl c)), client')" "cc_state client' = cc_state client"
        and c: "cc_kind client' = ControlKind" "\<not> cc_closing client'" "rb_inv (cc_read_buf client')" "cc_control client' = Some rp"
          "opens E rp rs cs'" "list_all (\<lambda>r. length r \<le> MAX_FRAME_LEN) rs"
          "rb_pending (cc_read_buf client') @ later = concat (map prefixed rs)"
      let ?client = "client'\<lparr>cc_state := state'\<rparr>"
      have "in_channel E fin later cs' ?client st'"
        using c h(2,3) by (auto simp: in_channel_def)
      from Suc.IH [OF this] have "\<exists>exit client' st'' cs''. read_controls E n ?client st' = (exit, Some client', st'') \<and>
          in_channel E fin later cs'' client' st'' \<and>
          (exit = StepLimit \<and> length cs'' + Suc n = length cs \<or>
           exit = Parked \<and> length cs'' \<le> length cs \<and> (later = [] \<longrightarrow> cs'' = []))"
        by (fastforce simp: Cons)
      moreover have "read_controls E (Suc n) client st = read_controls E n ?client st'"
        using free cl s h(1) by (auto simp: apply_change_def)
      ultimately show ?thesis by simp
    next
      assume "control_conn_step E client = (Inr None, client)" "later \<noteq> []"
      then show ?thesis using free cl Suc.prems by (auto intro!: exI [of _ Parked])
    qed
  qed
qed

text \<open>
  A pass over the buffer ends parked or queued again. With nothing to come, a parked connection has no
  control left, and a pass that has some left has handled some.
\<close>

definition settled :: "bool \<Rightarrow> read_exit \<Rightarrow> bytes \<Rightarrow> client_control list \<Rightarrow> client_control list \<Rightarrow> bool" where
  "settled ready exit later cs cs' \<longleftrightarrow>
     (exit = ReadParked \<or> exit = ReadRequeued) \<and>
     length cs' \<le> length cs \<and> (later = [] \<longrightarrow> length cs' \<le> length cs - 1 \<and> (exit = ReadParked \<longrightarrow> cs' = []) \<and>
        (cs' = [] \<longrightarrow> \<not> ready \<longrightarrow> exit = ReadParked))"

lemma in_channel_idle:
  assumes "in_channel E fin [] cs client st"
  shows "client_read_work_ready E False client st \<longleftrightarrow> cs \<noteq> []"
proof (cases cs)
  case Nil
  with assms have "rb_pending (cc_read_buf client) = []"
    unfolding in_channel_def by (metis append_is_Nil_conv concat.simps(1) list.exhaust list.map(1) opens.simps(2) list.distinct(1))
  then show ?thesis using Nil by (simp add: client_read_work_ready_def control_lane.parse_nil)
next
  case (Cons c cs')
  with assms have "\<not> cc_closing client" "\<not> se_clogged E st" "\<not> se_pending E st"
    by (auto simp: in_channel_def split: if_splits)
  moreover from in_channel_step [OF assms [unfolded Cons]] have "parse_frame (rb_pending (cc_read_buf client)) \<noteq> Inr None"
    by (auto simp: control_conn_step_def)
  ultimately show ?thesis using Cons by (simp add: client_read_work_ready_def)
qed

lemma pass_settled:
  assumes "read_controls E CONTROL_STEPS_PER_READ client st = (exit, Some client', st')"
    and "in_channel E fin later cs' client' st'" and "0 < n"
    and "exit = StepLimit \<and> length cs' + n = length cs \<or>
      exit = Parked \<and> length cs' \<le> length cs \<and> (later = [] \<longrightarrow> cs' = [])"
  shows "\<exists>x. control_pass E ready client st = (x, Some client', st') \<and> settled ready x later cs cs'"
proof -
  let ?x = "if ready \<or> exit = StepLimit \<and> client_read_work_ready E ready client' st' then ReadRequeued else ReadParked"
  have p: "control_pass E ready client st = (?x, Some client', st')"
    by (simp add: control_pass_def assms(1))
  have "settled ready ?x later cs cs'"
  proof (cases ready)
    case True
    then show ?thesis using assms(3,4) by (auto simp: settled_def)
  next
    case False
    have "client_read_work_ready E ready client' st' \<longleftrightarrow> cs' \<noteq> []" if "later = []"
      using in_channel_idle assms(2) that False by simp
    then show ?thesis using assms(3,4) False by (auto simp: settled_def)
  qed
  with p show ?thesis by blast
qed

lemma in_channel_pass:
  assumes "in_channel E fin later cs client st"
  shows "\<exists>exit client' st' cs'. control_pass E ready client st = (exit, Some client', st') \<and>
     in_channel E fin later cs' client' st' \<and> settled ready exit later cs cs'"
proof -
  from in_channel_loop [OF assms, of CONTROL_STEPS_PER_READ] obtain exit client' st' cs' where
    l: "read_controls E CONTROL_STEPS_PER_READ client st = (exit, Some client', st')"
      "in_channel E fin later cs' client' st'"
      "exit = StepLimit \<and> length cs' + CONTROL_STEPS_PER_READ = length cs \<or>
       exit = Parked \<and> length cs' \<le> length cs \<and> (later = [] \<longrightarrow> cs' = [])" by blast
  have "0 < CONTROL_STEPS_PER_READ" by (simp add: CONTROL_STEPS_PER_READ_def)
  from pass_settled [OF l(1,2) this l(3)] l(2) show ?thesis by blast
qed

lemma push_pending: "rb_inv b \<Longrightarrow> rb_pending (rb_push s b) = rb_pending b @ s" "rb_inv b \<Longrightarrow> rb_inv (rb_push s b)"
  using rb.pending_push rb.invar_push by auto

lemma in_channel_read:
  assumes "in_channel E fin (sf_bytes fill @ later) cs client st" and "\<not> sf_disconnected fill"
  shows "\<exists>exit client' st' cs'. read_client E fill client st = (exit, Some client', st') \<and>
     in_channel E fin later cs' client' st' \<and> settled (\<not> se_clogged E st \<and> sf_hit_limit fill) exit later cs cs'"
proof -
  let ?c1 = "if se_clogged E st then client else client\<lparr>cc_read_buf := rb_push (sf_bytes fill) (cc_read_buf client)\<rparr>"
  have "in_channel E fin later cs ?c1 st"
  proof (cases "se_clogged E st")
    case True
    with assms have "cs = []" by (cases cs) (auto simp: in_channel_def)
    with assms have "sf_bytes fill @ later = []"
      unfolding in_channel_def by (metis append_is_Nil_conv concat.simps(1) list.exhaust list.map(1) opens.simps(2) list.distinct(1))
    with True assms show ?thesis by simp
  next
    case False
    with assms show ?thesis by (auto simp: in_channel_def push_pending)
  qed
  from in_channel_pass [OF this, of "\<not> se_clogged E st \<and> sf_hit_limit fill"]
  have "\<exists>exit client' st' cs'. control_pass E (\<not> se_clogged E st \<and> sf_hit_limit fill) ?c1 st = (exit, Some client', st') \<and>
     in_channel E fin later cs' client' st' \<and> settled (\<not> se_clogged E st \<and> sf_hit_limit fill) exit later cs cs'" .
  moreover have "cc_kind client = ControlKind" using assms(1) by (simp add: in_channel_def)
  then have "read_client E fill client st = control_pass E (\<not> se_clogged E st \<and> sf_hit_limit fill) ?c1 st"
    using assms(2) by (simp add: read_client_def Let_def)
  ultimately show ?thesis by simp
qed

lemma settled_read_all:
  assumes "read_client E fill client st = (x, Some client', st')" and "settled ready x later cs cs'"
  shows "read_all E (fill # fills) exit client st = read_all E fills x client' st'"
  using assms by (auto simp: settled_def)

lemma in_channel_reads:
  assumes "in_channel E fin (concat (map sf_bytes fills)) cs client st" and "list_all (\<lambda>f. \<not> sf_disconnected f) fills"
  shows "\<exists>exit' client' st' cs'. read_all E (fills @ idle) exit client st = read_all E idle exit' client' st' \<and>
     in_channel E fin [] cs' client' st' \<and> length cs' \<le> length cs"
  using assms
proof (induction fills arbitrary: exit client st cs)
  case Nil
  then show ?case by auto
next
  case (Cons f fs)
  from in_channel_read [of E fin f "concat (map sf_bytes fs)" cs client st] Cons.prems obtain x client1 st1 cs1 where
    r: "read_client E f client st = (x, Some client1, st1)" "in_channel E fin (concat (map sf_bytes fs)) cs1 client1 st1"
      "settled (\<not> se_clogged E st \<and> sf_hit_limit f) x (concat (map sf_bytes fs)) cs cs1"
    by auto
  then have "length cs1 \<le> length cs" by (simp add: settled_def)
  with Cons.IH [OF r(2)] Cons.prems(2) settled_read_all [OF r(1,3), of "fs @ idle"] show ?case by fastforce
qed

definition idle_fill :: socket_fill where
  "idle_fill = \<lparr>sf_bytes = [], sf_hit_limit = False, sf_disconnected = False\<rparr>"

lemma in_channel_drains:
  assumes "in_channel E fin [] cs client st" and "length cs \<le> Suc n"
  shows "\<exists>client' st'. read_all E (replicate (Suc n) idle_fill) exit client st = (ReadParked, Some client', st') \<and>
     in_channel E fin [] [] client' st'"
  using assms
proof (induction n arbitrary: exit client st cs)
  case 0
  from in_channel_read [of E fin idle_fill "[]" cs client st] 0 obtain x client1 st1 cs1 where
    r: "read_client E idle_fill client st = (x, Some client1, st1)" "in_channel E fin [] cs1 client1 st1" "settled False x [] cs cs1"
    by (auto simp: idle_fill_def)
  then have "cs1 = []" "x = ReadParked" using 0 by (auto simp: settled_def)
  with r show ?case by simp
next
  case (Suc n)
  from in_channel_read [of E fin idle_fill "[]" cs client st] Suc.prems obtain x client1 st1 cs1 where
    r: "read_client E idle_fill client st = (x, Some client1, st1)" "in_channel E fin [] cs1 client1 st1" "settled False x [] cs cs1"
    by (auto simp: idle_fill_def)
  then have "length cs1 \<le> Suc n" using Suc.prems by (auto simp: settled_def)
  from Suc.IH [OF r(2) this, of x] settled_read_all [OF r(1,3), of "replicate (Suc n) idle_fill" exit]
  show ?case by simp
qed

lemma in_channel_end:
  assumes "in_channel E fin [] [] client st"
  shows "fin = (cc_state client, st)" and "rb_pending (cc_read_buf client) = []"
proof -
  show "fin = (cc_state client, st)" using assms by (simp add: in_channel_def)
  show "rb_pending (cc_read_buf client) = []"
    using assms unfolding in_channel_def
    by (metis append_is_Nil_conv concat.simps(1) list.exhaust list.map(1) opens.simps(2) list.distinct(1))
qed

subsection \<open>The greeting\<close>

text \<open>The server answers the hello \<open>hello\<close> with \<open>sh\<close> and the transport \<open>tr\<close>, and can queue and flush its answer.\<close>

definition answers ::
  "'s server_env \<Rightarrow> client_hello \<Rightarrow> server_hello \<Rightarrow> session_transport \<Rightarrow> 's \<Rightarrow> 's \<Rightarrow> bool" where
  "answers E hello sh tr st st1 \<longleftrightarrow>
     (se_require_hello_mac E \<longrightarrow> verify_client_hello_mac1 (se_crypto E) (ed_public (se_crypto E) (se_key_pair E)) hello) \<and>
     respond_to_client_hello (se_crypto E) (se_rng E) (se_key_pair E) hello (se_mode E) = Inr (sh, tr) \<and>
     length (to_binary_server_hello (se_codec E) sh) \<le> MAX_FRAME_LEN \<and>
     (\<exists>q. se_write E (wq_tail_append (prefixed (to_binary_server_hello (se_codec E) sh)) wq_new) st = (Some q, st1))"

lemma hello_answered:
  assumes "answers E hello sh tr st st1" and "cc_write_buf client = wq_new"
  shows "\<exists>q. handle_client_hello E hello client st =
     (Inr (), Some (client\<lparr>cc_control := Some (control_record tr), cc_transport := Some tr,
                           cc_state := AwaitAuth, cc_write_buf := q\<rparr>), st1)"
  using assms by (auto simp: answers_def handle_client_hello_def encode_prefixed Let_def)

definition in_greeting ::
  "'s server_env \<Rightarrow> conn_state \<times> 's \<Rightarrow> bytes \<Rightarrow> session_transport \<Rightarrow> bytes \<Rightarrow> client_control list \<Rightarrow> control_conn \<Rightarrow> bool" where
  "in_greeting E fin h tr later cs client \<longleftrightarrow>
     (cc_kind client = Unidentified \<or> cc_kind client = ControlKind) \<and> cc_state client = AwaitClientHello \<and>
     \<not> cc_closing client \<and> rb_inv (cc_read_buf client) \<and> cc_write_buf client = wq_new \<and>
     (\<exists>rs. opens E (control_record tr) rs cs \<and> list_all (\<lambda>r. length r \<le> MAX_FRAME_LEN) rs \<and>
        rb_pending (cc_read_buf client) @ later = prefixed h @ concat (map prefixed rs))"

text \<open>The hello \<open>hello\<close> is read from its encoding \<open>h\<close>, answered in \<open>st\<close>, and the controls served after it.\<close>

definition welcomes ::
  "'s server_env \<Rightarrow> conn_state \<times> 's \<Rightarrow> bytes \<Rightarrow> session_transport \<Rightarrow> client_control list \<Rightarrow> 's \<Rightarrow> bool" where
  "welcomes E fin h tr cs st \<longleftrightarrow>
     length VIDEO_MAGIC \<le> length (prefixed h) \<and> length h \<le> MAX_CONTROL_PAYLOAD_BYTES \<and>
     \<not> se_clogged E st \<and> \<not> se_pending E st \<and>
     (\<exists>hello sh st1. from_binary_client_hello (se_codec E) h = Inr hello \<and> answers E hello sh tr st st1 \<and>
        serve E AwaitAuth st1 cs = Some fin)"

lemma hello_frame: "length h \<le> MAX_CONTROL_PAYLOAD_BYTES \<Longrightarrow> length h \<le> MAX_FRAME_LEN"
  by (simp add: MAX_CONTROL_PAYLOAD_BYTES_def MAX_FRAME_LEN_def)

lemma greeting_loop:
  assumes "in_greeting E fin h tr later cs client" and "welcomes E fin h tr cs st" and "cc_kind client = ControlKind"
  shows "read_controls E (Suc n) client st = (Parked, Some client, st) \<and> later \<noteq> [] \<or>
     (\<exists>client1 st1. read_controls E (Suc n) client st = read_controls E n client1 st1 \<and> in_channel E fin later cs client1 st1)"
proof -
  let ?b = "cc_read_buf client"
  from assms(1) obtain rs where rs: "opens E (control_record tr) rs cs" "list_all (\<lambda>r. length r \<le> MAX_FRAME_LEN) rs"
      "rb_pending ?b @ later = prefixed h @ concat (map prefixed rs)"
    and k: "cc_state client = AwaitClientHello" "\<not> cc_closing client" "rb_inv ?b" "cc_write_buf client = wq_new"
    unfolding in_greeting_def by blast
  from assms(2) obtain hello sh st1 where w: "length h \<le> MAX_CONTROL_PAYLOAD_BYTES" "\<not> se_clogged E st" "\<not> se_pending E st"
      "from_binary_client_hello (se_codec E) h = Inr hello" "answers E hello sh tr st st1" "serve E AwaitAuth st1 cs = Some fin"
    unfolding welcomes_def by blast
  from buffered_frame [OF rs(3) hello_frame [OF w(1)]]
  consider more where "rb_pending ?b = prefixed h @ more" "more @ later = concat (map prefixed rs)"
      "parse_frame (rb_pending ?b) = Inr (Some (h, length (prefixed h)))"
    | "parse_frame (rb_pending ?b) = Inr None" "later \<noteq> []"
    by blast
  then show ?thesis
  proof cases
    case 1
    let ?n = "length (prefixed h)"
    let ?c = "client\<lparr>cc_read_buf := rb_consume ?n ?b\<rparr>"
    have c: "rb_inv (rb_consume ?n ?b)" "rb_pending (rb_consume ?n ?b) = more"
      using rb.invar_pop [OF k(3), of ?n] rb.pending_pop [OF k(3), of ?n] 1(1) by simp_all
    have f: "subslice LENGTH_PREFIX_LEN ?n (rb_pending ?b) = h"
      using 1(1) by (simp add: LENGTH_PREFIX_LEN_def subslice_def prefixed_def)
    have step: "control_conn_step E client = (Inr (Some (StepHello hello)), ?c)"
      using 1(3) f w(1,4) k(1) bounded_decode_Inr [of "from_binary_client_hello (se_codec E)" h hello]
      by (simp add: control_conn_step_def)
    obtain q where h: "handle_client_hello E hello ?c st =
        (Inr (), Some (?c\<lparr>cc_control := Some (control_record tr), cc_transport := Some tr,
                           cc_state := AwaitAuth, cc_write_buf := q\<rparr>), st1)"
      using hello_answered [OF w(5), of ?c] k(4) by auto
    show ?thesis
      using step h w(2,3,6) k(2) c rs(1,2) 1(2) assms(3)
      by (intro disjI2 exI conjI, simp) (auto simp: in_channel_def)
  next
    case 2
    then show ?thesis using w(2,3) k(2) by (simp add: control_conn_step_def)
  qed
qed

lemma greeting_pass:
  assumes "in_greeting E fin h tr later cs client" and "welcomes E fin h tr cs st" and "cc_kind client = ControlKind"
  shows "(\<exists>x. control_pass E ready client st = (x, Some client, st) \<and> (x = ReadParked \<or> x = ReadRequeued) \<and> later \<noteq> []) \<or>
     (\<exists>x client' st' cs'. control_pass E ready client st = (x, Some client', st') \<and>
        in_channel E fin later cs' client' st' \<and> settled ready x later cs cs')"
proof -
  have n: "CONTROL_STEPS_PER_READ = Suc 63" by (simp add: CONTROL_STEPS_PER_READ_def)
  from greeting_loop [OF assms, of 63] consider
      "read_controls E CONTROL_STEPS_PER_READ client st = (Parked, Some client, st)" "later \<noteq> []"
    | client1 st1 where "read_controls E CONTROL_STEPS_PER_READ client st = read_controls E 63 client1 st1"
        "in_channel E fin later cs client1 st1"
    unfolding n by blast
  then show ?thesis
  proof cases
    case 1
    then show ?thesis by (simp add: control_pass_def)
  next
    case 2
    from in_channel_loop [OF 2(2), of 63] obtain exit client' st' cs' where
      l: "read_controls E CONTROL_STEPS_PER_READ client st = (exit, Some client', st')" "in_channel E fin later cs' client' st'"
        "exit = StepLimit \<and> length cs' + 63 = length cs \<or> exit = Parked \<and> length cs' \<le> length cs \<and> (later = [] \<longrightarrow> cs' = [])"
      unfolding 2(1) by blast
    from pass_settled [OF l(1,2) _ l(3)] l(2) show ?thesis by (intro disjI2) (simp; blast)
  qed
qed
text \<open>The first bytes of a frame are never the preamble of another lane.\<close>

lemma video_preamble_not_a_frame: "parse_frame (VIDEO_MAGIC @ rest) = Inl Frame_TooLarge"
  by (simp add: parse_frame_def parse_frame_with_limit_alt VIDEO_MAGIC_def ascii_bytes_def Let_def
      MAX_FRAME_LEN_def from_le_def unat_of_nat of_char_def)

lemma voice_magic_not_a_frame: "parse_frame (VOICE_TCP_MAGIC @ rest) = Inl Frame_TooLarge"
  by (simp add: parse_frame_def parse_frame_with_limit_alt VOICE_TCP_MAGIC_def ascii_bytes_def Let_def
      MAX_FRAME_LEN_def from_le_def unat_of_nat of_char_def)

lemma greeting_no_magic:
  assumes "in_greeting E fin h tr later cs client" and "welcomes E fin h tr cs st"
  shows "\<not> starts_with VIDEO_MAGIC (rb_pending (cc_read_buf client))"
    and "\<not> starts_with VOICE_TCP_MAGIC (rb_pending (cc_read_buf client))"
proof -
  let ?p = "rb_pending (cc_read_buf client)"
  from assms obtain rest where "?p @ later = prefixed h @ rest" "length h \<le> MAX_FRAME_LEN"
    using hello_frame by (auto simp: in_greeting_def welcomes_def)
  from buffered_frame [OF this] have "parse_frame ?p \<noteq> Inl Frame_TooLarge" by auto
  then show "\<not> starts_with VIDEO_MAGIC ?p" "\<not> starts_with VOICE_TCP_MAGIC ?p"
    using video_preamble_not_a_frame voice_magic_not_a_frame by (metis starts_with_iff)+
qed

lemma greeting_read:
  assumes "in_greeting E fin h tr (sf_bytes fill @ later) cs client" and "welcomes E fin h tr cs st"
    and "\<not> sf_disconnected fill"
  shows "(\<exists>x client'. read_client E fill client st = (x, Some client', st) \<and> (x = ReadParked \<or> x = ReadRequeued) \<and>
            in_greeting E fin h tr later cs client' \<and> later \<noteq> []) \<or>
     (\<exists>x client' st' cs'. read_client E fill client st = (x, Some client', st') \<and>
        in_channel E fin later cs' client' st' \<and> settled (sf_hit_limit fill) x later cs cs')"
proof -
  let ?c = "client\<lparr>cc_read_buf := rb_push (sf_bytes fill) (cc_read_buf client)\<rparr>"
  let ?k = "?c\<lparr>cc_kind := ControlKind\<rparr>"
  from assms(1) have g: "in_greeting E fin h tr later cs ?c" "in_greeting E fin h tr later cs ?k"
    by (auto simp: in_greeting_def push_pending)
  have free: "\<not> se_clogged E st" and h: "length VIDEO_MAGIC \<le> length (prefixed h)"
    using assms(2) by (simp_all add: welcomes_def)
  have k: "cc_kind client = Unidentified \<or> cc_kind client = ControlKind" using assms(1) by (simp add: in_greeting_def)
  show ?thesis
  proof (cases "cc_kind client = Unidentified \<and> length (rb_pending (cc_read_buf ?c)) < length VIDEO_MAGIC")
    case True
    from g(1) obtain rest where "rb_pending (cc_read_buf ?c) @ later = prefixed h @ rest" by (auto simp: in_greeting_def)
    with True h have "later \<noteq> []" by (metis append_Nil2 length_append linorder_not_less trans_le_add1)
    moreover from True have "read_client E fill client st =
        (if sf_hit_limit fill then ReadRequeued else ReadParked, Some ?c, st)"
      using assms(3) by (simp add: read_client_def Let_def)
    ultimately show ?thesis using g(1) by auto
  next
    case False
    have "read_client E fill client st = control_pass E (sf_hit_limit fill) ?k st"
    proof (cases "cc_kind client = ControlKind")
      case True
      then have same: "?k = ?c" by (cases client) simp
      have "read_client E fill client st = control_pass E (sf_hit_limit fill) ?c st"
        using True assms(3) free by (simp add: read_client_def Let_def)
      then show ?thesis by (simp only: same)
    next
      case unknown: False
      then have "cc_kind client = Unidentified" using k by simp
      then show ?thesis
        using False assms(3) greeting_no_magic [OF g(1) assms(2)] by (simp add: read_client_def Let_def)
    qed
    with greeting_pass [OF g(2) assms(2), of "sf_hit_limit fill"] g(2) show ?thesis by auto
  qed
qed

lemma greeting_reads:
  assumes "in_greeting E fin h tr (concat (map sf_bytes fills)) cs client" and "welcomes E fin h tr cs st"
    and "list_all (\<lambda>f. \<not> sf_disconnected f) fills" and "fills \<noteq> []"
  shows "\<exists>exit' client' st' cs'. read_all E (fills @ idle) exit client st = read_all E idle exit' client' st' \<and>
     in_channel E fin [] cs' client' st' \<and> length cs' \<le> length cs"
  using assms
proof (induction fills arbitrary: exit client)
  case (Cons f fs)
  let ?later = "concat (map sf_bytes fs)"
  from greeting_read [of E fin h tr f ?later cs client st] Cons.prems
  consider x client1 where "read_client E f client st = (x, Some client1, st)" "x = ReadParked \<or> x = ReadRequeued"
      "in_greeting E fin h tr ?later cs client1" "?later \<noteq> []"
    | x client1 st1 cs1 where "read_client E f client st = (x, Some client1, st1)"
      "in_channel E fin ?later cs1 client1 st1" "settled (sf_hit_limit f) x ?later cs cs1"
    by auto
  then show ?case
  proof cases
    case 1
    then have "read_all E ((f # fs) @ idle) exit client st = read_all E (fs @ idle) x client1 st" by auto
    moreover have "fs \<noteq> []" using 1(4) by auto
    ultimately show ?thesis using Cons.IH [OF 1(3), of x] Cons.prems(2,3) by (simp del: read_all.simps)
  next
    case 2
    have "length cs1 \<le> length cs" using 2(3) by (simp add: settled_def)
    with in_channel_reads [OF 2(2), of idle x] settled_read_all [OF 2(1,3), of "fs @ idle" exit] Cons.prems(3)
    show ?thesis by (simp del: read_all.simps) (metis order_trans)
  qed
qed simp
lemma seal_all_lengths:
  assumes "aead_correct A" and "seal_all A channel rp ps = Inr fs"
  shows "list_all2 (\<lambda>p f. length f = sealed_len rp (length p)) ps fs"
  using assms(2)
proof (induction ps arbitrary: rp fs)
  case (Cons p ps)
  from Cons.prems obtain rp' f fs' where
    s: "seal_next_into A rp channel p [] = (Inr (), rp', f)" "seal_all A channel rp' ps = Inr fs'" "fs = f # fs'"
    by (auto simp: rbind_Inr_iff split: prod.splits)
  have "sealed_len rp' = sealed_len rp"
    using s(1) by (cases rp) (auto simp: seal_next_into_def sealed_len_def split: prod.splits)
  with Cons.IH [OF s(2)] s(3) seal_appends_sealed_len [OF assms(1) s(1)] show ?case by simp
qed simp

lemma sealed_controls_fit:
  assumes "aead_correct A" and "seal_all A channel rp ps = Inr fs" and "list_all (\<lambda>p. length p \<le> MAX_CONTROL_PAYLOAD_BYTES) ps"
  shows "list_all (\<lambda>f. length f \<le> MAX_FRAME_LEN) fs"
proof -
  have "sealed_len rp n \<le> MAX_FRAME_LEN" if "n \<le> MAX_CONTROL_PAYLOAD_BYTES" for n
    using that by (cases rp) (simp_all add: sealed_len_def MAX_CONTROL_PAYLOAD_BYTES_def MAX_FRAME_LEN_def crypto_lens)
  then show ?thesis
    using seal_all_lengths [OF assms(1,2)] assms(3)
    by (auto simp: list_all2_conv_all_nth list_all_length)
qed

text \<open>What a client that completed the handshake writes for its controls.\<close>

definition sends :: "'s server_env \<Rightarrow> session_transport \<Rightarrow> client_control list \<Rightarrow> bytes list \<Rightarrow> bool" where
  "sends E ct cs frames \<longleftrightarrow>
     (\<exists>ps. list_all2 (\<lambda>p c. encode_client_control (se_crypto E) (se_codec E) c = Inr p \<and>
              length p \<le> MAX_CONTROL_PAYLOAD_BYTES \<and> from_binary_control (se_codec E) p = Inr c) ps cs \<and>
           seal_all (env_aead E) CHANNEL_CONTROL (control_record ct) ps = Inr frames)"

lemma sends_opens:
  assumes "aead_correct (env_aead E)" and "aead_exact (env_aead E)"
    and "mirrored (control_record ct) (control_record tr)" and "sends E ct cs frames"
  shows "opens E (control_record tr) frames cs \<and> list_all (\<lambda>r. length r \<le> MAX_FRAME_LEN) frames"
proof -
  from assms(4) obtain ps where
    p: "list_all2 (\<lambda>p c. encode_client_control (se_crypto E) (se_codec E) c = Inr p \<and>
              length p \<le> MAX_CONTROL_PAYLOAD_BYTES \<and> from_binary_control (se_codec E) p = Inr c) ps cs"
      "seal_all (env_aead E) CHANNEL_CONTROL (control_record ct) ps = Inr frames"
    unfolding sends_def by blast
  have "list_all2 (\<lambda>p c. decode_client_control (se_crypto E) (se_codec E) p = Inr c) ps cs"
    by (rule list_all2_mono [OF p(1)]) (auto simp: decode_client_control_Inr encode_client_control_Inr)
  moreover have "open_all (env_aead E) CHANNEL_CONTROL (control_record tr) frames = Inr ps"
    using lane_iff [OF assms(1-3)] p(2) by blast
  moreover have "list_all (\<lambda>p. length p \<le> MAX_CONTROL_PAYLOAD_BYTES) ps"
    using p(1) by (auto simp: list_all2_conv_all_nth list_all_length)
  ultimately show ?thesis using opens_open_all sealed_controls_fit [OF assms(1) p(2)] by blast
qed

lemma greeting_new:
  assumes "opens E (control_record tr) frames cs" and "list_all (\<lambda>r. length r \<le> MAX_FRAME_LEN) frames"
  shows "in_greeting E fin h tr (prefixed h @ concat (map prefixed frames)) cs conn_new"
  using assms rb.invar_fresh rb.pending_fresh by (auto simp: in_greeting_def conn_new_def)

lemma generated_mac1:
  assumes "hmac_is_32 F" and "generate_client_hello F rng (Some pk) = Inr (priv, h)"
  shows "verify_client_hello_mac1 F pk h"
  using generate_Inr [OF assms(2)] length_mac1 [OF assms(1), of pk h] by (simp add: verify_client_hello_mac1_def ct_diff_eq)

text \<open>
  C0. The control channel, from the first byte to the last handler. A client that generated its hello
  for this server, and completed the handshake with the server's answer, writes the hello and then
  sealed controls. However the network and the read budgets cut these bytes, and however many controls
  arrive at once, the server classifies the connection as a control connection, answers the hello, and
  handles exactly these controls, once each and in order: once the event loop has called it often enough
  for what it queued itself (a read handles at most 64 controls), the connection is parked with an empty
  buffer in the state that handling the controls one by one gives.
\<close>

theorem controls_served_in_order:
  assumes "dh_agrees (se_crypto E)" and "signatures_verify (se_crypto E)" and "hmac_is_32 (se_crypto E)"
    and "aead_correct (env_aead E)" and "aead_exact (env_aead E)"
    and "generate_client_hello (se_crypto E) rng_c pk = Inr (priv, hello)"
    and "se_require_hello_mac E \<longrightarrow> pk = Some (ed_public (se_crypto E) (se_key_pair E))"
    and "respond_to_client_hello (se_crypto E) (se_rng E) (se_key_pair E) hello (se_mode E) = Inr (sh, tr)"
    and "length (to_binary_server_hello (se_codec E) sh) \<le> MAX_FRAME_LEN"
    and "se_write E (wq_tail_append (prefixed (to_binary_server_hello (se_codec E) sh)) wq_new) st = (Some q, st1)"
    and "pinned = None \<or> pinned = Some (ed_public (se_crypto E) (se_key_pair E))"
    and "complete_client_transport_handshake (se_crypto E) (priv, hello) sh pinned = Inr (ct, trusted)"
    and "from_binary_client_hello (se_codec E) h = Inr hello" and "4 \<le> length h" and "length h \<le> MAX_CONTROL_PAYLOAD_BYTES"
    and "sends E ct cs frames"
    and "concat (map sf_bytes fills) = prefixed h @ concat (map prefixed frames)"
    and "list_all (\<lambda>f. \<not> sf_disconnected f) fills"
    and "\<not> se_clogged E st" and "\<not> se_pending E st"
    and "serve E AwaitAuth st1 cs = Some (state', st')"
  shows "\<exists>client. read_all E (fills @ replicate (Suc (length cs)) idle_fill) ReadParked conn_new st =
            (ReadParked, Some client, st') \<and>
          cc_state client = state' \<and> rb_pending (cc_read_buf client) = []"
proof -
  from handshake_completes [OF assms(1,2,6,8,11)] assms(12) have "ct = mirror_transport tr" by simp
  then have "mirrored (control_record ct) (control_record tr)" using control_record_mirrored(1) by simp
  from sends_opens [OF assms(4,5) this assms(16)]
  have "opens E (control_record tr) frames cs \<and> list_all (\<lambda>r. length r \<le> MAX_FRAME_LEN) frames" .
  then have g: "in_greeting E (state', st') h tr (concat (map sf_bytes fills)) cs conn_new"
    using greeting_new [of E tr frames cs "(state', st')" h] assms(17) by simp
  have "verify_client_hello_mac1 (se_crypto E) (ed_public (se_crypto E) (se_key_pair E)) hello" if "se_require_hello_mac E"
    using generated_mac1 assms(3,6,7) that by simp
  then have "answers E hello sh tr st st1" using assms(8-10) by (auto simp: answers_def)
  then have w: "welcomes E (state', st') h tr cs st"
    using assms(13-15,19-21) by (auto simp: welcomes_def prefixed_def VIDEO_MAGIC_def ascii_bytes_def)
  have "fills \<noteq> []" using assms(14,17) by (auto simp: prefixed_def)
  from greeting_reads [OF g w assms(18) this, of "replicate (Suc (length cs)) idle_fill" ReadParked] obtain exit1 client1 st2 cs1 where
    r: "read_all E (fills @ replicate (Suc (length cs)) idle_fill) ReadParked conn_new st =
        read_all E (replicate (Suc (length cs)) idle_fill) exit1 client1 st2"
      "in_channel E (state', st') [] cs1 client1 st2" "length cs1 \<le> length cs" by blast
  from in_channel_drains [OF r(2), of "length cs" exit1] r(3) obtain client st3 where
    d: "read_all E (replicate (Suc (length cs)) idle_fill) exit1 client1 st2 = (ReadParked, Some client, st3)"
      "in_channel E (state', st') [] [] client st3" by auto
  from in_channel_end [OF d(2)] r(1) d(1) show ?thesis by simp
qed
subsection \<open>The answers\<close>

lemma seal_next_append:
  assumes "seal_next_into A rp channel p out = (Inr (), rp', out')"
  shows "\<exists>f. out' = out @ f \<and> seal_next_into A rp channel p [] = (Inr (), rp', f)"
  using assms
  by (cases rp) (auto simp: seal_next_into_def tc_seal_next_into_def seal_with_key_into_eq Let_def
      split: if_splits option.splits prod.splits)

fun queue_controls :: "'s server_env \<Rightarrow> bytes list \<Rightarrow> control_conn \<Rightarrow> (conn_error, unit) result \<times> control_conn" where
  "queue_controls E [] client = (Inr (), client)"
| "queue_controls E (p # ps) client =
     (case seal_control_payload_now E p client of
        (Inl e, client) \<Rightarrow> (Inl e, client)
      | (Inr _, client) \<Rightarrow> queue_controls E ps client)"

lemma queue_one:
  assumes "aead_correct (env_aead E)" and "seal_control_payload_now E p client = (Inr (), client')"
    and "cc_control client = Some rp" and "wq_inv (cc_write_buf client)"
  shows "\<exists>rp' f. seal_next_into (env_aead E) rp CHANNEL_CONTROL p [] = (Inr (), rp', f) \<and> cc_control client' = Some rp' \<and>
     wq_inv (cc_write_buf client') \<and> wq_pending (cc_write_buf client') = wq_pending (cc_write_buf client) @ prefixed f"
proof -
  let ?prefix = "to_le 4 (of_nat (sealed_len rp (length p)) :: u32)"
  from assms(2,3) obtain rp' out where
    s: "seal_next_into (env_aead E) rp CHANNEL_CONTROL p (wq_buf (cc_write_buf client) @ ?prefix) = (Inr (), rp', out)"
      "client' = client\<lparr>cc_control := Some rp', cc_write_buf := (cc_write_buf client)\<lparr>wq_buf := out\<rparr>\<rparr>"
    by (auto simp: seal_control_payload_now_def Let_def split: prod.splits sum.splits)
  from seal_next_append [OF s(1)] obtain f where
    f: "out = (wq_buf (cc_write_buf client) @ ?prefix) @ f" "seal_next_into (env_aead E) rp CHANNEL_CONTROL p [] = (Inr (), rp', f)"
    by blast
  have "length f = sealed_len rp (length p)" using seal_appends_sealed_len [OF assms(1) f(2)] by simp
  then have "?prefix @ f = prefixed f" by (simp add: prefixed_def)
  with f(1) have out: "out = wq_buf (cc_write_buf client) @ prefixed f" by simp
  have "(cc_write_buf client)\<lparr>wq_buf := out\<rparr> = wq_tail_append (prefixed f) (cc_write_buf client)"
    by (simp add: wq_tail_append_def out)
  then show ?thesis using wq.invar_push wq.pending_push assms(4) s(2) f(2) by auto
qed

text \<open>
  C0. What the server seals the client reads. After a handshake, payloads the server queues on the
  connection, which its write pump sends in order, are framed in the write queue one after the other,
  and the records of these frames open at the client to exactly these payloads.
\<close>

theorem queued_controls_open:
  assumes "aead_correct (env_aead E)" and "aead_exact (env_aead E)"
    and "cc_control client = Some rp" and "mirrored rp rp_client" and "wq_inv (cc_write_buf client)"
    and "list_all (\<lambda>p. length p \<le> MAX_CONTROL_PAYLOAD_BYTES) ps"
    and "queue_controls E ps client = (Inr (), client')"
  shows "\<exists>frames. wq_pending (cc_write_buf client') = wq_pending (cc_write_buf client) @ concat (map prefixed frames) \<and>
     list_all (\<lambda>f. length f \<le> MAX_FRAME_LEN) frames \<and> open_all (env_aead E) CHANNEL_CONTROL rp_client frames = Inr ps"
proof -
  have "\<exists>frames. wq_pending (cc_write_buf client') = wq_pending (cc_write_buf client) @ concat (map prefixed frames) \<and>
     seal_all (env_aead E) CHANNEL_CONTROL rp ps = Inr frames"
    using assms(3,5,7)
  proof (induction ps arbitrary: client rp)
    case (Cons p ps)
    from Cons.prems(3) obtain client1 where
      q: "seal_control_payload_now E p client = (Inr (), client1)" "queue_controls E ps client1 = (Inr (), client')"
      by (auto split: prod.splits sum.splits)
    from queue_one [OF assms(1) q(1) Cons.prems(1,2)] obtain rp' f where
      f: "seal_next_into (env_aead E) rp CHANNEL_CONTROL p [] = (Inr (), rp', f)" "cc_control client1 = Some rp'"
        "wq_inv (cc_write_buf client1)" "wq_pending (cc_write_buf client1) = wq_pending (cc_write_buf client) @ prefixed f"
      by auto
    from Cons.IH [OF f(2,3) q(2)] obtain frames where
      "wq_pending (cc_write_buf client') = wq_pending (cc_write_buf client1) @ concat (map prefixed frames)"
      "seal_all (env_aead E) CHANNEL_CONTROL rp' ps = Inr frames" by auto
    with f(1,4) show ?case by (intro exI [of _ "f # frames"]) simp
  qed simp
  with lane_iff [OF assms(1,2,4)] sealed_controls_fit [OF assms(1) _ assms(6)] show ?thesis by blast
qed

section \<open>A server to run\<close>

definition demo_login :: client_control where
  "demo_login = Authenticate (ascii_bytes ''ada'') (ascii_bytes ''secret'') False 0"

definition demo_codec :: control_codec where
  "demo_codec =
     \<lparr>to_binary_control = (\<lambda>c. if c = LeaveVoice then [1] else [2]),
      from_binary_control = (\<lambda>bs. if bs = [1] then Inr LeaveVoice else Inr demo_login),
      to_binary_group = (\<lambda>_. []),
      to_binary_client_hello = (\<lambda>_. [1, 2, 3, 4]), from_binary_client_hello = (\<lambda>_. Inr (snd demo_client)),
      to_binary_server_hello = (\<lambda>_. [5]), from_binary_server_hello = (\<lambda>_. Inl ''unused'')\<rparr>"

definition demo_env :: "nat server_env" where
  "demo_env =
     \<lparr>se_crypto = demo_fns, se_codec = demo_codec, se_rng = demo_rng 6, se_key_pair = [7], se_mode = Plaintext,
      se_require_hello_mac = False, se_clogged = (\<lambda>_. False), se_pending = (\<lambda>_. False),
      se_identity_busy = (\<lambda>_. False), se_defer = (\<lambda>_ n. n),
      se_pre_auth = (\<lambda>_ n. (Inr (), Keep Ready, n + 1)), se_ready = (\<lambda>_ n. (Inr (), Keep Ready, n + 10)),
      se_write = (\<lambda>q n. (Some q, n)), se_disconnect = (\<lambda>n. n)\<rparr>"

lemma demo_env_fields:
  "se_crypto demo_env = demo_fns" "se_codec demo_env = demo_codec" "se_rng demo_env = demo_rng 6" "se_key_pair demo_env = [7]"
  "se_mode demo_env = Plaintext" "\<not> se_require_hello_mac demo_env" "\<not> se_clogged demo_env n" "\<not> se_pending demo_env n"
  "\<not> se_identity_busy demo_env n" "se_pre_auth demo_env c n = (Inr (), Keep Ready, n + 1)"
  "se_ready demo_env c n = (Inr (), Keep Ready, n + 10)" "se_write demo_env q n = (Some q, n)"
  by (simp_all add: demo_env_def)

lemma demo_codec_fields:
  "to_binary_control demo_codec LeaveVoice = [1]" "to_binary_control demo_codec demo_login = [2]"
  "from_binary_control demo_codec [1] = Inr LeaveVoice" "from_binary_control demo_codec [2] = Inr demo_login"
  "from_binary_client_hello demo_codec bs = Inr (snd demo_client)" "to_binary_server_hello demo_codec sh = [5]"
  by (simp_all add: demo_codec_def demo_login_def)

definition demo_fill :: "bytes \<Rightarrow> socket_fill" where
  "demo_fill bs = \<lparr>sf_bytes = bs, sf_hit_limit = False, sf_disconnected = False\<rparr>"

lemma demo_respond_plain:
  "\<exists>sh tr. respond_to_client_hello demo_fns (demo_rng 6) [7] (snd demo_client) Plaintext = Inr (sh, tr)"
proof -
  have "pad32 [7] \<noteq> []" by (metis length_0_conv length_pad32 zero_neq_numeral)
  then show ?thesis
    by (simp add: respond_to_client_hello_def full_transcript_def demo_fns_def demo_rng_def demo_client_def
        validate_client_hello_def validate_server_hello_def supported_wire_ids_def crypto_lens)
qed

lemma demo_login_valid: "validate_client_control demo_fns demo_codec demo_login = Inr ()"
proof -
  have "trim (ascii_bytes ''ada'') \<noteq> []" "trim (ascii_bytes ''secret'') \<noteq> []" by code_simp+
  then show ?thesis
    by (simp add: demo_login_def validate_client_control_def validate_auth_field_def validate_optional_auth_field_def
        MAX_AUTH_FIELD_BYTES_def)
qed

theorem controls_served_in_order_witness:
  "\<exists>client. read_all demo_env ([demo_fill (take 5 (prefixed [1, 2, 3, 4])),
       demo_fill (drop 5 (prefixed [1, 2, 3, 4]) @ prefixed [2] @ prefixed [1])] @ replicate 3 idle_fill) ReadParked conn_new 0 =
     (ReadParked, Some client, 11) \<and> cc_state client = Ready \<and> rb_pending (cc_read_buf client) = []"
proof -
  obtain sh tr where r: "respond_to_client_hello demo_fns (demo_rng 6) [7] (snd demo_client) Plaintext = Inr (sh, tr)"
    using demo_respond_plain by blast
  let ?ct = "mirror_transport tr"
  have gen: "generate_client_hello demo_fns (demo_rng 5) None = Inr (fst demo_client, snd demo_client)"
    using demo_generate by simp
  have ct: "complete_client_transport_handshake demo_fns (fst demo_client, snd demo_client) sh None = Inr (?ct, ed_public demo_fns [7])"
    by (rule handshake_completes [OF demo_fns_ok(1,2) gen r]) simp
  have "control_record ?ct = Clear"
    using r by (auto simp: respond_Inr derive_session_transport_def mirror_transport_def control_record_def Let_def)
  then have seal: "seal_all (env_aead demo_env) CHANNEL_CONTROL (control_record ?ct) [[2], [1]] = Inr [[2], [1]]"
    by (simp add: seal_next_into_def)
  have "validate_client_control demo_fns demo_codec LeaveVoice = Inr ()" by (simp add: validate_client_control_def)
  with seal demo_login_valid have sent: "sends demo_env ?ct [demo_login, LeaveVoice] [[2], [1]]"
    unfolding sends_def
    by (intro exI [of _ "[[2], [1]]"])
      (simp add: demo_env_fields demo_codec_fields encode_client_control_Inr MAX_CONTROL_PAYLOAD_BYTES_def)
  have served: "serve demo_env AwaitAuth 0 [demo_login, LeaveVoice] = Some (Ready, 11)"
    by (simp add: demo_env_fields handle_control_def is_auth_control_def demo_login_def)
  have cut: "concat (map sf_bytes [demo_fill (take 5 (prefixed [1, 2, 3, 4])),
        demo_fill (drop 5 (prefixed [1, 2, 3, 4]) @ prefixed [2] @ prefixed [1])]) =
      prefixed [1, 2, 3, 4] @ concat (map prefixed [[2], [1]])"
    unfolding demo_fill_def list.map concat.simps socket_fill.simps by (metis append.assoc append_Nil2 append_take_drop_id)
  have "\<exists>client. read_all demo_env ([demo_fill (take 5 (prefixed [1, 2, 3, 4])),
       demo_fill (drop 5 (prefixed [1, 2, 3, 4]) @ prefixed [2] @ prefixed [1])] @
       replicate (Suc (length [demo_login, LeaveVoice])) idle_fill) ReadParked conn_new 0 =
     (ReadParked, Some client, 11) \<and> cc_state client = Ready \<and> rb_pending (cc_read_buf client) = []"
    by (rule controls_served_in_order [OF _ _ _ _ _ _ _ _ _ _ _ _ _ _ _ sent cut _ _ _ served,
          where hello = "snd demo_client" and priv = "fst demo_client" and pk = None and rng_c = "demo_rng 5"
            and sh = sh and tr = tr and pinned = None and trusted = "ed_public demo_fns [7]"])
      (simp_all add: demo_env_fields demo_codec_fields demo_fns_ok gen r ct [unfolded prod.collapse] demo_fill_def MAX_FRAME_LEN_def
        MAX_CONTROL_PAYLOAD_BYTES_def)
  then show ?thesis by (simp only: list.size add_0_right add_Suc_right numeral_3_eq_3)
qed

text \<open>The same server with operations that do something else for controls they should not get.\<close>

theorem operations_see_valid_controls_witness:
  "read_all (with_ops (\<lambda>c n. if is_auth_control c then (Inr (), Keep Ready, n + 1) else (Inr (), Removed, 99))
      (\<lambda>c n. if is_auth_control c then (Inr (), Removed, 99) else (Inr (), Keep Ready, n + 10)) demo_env)
     [demo_fill [1, 2], demo_fill [0, 0, 9, 9, 9]] ReadParked conn_new 0 =
   read_all demo_env [demo_fill [1, 2], demo_fill [0, 0, 9, 9, 9]] ReadParked conn_new 0"
  by (rule operations_see_valid_controls) (simp_all add: demo_env_fields)

definition demo_stranger :: "nat server_env" where
  "demo_stranger = demo_env\<lparr>se_pre_auth := (\<lambda>_ n. (Inr (), BeginClose AwaitAuth, n + 1))\<rparr>"

theorem no_operation_before_auth_witness:
  "read_all (with_ops (se_pre_auth demo_stranger) (\<lambda>_ _. (Inr (), Removed, 99)) demo_stranger)
     [demo_fill [4, 0, 0, 0], demo_fill [1, 2, 3, 4, 1, 0, 0, 0, 2, 1, 0, 0, 0, 1]] ReadParked conn_new 0 =
   read_all demo_stranger [demo_fill [4, 0, 0, 0], demo_fill [1, 2, 3, 4, 1, 0, 0, 0, 2, 1, 0, 0, 0, 1]] ReadParked conn_new 0"
  by (rule no_operation_before_auth) (simp_all add: never_admits_def demo_stranger_def conn_new_def)

theorem queued_controls_open_witness:
  "\<exists>frames. wq_pending (cc_write_buf (snd (queue_controls demo_env [[9], [8, 7]] (conn_new\<lparr>cc_control := Some Clear\<rparr>)))) =
       concat (map prefixed frames) \<and>
     open_all (env_aead demo_env) CHANNEL_CONTROL Clear frames = Inr [[9], [8, 7]]"
proof -
  let ?c = "conn_new\<lparr>cc_control := Some Clear\<rparr>"
  have "fst (queue_controls demo_env [[9], [8, 7]] ?c) = Inr ()"
    by (simp add: seal_control_payload_now_def seal_next_into_def conn_new_def)
  then have "queue_controls demo_env [[9], [8, 7]] ?c = (Inr (), snd (queue_controls demo_env [[9], [8, 7]] ?c))"
    by (metis prod.collapse)
  from queued_controls_open [OF _ _ _ _ _ _ this, where rp = Clear and rp_client = Clear] show ?thesis
    using wq.invar_fresh wq.pending_fresh
    by (simp add: demo_env_fields demo_fns_ok conn_new_def MAX_CONTROL_PAYLOAD_BYTES_def) blast
qed

end
