(* ===== verification/Spec2Isabelle.thy ===== *)
theory Spec2Isabelle
  imports Relay_Properties Video_Fanout Event_Queue Identity_Store Control_Conn
begin

text \<open>
  A verification library for the chatt voice, video and text chat system.
\<close>

end
